(* ===== verification/Go_Prelude.thy ===== *)
theory Go_Prelude
  imports Main "HOL-Library.Word" "HOL-Library.Signed_Division"
begin

section \<open>Go machine integers, errors, results and time\<close>

text \<open>
  The part of the Go language the program's arithmetic rests on, and the collections the
  component theories share.

  \<^item> Go's \<open>int64\<close> and, on the 64-bit targets the program is built for, \<open>int\<close> are 64-bit
    words read by \<open>sint\<close>: addition, subtraction, multiplication and negation wrap;
    \<open>/\<close> and \<open>%\<close> truncate towards zero (\<open>go_div\<close>, \<open>go_mod\<close>); comparisons are signed.
  \<^item> An \<open>error\<close> value is a constructor of \<open>error\<close>; a Go function that returns a value and an
    error is a function into \<open>'a result\<close>, with \<open>Inl\<close> for a non-nil error.
  \<^item> A \<open>time.Time\<close> is the number of nanoseconds since an epoch, an unbounded integer; a
    \<open>time.Duration\<close> is an \<open>int64\<close> of nanoseconds; \<open>time_Sub\<close> saturates as
    \<open>time.Time.Sub\<close> does.

  The named collections \<open>go_arith\<close> (signed readings of the word operations) and
  \<open>go_defs\<close> (operations that the simplifier unfolds) carry the proofs of the components.
\<close>

type_synonym int64 = "64 word"
type_synonym uint64 = "64 word"
type_synonym Time = int
type_synonym Duration = int64

named_theorems go_arith \<open>signed readings of the 64-bit operations\<close>
named_theorems go_defs \<open>definitions of operations without control flow of their own\<close>

subsection \<open>Signed 64-bit arithmetic\<close>

definition in_i64 :: "int \<Rightarrow> bool" where
  "in_i64 x \<longleftrightarrow> - (2 ^ 63) \<le> x \<and> x < 2 ^ 63"

lemma in_i64_iff: "in_i64 x \<longleftrightarrow> - 9223372036854775808 \<le> x \<and> x \<le> 9223372036854775807"
  by (auto simp: in_i64_def)

lemma in_i64_nonneg: "0 \<le> x \<Longrightarrow> in_i64 x \<longleftrightarrow> x < 2 ^ 63"
  by (simp add: in_i64_def)

definition MinInt64 :: int64 where
  "MinInt64 = - 9223372036854775808"

definition MaxInt64 :: int64 where
  "MaxInt64 = 9223372036854775807"

definition go_div :: "int64 \<Rightarrow> int64 \<Rightarrow> int64" where
  "go_div a b = word_of_int (sint a sdiv sint b)"

definition go_mod :: "int64 \<Rightarrow> int64 \<Rightarrow> int64" where
  "go_mod a b = word_of_int (sint a smod sint b)"

lemma sint_word_of_int: "sint (word_of_int x :: int64) = (x + 2 ^ 63) mod 2 ^ 64 - 2 ^ 63"
  by (simp add: sint_sbintrunc' signed_take_bit_eq_take_bit_shift take_bit_eq_mod)

lemma sint_word_of_int_id [simp]: "in_i64 x \<Longrightarrow> sint (word_of_int x :: int64) = x"
  unfolding sint_word_of_int in_i64_def by (simp add: mod_pos_pos_trivial)

lemma in_i64_sint [simp]: "in_i64 (sint (w :: int64))"
  using sint_ge [of w] sint_lt [of w] by (simp add: in_i64_def)

lemma sint_eq_in_i64: "sint (w :: int64) = x \<Longrightarrow> in_i64 x"
  by auto

lemma sint_bounds: "- 9223372036854775808 \<le> sint (w :: int64)" "sint (w :: int64) \<le> 9223372036854775807"
  using in_i64_sint [of w] by (simp_all add: in_i64_def)

lemma word_eq_sint: "(a :: int64) = b \<longleftrightarrow> sint a = sint b"
  by (auto intro: signed_word_eqI)

lemma word_of_int_sint_id [simp]: "word_of_int (sint (w :: int64)) = w"
  by (simp add: word_eq_sint)

lemma sint_inj_word_of_int: "in_i64 x \<Longrightarrow> (word_of_int x = (w :: int64)) \<longleftrightarrow> x = sint w"
  by (auto simp: word_eq_sint)

lemma sless_sint [go_arith]: "(a :: int64) <s b \<longleftrightarrow> sint a < sint b"
  by (rule word_sless_alt)

lemma sle_sint [go_arith]: "(a :: int64) \<le>s b \<longleftrightarrow> sint a \<le> sint b"
  by (rule word_sle_eq)

lemma sint_add_word: "sint (a + b :: int64) = (sint a + sint b + 2 ^ 63) mod 2 ^ 64 - 2 ^ 63"
  by (simp add: sint_word_add signed_take_bit_eq_take_bit_shift take_bit_eq_mod)

lemma sint_diff_word: "sint (a - b :: int64) = (sint a - sint b + 2 ^ 63) mod 2 ^ 64 - 2 ^ 63"
  by (simp add: sint_word_diff signed_take_bit_eq_take_bit_shift take_bit_eq_mod)

lemma sint_mult_word: "sint (a * b :: int64) = (sint a * sint b + 2 ^ 63) mod 2 ^ 64 - 2 ^ 63"
  by (simp add: sint_word_mult signed_take_bit_eq_take_bit_shift take_bit_eq_mod)

lemma sint_minus_word: "sint (- a :: int64) = (- sint a + 2 ^ 63) mod 2 ^ 64 - 2 ^ 63"
  by (simp add: sint_word_minus signed_take_bit_eq_take_bit_shift take_bit_eq_mod)

lemma wrap_id: "in_i64 x \<Longrightarrow> (x + 2 ^ 63) mod 2 ^ 64 - 2 ^ 63 = x"
  unfolding in_i64_def by (simp add: mod_pos_pos_trivial)

lemma wrap_high: "2 ^ 63 \<le> x \<Longrightarrow> x < 2 ^ 63 + 2 ^ 64 \<Longrightarrow>
    (x + 2 ^ 63) mod 2 ^ 64 - 2 ^ 63 = x - (2 ^ 64 :: int)"
  using mod_pos_pos_trivial [of "x - 2 ^ 63" "2 ^ 64 :: int"]
    mod_add_self2 [of "x - 2 ^ 63" "2 ^ 64 :: int"] by (simp add: algebra_simps)

lemma wrap_low: "x < - (2 ^ 63) \<Longrightarrow> - (2 ^ 63) - 2 ^ 64 \<le> x \<Longrightarrow>
    (x + 2 ^ 63) mod 2 ^ 64 - 2 ^ 63 = x + (2 ^ 64 :: int)"
  using mod_pos_pos_trivial [of "x + 2 ^ 63 + 2 ^ 64" "2 ^ 64 :: int"]
    mod_add_self2 [of "x + 2 ^ 63" "2 ^ 64 :: int"] by simp

lemma sint_add_in [simp]: "in_i64 (sint a + sint b) \<Longrightarrow> sint (a + b :: int64) = sint a + sint b"
  by (simp only: sint_add_word wrap_id)

lemma sint_diff_in [simp]: "in_i64 (sint a - sint b) \<Longrightarrow> sint (a - b :: int64) = sint a - sint b"
  by (simp only: sint_diff_word wrap_id)

lemma sint_mult_in [simp]: "in_i64 (sint a * sint b) \<Longrightarrow> sint (a * b :: int64) = sint a * sint b"
  by (simp only: sint_mult_word wrap_id)

lemma sint_minus_in [simp]: "in_i64 (- sint a) \<Longrightarrow> sint (- a :: int64) = - sint a"
  by (simp only: sint_minus_word wrap_id)

lemma sint_MinInt64 [simp]: "sint MinInt64 = - 9223372036854775808"
  by (simp add: MinInt64_def)

lemma sint_MaxInt64 [simp]: "sint MaxInt64 = 9223372036854775807"
  by (simp add: MaxInt64_def)

subsection \<open>Truncating division\<close>

lemma sdiv_nonneg: "0 \<le> (a :: int) \<Longrightarrow> 0 < b \<Longrightarrow> a sdiv b = a div b"
  by (cases "a = 0") (auto simp: signed_divide_int_def sgn_if)

lemma smod_nonneg: "0 \<le> (a :: int) \<Longrightarrow> 0 < b \<Longrightarrow> a smod b = a mod b"
  by (cases "a = 0") (auto simp: signed_modulo_int_def sgn_if)

lemma in_i64_between: "in_i64 a \<Longrightarrow> in_i64 b \<Longrightarrow> a \<le> x \<Longrightarrow> x \<le> b \<Longrightarrow> in_i64 x"
  by (simp add: in_i64_def)

lemma sint_go_div_nonneg: "0 \<le> sint a \<Longrightarrow> 0 < sint b \<Longrightarrow> sint (go_div a b) = sint a div sint b"
proof -
  assume a: "0 \<le> sint a" and b: "0 < sint b"
  have "sint a div sint b \<le> sint a" using a b zdiv_mono2 [of "sint a" 1 "sint b"] by simp
  moreover have "0 \<le> sint a div sint b" using a b by (simp add: pos_imp_zdiv_nonneg_iff)
  ultimately have "in_i64 (sint a div sint b)"
    using sint_bounds [of a] by (simp add: in_i64_def)
  then show ?thesis using a b by (simp add: go_div_def sdiv_nonneg)
qed

lemma sint_go_mod_nonneg: "0 \<le> sint a \<Longrightarrow> 0 < sint b \<Longrightarrow> sint (go_mod a b) = sint a mod sint b"
proof -
  assume a: "0 \<le> sint a" and b: "0 < sint b"
  have "sint a mod sint b < sint b" "0 \<le> sint a mod sint b" using b by simp_all
  then have "in_i64 (sint a mod sint b)" using sint_bounds [of b] by (simp add: in_i64_def)
  then show ?thesis using a b by (simp add: go_mod_def smod_nonneg)
qed

subsection \<open>Errors and results\<close>

text \<open>
  The sentinel errors of the packages, with the errors of the standard library that reach
  them: the two errors of \<open>strconv\<close>, the two errors of \<open>context\<close>, and \<open>errors.New\<close> with a
  text that no caller inspects.
\<close>

datatype error =
    ErrOverflow | ErrParseMoney | ErrParseQuantity
  | ErrEmptyID | ErrEmptyAccount | ErrInvalidSide | ErrInvalidOrderType | ErrInvalidTIF
  | ErrInvalidSymbol | ErrInvalidQuantity | ErrLimitPriceRequired | ErrMarketPriceSet
  | ErrInvalidTransition | ErrOverfill | ErrFillPrice
  | ErrNotFound | ErrVersionConflict | ErrDuplicate
  | ErrCircuitOpen | ErrRateLimited | ErrBulkheadFull
  | ErrSyntax | ErrRange
  | DeadlineExceeded | Canceled
  | ErrText string

type_synonym 'a result = "error + 'a"

fun bind_result :: "'a result \<Rightarrow> ('a \<Rightarrow> 'b result) \<Rightarrow> 'b result" where
  "bind_result (Inl e) f = Inl e"
| "bind_result (Inr x) f = f x"

fun is_ok :: "'a result \<Rightarrow> bool" where
  "is_ok (Inl e) = False"
| "is_ok (Inr x) = True"

lemma bind_result_Inr_iff [simp]:
  "bind_result r f = Inr y \<longleftrightarrow> (\<exists>x. r = Inr x \<and> f x = Inr y)"
  by (cases r) auto

lemma bind_result_Inl_iff:
  "bind_result r f = Inl e \<longleftrightarrow> r = Inl e \<or> (\<exists>x. r = Inr x \<and> f x = Inl e)"
  by (cases r) auto

lemma if_Inl_eq_Inr [simp]: "(if c then Inl e else r) = Inr x \<longleftrightarrow> \<not> c \<and> r = Inr x"
  by simp

lemma bind_result_cong [fundef_cong]:
  "r = r' \<Longrightarrow> (\<And>x. r' = Inr x \<Longrightarrow> f x = g x) \<Longrightarrow> bind_result r f = bind_result r' g"
  by (cases r') auto

lemma is_ok_iff: "is_ok r \<longleftrightarrow> (\<exists>x. r = Inr x)"
  by (cases r) auto

subsection \<open>Time\<close>

definition time_Sub :: "Time \<Rightarrow> Time \<Rightarrow> Duration" where
  "time_Sub t u = word_of_int (max (- (2 ^ 63)) (min (2 ^ 63 - 1) (t - u)))"

definition time_After :: "Time \<Rightarrow> Time \<Rightarrow> bool" where
  "time_After t u \<longleftrightarrow> u < t"

definition Second :: Duration where
  "Second = 1000000000"

definition Millisecond :: Duration where
  "Millisecond = 1000000"

lemma sint_time_Sub: "sint (time_Sub t u) = max (- (2 ^ 63)) (min (2 ^ 63 - 1) (t - u))"
  unfolding time_Sub_def by (rule sint_word_of_int_id) (auto simp: in_i64_def)

end
