(* ===== verification/Go_Float.thy ===== *)
theory Go_Float
  imports Complex_Main Go_Prelude
begin

section \<open>Go's float64\<close>

text \<open>
  The IEEE 754 binary64 arithmetic that the rate limiter and the retry policy use: a value is a
  rational, an infinity or NaN (the two zeros are one value: the program never tells them apart).
  Each operation is the exact one followed by \<open>fl\<close>, rounding to the nearest of the numbers with
  a 53-bit significand and exponent at least \<open>-1074\<close>, ties to even. The lemmas are the facts of
  rounding the components need: sign, exactness and monotonicity against representable bounds.
\<close>

datatype float64 = Fin rat | PInf | NInf | NaN

definition pow2 :: "int \<Rightarrow> rat" where
  "pow2 e = (if 0 \<le> e then of_int (2 ^ nat e) else 1 / of_int (2 ^ nat (- e)))"

text \<open>The number of binary digits of an integer, and the binary exponent of a positive rational.\<close>

function bits :: "int \<Rightarrow> int" where
  "bits n = (if n \<le> 0 then 0 else 1 + bits (n div 2))"
  by pat_completeness auto

termination by (relation "measure nat") auto

declare bits.simps [simp del]

definition ilog2 :: "rat \<Rightarrow> int" where
  "ilog2 x = (let (a, b) = quotient_of x; k = bits a - bits b in if pow2 k \<le> x then k else k - 1)"

definition round_even :: "rat \<Rightarrow> int" where
  "round_even y =
     (let f = \<lfloor>y\<rfloor>; d = y - of_int f in
      if d < 1 / 2 then f else if 1 / 2 < d then f + 1 else if even f then f else f + 1)"

definition ulp_exp :: "rat \<Rightarrow> int" where
  "ulp_exp x = max (ilog2 \<bar>x\<bar> - 52) (- 1074)"

definition fl :: "rat \<Rightarrow> float64" where
  "fl x =
     (if x = 0 then Fin 0
      else (let e = ulp_exp x; m = round_even (x / pow2 e) in
            if 971 < e \<or> (e = 971 \<and> 9007199254740992 \<le> \<bar>m\<bar>) then (if 0 < x then PInf else NInf)
            else Fin (of_int m * pow2 e)))"

fun f_neg :: "float64 \<Rightarrow> float64" where
  "f_neg (Fin x) = Fin (- x)"
| "f_neg PInf = NInf"
| "f_neg NInf = PInf"
| "f_neg NaN = NaN"

fun f_add :: "float64 \<Rightarrow> float64 \<Rightarrow> float64" where
  "f_add (Fin x) (Fin y) = fl (x + y)"
| "f_add NaN _ = NaN"
| "f_add _ NaN = NaN"
| "f_add PInf NInf = NaN"
| "f_add NInf PInf = NaN"
| "f_add PInf _ = PInf"
| "f_add NInf _ = NInf"
| "f_add _ PInf = PInf"
| "f_add _ NInf = NInf"

definition f_sub :: "float64 \<Rightarrow> float64 \<Rightarrow> float64" where
  "f_sub a b = f_add a (f_neg b)"

definition f_inf :: "rat \<Rightarrow> float64" where
  "f_inf s = (if 0 < s then PInf else if s < 0 then NInf else NaN)"

fun f_mul :: "float64 \<Rightarrow> float64 \<Rightarrow> float64" where
  "f_mul (Fin x) (Fin y) = fl (x * y)"
| "f_mul NaN _ = NaN"
| "f_mul _ NaN = NaN"
| "f_mul PInf PInf = PInf"
| "f_mul PInf NInf = NInf"
| "f_mul NInf PInf = NInf"
| "f_mul NInf NInf = PInf"
| "f_mul PInf (Fin y) = f_inf y"
| "f_mul NInf (Fin y) = f_inf (- y)"
| "f_mul (Fin x) PInf = f_inf x"
| "f_mul (Fin x) NInf = f_inf (- x)"

text \<open>Division, by a finite value that is not zero (the only divisor of the program is \<open>1e9\<close>).\<close>

fun f_div_fin :: "float64 \<Rightarrow> rat \<Rightarrow> float64" where
  "f_div_fin (Fin x) y = fl (x / y)"
| "f_div_fin PInf y = f_inf y"
| "f_div_fin NInf y = f_inf (- y)"
| "f_div_fin NaN y = NaN"

fun f_le :: "float64 \<Rightarrow> float64 \<Rightarrow> bool" where
  "f_le (Fin x) (Fin y) \<longleftrightarrow> x \<le> y"
| "f_le NaN _ \<longleftrightarrow> False"
| "f_le _ NaN \<longleftrightarrow> False"
| "f_le NInf _ \<longleftrightarrow> True"
| "f_le _ PInf \<longleftrightarrow> True"
| "f_le _ _ \<longleftrightarrow> False"

fun f_less :: "float64 \<Rightarrow> float64 \<Rightarrow> bool" where
  "f_less (Fin x) (Fin y) \<longleftrightarrow> x < y"
| "f_less NaN _ \<longleftrightarrow> False"
| "f_less _ NaN \<longleftrightarrow> False"
| "f_less NInf NInf \<longleftrightarrow> False"
| "f_less NInf _ \<longleftrightarrow> True"
| "f_less PInf PInf \<longleftrightarrow> False"
| "f_less (Fin _) PInf \<longleftrightarrow> True"
| "f_less _ _ \<longleftrightarrow> False"

text \<open>
  The conversions: \<open>float64(n)\<close> rounds, \<open>int64(f)\<close> truncates; outside the range of \<open>int64\<close>,
  where the language leaves the result to the implementation, it is the smallest integer, as on
  amd64.
\<close>

definition f_of_int64 :: "int64 \<Rightarrow> float64" where
  "f_of_int64 n = fl (of_int (sint n))"

definition trunc :: "rat \<Rightarrow> int" where
  "trunc x = (if 0 \<le> x then \<lfloor>x\<rfloor> else \<lceil>x\<rceil>)"

fun f_to_int64 :: "float64 \<Rightarrow> int64" where
  "f_to_int64 (Fin x) = (if in_i64 (trunc x) then word_of_int (trunc x) else MinInt64)"
| "f_to_int64 _ = MinInt64"

text \<open>\<open>Duration.Seconds\<close>\<close>

definition Seconds :: "Duration \<Rightarrow> float64" where
  "Seconds d =
     f_add (f_of_int64 (go_div d Second)) (f_div_fin (f_of_int64 (go_mod d Second)) 1000000000)"

subsection \<open>Powers of two and exponents\<close>

lemma pow2_powi: "pow2 e = 2 powi e"
  by (simp add: pow2_def power_int_def field_simps)

lemma pow2_pos [simp]: "0 < pow2 e" "pow2 e \<noteq> 0" "0 \<le> pow2 e" "\<bar>pow2 e\<bar> = pow2 e"
  by (simp_all add: pow2_powi)

lemma pow2_add: "pow2 (a + b) = pow2 a * pow2 b"
  by (simp add: pow2_powi power_int_add)

lemma pow2_succ: "pow2 (e + 1) = 2 * pow2 e"
  by (simp add: pow2_powi power_int_add)

lemma pow2_mono: "a \<le> b \<Longrightarrow> pow2 a \<le> pow2 b"
  by (simp add: pow2_powi power_int_increasing)

lemma pow2_less: "pow2 a < pow2 b \<Longrightarrow> a < b"
  using pow2_mono [of b a] by (cases "a < b") auto

lemma pow2_nat: "0 \<le> k \<Longrightarrow> pow2 k = of_int (2 ^ nat k)"
  by (simp add: pow2_def)

lemma pow2_split: "j \<le> k \<Longrightarrow> pow2 k = of_int (2 ^ nat (k - j)) * pow2 j"
  using pow2_add [of "k - j" j] pow2_nat [of "k - j"] by simp

lemma bits_spec: "0 < n \<Longrightarrow> 0 < bits n \<and> pow2 (bits n - 1) \<le> of_int n \<and> of_int n < pow2 (bits n)"
proof (induction n rule: bits.induct)
  case (1 n)
  show ?case
  proof (cases "n = 1")
    case True
    then show ?thesis by (simp add: bits.simps pow2_def)
  next
    case False
    let ?h = "n div 2"
    have h: "0 < ?h" "2 * ?h \<le> n" "n \<le> 2 * ?h + 1" using 1(2) False by auto
    then have IH: "0 < bits ?h" "pow2 (bits ?h - 1) \<le> of_int ?h" "of_int ?h < pow2 (bits ?h)"
      using 1 by auto
    have b: "bits n = 1 + bits ?h" using 1(2) by (simp add: bits.simps [of n])
    have "of_int (?h + 1) \<le> pow2 (bits ?h)"
      using IH(1,3) by (simp add: pow2_nat of_int_less_iff [symmetric] del: of_int_power)
    then have "of_int (2 * (?h + 1)) \<le> 2 * pow2 (bits ?h)" by simp
    moreover have "of_int n < (of_int (2 * (?h + 1)) :: rat)" using h by (subst of_int_less_iff) simp
    moreover have "2 * pow2 (bits ?h - 1) \<le> of_int n"
    proof -
      have "2 * pow2 (bits ?h - 1) \<le> of_int (2 * ?h)" using IH(2) by simp
      also have "\<dots> \<le> of_int n" using h(2) by (simp only: of_int_le_iff)
      finally show ?thesis .
    qed
    moreover have "pow2 (1 + bits ?h) = 2 * pow2 (bits ?h)" "pow2 (bits ?h) = 2 * pow2 (bits ?h - 1)"
      using pow2_add [of 1 "bits ?h"] pow2_add [of 1 "bits ?h - 1"] by (simp_all add: pow2_def)
    ultimately show ?thesis using IH(1) by (simp add: b)
  qed
qed

lemma ilog2_spec:
  assumes "0 < x"
  shows "pow2 (ilog2 x) \<le> x" "x < pow2 (ilog2 x + 1)"
proof -
  obtain a b where q: "quotient_of x = (a, b)" by fastforce
  have b: "0 < b" using q by (rule quotient_of_denom_pos)
  have x: "x = of_int a / of_int b" using q by (rule quotient_of_div)
  have a: "0 < a" using assms b by (simp add: x zero_less_divide_iff)
  let ?k = "bits a - bits b"
  note sa = bits_spec [OF a] and sb = bits_spec [OF b]
  have "of_int a < pow2 (?k + 1) * of_int b"
  proof -
    have "pow2 (bits a) = pow2 (?k + 1) * pow2 (bits b - 1)" using pow2_add [of "?k + 1" "bits b - 1"] by simp
    also have "\<dots> \<le> pow2 (?k + 1) * of_int b" using sb by (intro mult_left_mono) (auto simp: less_imp_le)
    finally show ?thesis using sa by simp
  qed
  then have hi: "x < pow2 (?k + 1)" using b by (simp add: x divide_less_eq)
  have "pow2 (?k - 1) * of_int b \<le> of_int a"
  proof -
    have "pow2 (?k - 1) * of_int b \<le> pow2 (?k - 1) * pow2 (bits b)"
      using sb by (intro mult_left_mono) (auto simp: less_imp_le)
    also have "\<dots> = pow2 (bits a - 1)" using pow2_add [of "?k - 1" "bits b"] by simp
    finally show ?thesis using sa by simp
  qed
  then have lo: "pow2 (?k - 1) \<le> x" using b by (simp add: x le_divide_eq)
  show "pow2 (ilog2 x) \<le> x" "x < pow2 (ilog2 x + 1)"
    using hi lo by (auto simp: ilog2_def q Let_def)
qed

lemma ilog2_less: "0 < x \<Longrightarrow> x < pow2 k \<Longrightarrow> ilog2 x < k"
  using ilog2_spec(1) [of x] by (intro pow2_less) simp

lemma ilog2_mono: "0 < x \<Longrightarrow> x \<le> y \<Longrightarrow> ilog2 x \<le> ilog2 y"
proof -
  assume "0 < x" "x \<le> y"
  then have "x < pow2 (ilog2 y + 1)" using ilog2_spec(2) [of y] by simp
  with \<open>0 < x\<close> show ?thesis using ilog2_less by fastforce
qed

lemma ulp_exp_mono: "0 < x \<Longrightarrow> x \<le> y \<Longrightarrow> ulp_exp x \<le> ulp_exp y"
  using ilog2_mono [of x y] by (simp add: ulp_exp_def)

lemma scaled_bound: "x \<noteq> 0 \<Longrightarrow> \<bar>x / pow2 (ulp_exp x)\<bar> < 9007199254740992"
proof -
  assume "x \<noteq> 0"
  then have "\<bar>x\<bar> < pow2 (ilog2 \<bar>x\<bar> + 1)" by (intro ilog2_spec) simp
  also have "\<dots> \<le> pow2 (53 + ulp_exp x)" by (intro pow2_mono) (simp add: ulp_exp_def)
  also have "\<dots> = pow2 53 * pow2 (ulp_exp x)" by (rule pow2_add)
  also have "pow2 53 = 9007199254740992" by (simp add: pow2_def)
  finally show ?thesis by (simp add: abs_divide divide_less_eq)
qed

subsection \<open>Rounding\<close>

lemma round_even_of_int [simp]: "round_even (of_int n) = n"
  by (simp add: round_even_def)

lemma round_even_le: "y \<le> of_int n \<Longrightarrow> round_even y \<le> n"
proof -
  assume y: "y \<le> of_int n"
  have "\<lfloor>y\<rfloor> \<le> n" using floor_mono [OF y] by simp
  moreover have "\<lfloor>y\<rfloor> = n \<Longrightarrow> y - of_int \<lfloor>y\<rfloor> = 0" using y of_int_floor_le [of y] by simp
  ultimately show ?thesis by (cases "\<lfloor>y\<rfloor> = n") (auto simp: round_even_def Let_def)
qed

lemma round_even_ge: "of_int n \<le> y \<Longrightarrow> n \<le> round_even y"
proof -
  assume "of_int n \<le> y"
  then have "n \<le> \<lfloor>y\<rfloor>" by (simp add: le_floor_iff)
  then show ?thesis by (auto simp: round_even_def Let_def)
qed

lemma round_even_abs: "\<bar>y\<bar> \<le> of_int n \<Longrightarrow> \<bar>round_even y\<bar> \<le> n"
  using round_even_le [of y n] round_even_ge [of "- n" y] by (auto simp: abs_le_iff)

lemma multiple_scaled: "x = of_int n * pow2 e \<longleftrightarrow> x / pow2 e = of_int n"
  by (auto simp: divide_eq_eq)

lemma fl_exact:
  assumes "x = of_int m * pow2 j" "ulp_exp x \<le> j" "ulp_exp x \<le> 971"
  shows "fl x = Fin x"
proof (cases "x = 0")
  case False
  let ?e = "ulp_exp x"
  obtain n where x: "x = of_int n * pow2 ?e"
  proof
    show "x = of_int (m * 2 ^ nat (j - ?e)) * pow2 ?e" using assms(1) pow2_split [OF assms(2)] by simp
  qed
  then have q: "x / pow2 ?e = of_int n" by (simp only: multiple_scaled)
  with scaled_bound [OF False] have "\<bar>n\<bar> < 9007199254740992"
    by (simp only: of_int_abs [symmetric] of_int_less_numeral_iff)
  with False assms(3) q x [symmetric] show ?thesis by (simp add: fl_def Let_def)
qed (simp add: fl_def)

text \<open>A representable number is one that rounding leaves as it is.\<close>

definition representable :: "rat \<Rightarrow> bool" where
  "representable x \<longleftrightarrow> fl x = Fin x"

lemma representable_multiple:
  assumes "representable x" "x \<noteq> 0"
  obtains m where "x = of_int m * pow2 (ulp_exp x)" "\<bar>m\<bar> < 9007199254740992" "ulp_exp x \<le> 971"
proof -
  let ?m = "round_even (x / pow2 (ulp_exp x))"
  have x: "x = of_int ?m * pow2 (ulp_exp x)" and e: "ulp_exp x \<le> 971"
    using assms by (auto simp: representable_def fl_def Let_def split: if_splits)
  from x have "x / pow2 (ulp_exp x) = of_int ?m" by (simp only: multiple_scaled)
  with scaled_bound [OF assms(2)] have "\<bar>?m\<bar> < 9007199254740992"
    by (simp only: of_int_abs [symmetric] of_int_less_numeral_iff)
  with x e show ?thesis using that by blast
qed

lemma fl_representable:
  assumes "fl x = Fin v"
  shows "representable v"
proof (cases "x = 0 \<or> v = 0")
  case True
  then show ?thesis using assms by (auto simp: representable_def fl_def)
next
  case False
  let ?e = "ulp_exp x" and ?m = "round_even (x / pow2 (ulp_exp x))"
  have v: "v = of_int ?m * pow2 ?e" and o: "\<not> 971 < ?e" "\<not> (?e = 971 \<and> 9007199254740992 \<le> \<bar>?m\<bar>)"
    using assms False by (auto simp: fl_def Let_def split: if_splits)
  have m: "\<bar>?m\<bar> \<le> 9007199254740992"
    using scaled_bound [of x] False by (intro round_even_abs) simp
  have av: "\<bar>v\<bar> = of_int \<bar>?m\<bar> * pow2 ?e" by (subst v) (simp add: abs_mult)
  have e: "- 1074 \<le> ?e" by (simp add: ulp_exp_def)
  have "ulp_exp v \<le> ?e" if "\<bar>?m\<bar> < 9007199254740992"
  proof -
    have "\<bar>v\<bar> < pow2 (53 + ?e)"
      using that unfolding av pow2_add by (intro mult_strict_right_mono) (simp_all add: pow2_def del: of_int_abs)
    then have "ilog2 \<bar>v\<bar> < 53 + ?e" using False by (intro ilog2_less) auto
    with e show ?thesis by (simp add: ulp_exp_def)
  qed
  moreover have "\<exists>n. v = of_int n * pow2 (?e + 1) \<and> ulp_exp v \<le> ?e + 1 \<and> ?e + 1 \<le> 971"
    if "\<bar>?m\<bar> = 9007199254740992"
  proof -
    have "\<bar>v\<bar> = pow2 (53 + ?e)" unfolding av that pow2_add by (simp add: pow2_def)
    then have "\<bar>v\<bar> < pow2 (54 + ?e)" using pow2_add [of 1 "53 + ?e"] pow2_pos [of "53 + ?e"] by (simp add: pow2_def)
    then have "ilog2 \<bar>v\<bar> < 54 + ?e" using False by (intro ilog2_less) auto
    then have "ulp_exp v \<le> ?e + 1" using e by (simp add: ulp_exp_def)
    moreover have "v = of_int (?m div 2) * pow2 (?e + 1)"
    proof -
      have "even \<bar>?m\<bar>" unfolding that by simp
      then obtain n where n: "?m = 2 * n" by auto
      then show ?thesis using v unfolding n by (simp add: pow2_succ)
    qed
    ultimately show ?thesis using o that by fastforce
  qed
  ultimately show ?thesis
    unfolding representable_def using v o m fl_exact [of v ?m ?e] fl_exact [of v _ "?e + 1"]
    by (cases "\<bar>?m\<bar> = 9007199254740992") auto
qed

lemma fl_nonneg: "0 \<le> x \<Longrightarrow> fl x = PInf \<or> (\<exists>v. fl x = Fin v \<and> 0 \<le> v)"
proof (cases "x = 0")
  case False
  assume x: "0 \<le> x"
  have "0 \<le> round_even (x / pow2 (ulp_exp x))"
    using x pow2_pos [of "ulp_exp x"] by (intro round_even_ge) simp
  with x False show ?thesis by (auto simp: fl_def Let_def)
qed (simp add: fl_def)

text \<open>Rounding does not cross a representable bound.\<close>

lemma fl_le_representable:
  assumes "0 \<le> x" "x \<le> a" "representable a"
  obtains v where "fl x = Fin v" "0 \<le> v" "v \<le> a"
proof (cases "x = 0")
  case True
  then show ?thesis using that [of 0] assms by (simp add: fl_def)
next
  case False
  let ?e = "ulp_exp x" and ?m = "round_even (x / pow2 (ulp_exp x))"
  have e: "?e \<le> ulp_exp a" using False assms by (intro ulp_exp_mono) auto
  obtain k where k: "a = of_int k * pow2 (ulp_exp a)" "\<bar>k\<bar> < 9007199254740992" "ulp_exp a \<le> 971"
    using representable_multiple [OF assms(3)] False assms(1,2) by auto
  let ?n = "k * 2 ^ nat (ulp_exp a - ?e)"
  have a: "a = of_int ?n * pow2 ?e" using k(1) pow2_split [OF e] by simp
  then have "a / pow2 ?e = of_int ?n" by (simp only: multiple_scaled)
  moreover have "x / pow2 ?e \<le> a / pow2 ?e" using assms(2) by (intro divide_right_mono) (simp_all add: less_imp_le)
  ultimately have m: "?m \<le> ?n" by (intro round_even_le) (simp only:)
  have m0: "0 \<le> ?m" using assms(1) by (intro round_even_ge) (simp add: less_imp_le)
  have "?e < 971 \<or> \<bar>?m\<bar> < 9007199254740992" using e k m m0 by (cases "?e = ulp_exp a") auto
  then have "fl x = Fin (of_int ?m * pow2 ?e)" using False e k(3) by (auto simp: fl_def Let_def)
  moreover have "of_int ?m * pow2 ?e \<le> a"
    by (subst a) (use m in \<open>intro mult_right_mono\<close>, simp_all only: of_int_le_iff less_imp_le pow2_pos)
  ultimately show ?thesis using m0 by (intro that) (simp_all add: less_imp_le)
qed

lemma representable_int: "\<bar>n\<bar> < 9007199254740992 \<Longrightarrow> representable (of_int n)"
proof (cases "n = 0")
  case False
  assume "\<bar>n\<bar> < 9007199254740992"
  then have "\<bar>of_int n :: rat\<bar> < pow2 53" by (simp add: pow2_def of_int_abs [symmetric] del: of_int_abs)
  then have "ilog2 \<bar>of_int n\<bar> < 53" using False by (intro ilog2_less) auto
  then have "ulp_exp (of_int n) \<le> 0" by (simp add: ulp_exp_def)
  then show ?thesis unfolding representable_def by (intro fl_exact [of _ n 0]) (simp_all add: pow2_def)
qed (simp add: representable_def fl_def)

text \<open>Subtracting one from a representable number of the range of the limiter is exact.\<close>

lemma fl_minus_one:
  assumes "representable x" "1 \<le> x" "x < 9007199254740992"
  shows "fl (x - 1) = Fin (x - 1)"
proof (cases "x = 1")
  case True
  then show ?thesis by (simp add: fl_def)
next
  case False
  let ?e = "ulp_exp x"
  obtain m where m: "x = of_int m * pow2 ?e" "?e \<le> 971"
    using representable_multiple [OF assms(1)] assms(2) by force
  have "x < pow2 53" using assms(3) by (simp add: pow2_def)
  then have "ilog2 \<bar>x\<bar> < 53" using assms(2) by (intro ilog2_less) auto
  then have "?e \<le> 0" by (simp add: ulp_exp_def)
  then have "1 = of_int (2 ^ nat (- ?e)) * pow2 ?e" using pow2_split [of ?e 0] by (simp add: pow2_def)
  with m(1) have "x - 1 = of_int (m - 2 ^ nat (- ?e)) * pow2 ?e" by (simp add: left_diff_distrib)
  moreover have "ulp_exp (x - 1) \<le> ?e" using False assms(2) by (intro ulp_exp_mono) auto
  ultimately show ?thesis using m(2) by (intro fl_exact [of _ "m - 2 ^ nat (- ?e)" ?e]) linarith+
qed

end
