(* ===== verification/Go_Strings.thy ===== *)
theory Go_Strings
  imports Go_Prelude
begin

section \<open>Go strings: trimming, case, decimal numerals\<close>

text \<open>
  A Go string is a sequence of bytes, so a \<open>string\<close> here is a list of bytes (\<open>char\<close>). The
  functions of \<open>strings\<close> and \<open>strconv\<close> that the program calls:

  \<^item> \<open>TrimSpace\<close> removes from both ends the UTF-8 encodings of the Unicode white-space
    characters (the White\_Space property, as \<open>unicode.IsSpace\<close> has it). UTF-8 is
    self-synchronising, so the first (last) character of a string is a given one exactly if
    the string starts (ends) with its encoding.
  \<^item> \<open>ToUpper\<close> maps ASCII letters, and the two other characters whose upper case is ASCII
    (U+0131, whose upper case is I, and U+017F, whose upper case is S). Every other non-ASCII
    character is left as it is, where Go maps it to some non-ASCII character: all callers
    compare the result with ASCII text or reject non-letters, so they cannot tell the two apart.
  \<^item> \<open>ParseInt\<close> is \<open>strconv.ParseInt(s, 10, 64)\<close>, with \<open>parse_digits\<close> for the loop of
    \<open>ParseUint\<close> (syntax and range errors in the order the loop finds them); \<open>Atoi\<close> agrees
    with it on 64-bit targets. \<open>FormatInt\<close> is \<open>strconv.FormatInt(v, 10)\<close>.
  The lemmas evaluate the parser on numerals made of digits and show that it inverts the printer.
\<close>

subsection \<open>Trimming\<close>

definition space_encodings :: "string list" where
  "space_encodings =
     [[CHR 0x09], [CHR 0x0A], [CHR 0x0B], [CHR 0x0C], [CHR 0x0D], [CHR 0x20],
      [CHR 0xC2, CHR 0x85], [CHR 0xC2, CHR 0xA0],
      [CHR 0xE1, CHR 0x9A, CHR 0x80],
      [CHR 0xE2, CHR 0x80, CHR 0x80], [CHR 0xE2, CHR 0x80, CHR 0x81],
      [CHR 0xE2, CHR 0x80, CHR 0x82], [CHR 0xE2, CHR 0x80, CHR 0x83],
      [CHR 0xE2, CHR 0x80, CHR 0x84], [CHR 0xE2, CHR 0x80, CHR 0x85],
      [CHR 0xE2, CHR 0x80, CHR 0x86], [CHR 0xE2, CHR 0x80, CHR 0x87],
      [CHR 0xE2, CHR 0x80, CHR 0x88], [CHR 0xE2, CHR 0x80, CHR 0x89],
      [CHR 0xE2, CHR 0x80, CHR 0x8A], [CHR 0xE2, CHR 0x80, CHR 0xA8],
      [CHR 0xE2, CHR 0x80, CHR 0xA9], [CHR 0xE2, CHR 0x80, CHR 0xAF],
      [CHR 0xE2, CHR 0x81, CHR 0x9F], [CHR 0xE3, CHR 0x80, CHR 0x80]]"

fun strip_any :: "string list \<Rightarrow> string \<Rightarrow> string option" where
  "strip_any [] s = None"
| "strip_any (p # ps) s =
     (if p \<noteq> [] \<and> take (length p) s = p then Some (drop (length p) s) else strip_any ps s)"

lemma strip_any_shorter: "strip_any ps s = Some r \<Longrightarrow> length r < length s"
  by (induction ps; cases s) (auto split: if_splits intro: diff_less)

function trim_front :: "string list \<Rightarrow> string \<Rightarrow> string" where
  "trim_front ps s = (case strip_any ps s of None \<Rightarrow> s | Some r \<Rightarrow> trim_front ps r)"
  by pat_completeness auto
termination
  by (relation "measure (length \<circ> snd)") (auto dest: strip_any_shorter)

declare trim_front.simps [simp del]

definition TrimSpace :: "string \<Rightarrow> string" where
  "TrimSpace s =
     (let l = trim_front space_encodings s
      in rev (trim_front (map rev space_encodings) (rev l)))"

lemma strip_any_None:
  assumes "s \<noteq> []" and "\<forall>p \<in> set ps. p \<noteq> [] \<longrightarrow> hd p \<noteq> hd s"
  shows "strip_any ps s = None"
  using assms by (induction ps) (auto simp: neq_Nil_conv)

lemma trim_front_id: "strip_any ps s = None \<Longrightarrow> trim_front ps s = s"
  by (subst trim_front.simps) simp

lemma trim_front_Nil [simp]: "trim_front ps [] = []"
proof (rule trim_front_id)
  show "strip_any ps [] = None" by (induction ps) auto
qed

text \<open>A string that begins and ends with a visible ASCII character is left alone.\<close>

definition visible :: "char \<Rightarrow> bool" where
  "visible c \<longleftrightarrow> 33 \<le> (of_char c :: nat) \<and> (of_char c :: nat) \<le> 126"

lemma space_encodings_invisible:
  "p \<in> set space_encodings \<Longrightarrow> p \<noteq> [] \<and> \<not> visible (hd p) \<and> \<not> visible (last p)"
proof -
  have "list_all (\<lambda>p. p \<noteq> [] \<and> \<not> visible (hd p) \<and> \<not> visible (last p)) space_encodings"
    by (simp add: space_encodings_def visible_def)
  then show "p \<in> set space_encodings \<Longrightarrow> ?thesis" by (simp add: list_all_iff)
qed

lemma TrimSpace_visible:
  assumes "s \<noteq> []" "visible (hd s)" "visible (last s)"
  shows "TrimSpace s = s"
proof -
  have f: "\<forall>p \<in> set space_encodings. p \<noteq> [] \<longrightarrow> hd p \<noteq> hd s"
    using assms(2) space_encodings_invisible by fastforce
  have b: "\<forall>p \<in> set (map rev space_encodings). p \<noteq> [] \<longrightarrow> hd p \<noteq> hd (rev s)"
    using assms(3) space_encodings_invisible by (fastforce simp: hd_rev)
  have "strip_any (map rev space_encodings) (rev s) = None"
    using assms(1) b by (intro strip_any_None) auto
  then show ?thesis
    using strip_any_None [OF assms(1) f] by (simp add: TrimSpace_def trim_front_id)
qed

lemma TrimSpace_Nil [simp]: "TrimSpace [] = []"
  by (simp add: TrimSpace_def)

subsection \<open>Upper case\<close>

definition upper_byte :: "char \<Rightarrow> char" where
  "upper_byte c =
     (if 97 \<le> (of_char c :: nat) \<and> (of_char c :: nat) \<le> 122
      then char_of ((of_char c :: nat) - 32) else c)"

fun ToUpper :: "string \<Rightarrow> string" where
  "ToUpper [] = []"
| "ToUpper [c] = [upper_byte c]"
| "ToUpper (c # d # cs) =
     (if c = CHR 0xC4 \<and> d = CHR 0xB1 then CHR ''I'' # ToUpper cs
      else if c = CHR 0xC5 \<and> d = CHR 0xBF then CHR ''S'' # ToUpper cs
      else upper_byte c # ToUpper (d # cs))"

definition is_upper_letter :: "char \<Rightarrow> bool" where
  "is_upper_letter c \<longleftrightarrow> 65 \<le> (of_char c :: nat) \<and> (of_char c :: nat) \<le> 90"

lemma upper_byte_upper [simp]: "is_upper_letter c \<Longrightarrow> upper_byte c = c"
  by (auto simp: is_upper_letter_def upper_byte_def)

lemma ToUpper_upper: "\<forall>c \<in> set s. is_upper_letter c \<Longrightarrow> ToUpper s = s"
proof (induction s rule: ToUpper.induct)
  case (3 c d cs)
  then have "c \<noteq> CHR 0xC4" "c \<noteq> CHR 0xC5" by (auto simp: is_upper_letter_def)
  with 3 show ?case by simp
qed auto

lemma is_upper_letter_visible: "is_upper_letter c \<Longrightarrow> visible c"
  by (simp add: is_upper_letter_def visible_def)

subsection \<open>Joining\<close>

fun Join :: "string list \<Rightarrow> string \<Rightarrow> string" where
  "Join [] sep = []"
| "Join [x] sep = x"
| "Join (x # y # xs) sep = x @ sep @ Join (y # xs) sep"

fun IndexByte :: "string \<Rightarrow> char \<Rightarrow> nat option" where
  "IndexByte [] c = None"
| "IndexByte (x # xs) c = (if x = c then Some 0 else map_option Suc (IndexByte xs c))"

lemma IndexByte_append: "c \<notin> set xs \<Longrightarrow> IndexByte (xs @ c # ys) c = Some (length xs)"
  by (induction xs) auto

lemma IndexByte_None: "c \<notin> set xs \<Longrightarrow> IndexByte xs c = None"
  by (induction xs) auto

subsection \<open>Decimal numerals\<close>

definition is_digit :: "char \<Rightarrow> bool" where
  "is_digit c \<longleftrightarrow> 48 \<le> (of_char c :: nat) \<and> (of_char c :: nat) \<le> 57"

definition digit_val :: "char \<Rightarrow> int" where
  "digit_val c = of_char c - 48"

definition digit_char :: "int \<Rightarrow> char" where
  "digit_char d = char_of (48 + nat d)"

definition maxUint64 :: int where
  "maxUint64 = 18446744073709551615"

fun parse_digits :: "int \<Rightarrow> string \<Rightarrow> int result" where
  "parse_digits n [] = Inr n"
| "parse_digits n (c # cs) =
     (if \<not> is_digit c then Inl ErrSyntax
      else if maxUint64 div 10 + 1 \<le> n then Inl ErrRange
      else (let n1 = n * 10 + digit_val c
            in if maxUint64 < n1 then Inl ErrRange else parse_digits n1 cs))"

definition ParseUint :: "string \<Rightarrow> int result" where
  "ParseUint s = (if s = [] then Inl ErrSyntax else parse_digits 0 s)"

definition ParseInt :: "string \<Rightarrow> int64 result" where
  "ParseInt s =
     (if s = [] then Inl ErrSyntax
      else
        (let neg = (hd s = CHR ''-'');
             s' = (if hd s = CHR ''+'' \<or> hd s = CHR ''-'' then tl s else s)
         in bind_result (ParseUint s')
              (\<lambda>un. if \<not> neg \<and> 2 ^ 63 \<le> un then Inl ErrRange
                    else if neg \<and> 2 ^ 63 < un then Inl ErrRange
                    else Inr (if neg then word_of_int (- un) else word_of_int un))))"

definition Atoi :: "string \<Rightarrow> int64 result" where
  "Atoi s = ParseInt s"

function dec :: "int \<Rightarrow> string" where
  "dec n = (if n < 10 then [digit_char n] else dec (n div 10) @ [digit_char (n mod 10)])"
  by pat_completeness auto
termination
  by (relation "measure nat") auto

declare dec.simps [simp del]

definition FormatInt :: "int64 \<Rightarrow> string" where
  "FormatInt v =
     (if sint v < 0 then CHR ''-'' # dec (- sint v) else dec (sint v))"

text \<open>The number a list of digits denotes, after the digits already read.\<close>

definition digits_val :: "int \<Rightarrow> string \<Rightarrow> int" where
  "digits_val n s = foldl (\<lambda>a c. a * 10 + digit_val c) n s"

definition digits :: "string \<Rightarrow> bool" where
  "digits s \<longleftrightarrow> list_all is_digit s"

lemma digits_val_simps [simp]:
  "digits_val n [] = n"
  "digits_val n (c # cs) = digits_val (n * 10 + digit_val c) cs"
  "digits_val n (s @ t) = digits_val (digits_val n s) t"
  by (simp_all add: digits_val_def)

lemma digits_simps [simp]:
  "digits []"
  "digits (c # cs) \<longleftrightarrow> is_digit c \<and> digits cs"
  "digits (s @ t) \<longleftrightarrow> digits s \<and> digits t"
  by (simp_all add: digits_def)

lemma of_char_int_nat: "(of_char c :: int) = int (of_char c)"
  by (simp add: of_nat_of_char)

lemma of_char_digit_char: "0 \<le> d \<Longrightarrow> d < 10 \<Longrightarrow> (of_char (digit_char d) :: nat) = 48 + nat d"
  by (simp add: digit_char_def)

lemma digit_char_digit [simp]: "0 \<le> d \<Longrightarrow> d < 10 \<Longrightarrow> is_digit (digit_char d)"
  by (simp add: is_digit_def of_char_digit_char)

lemma digit_val_char [simp]: "0 \<le> d \<Longrightarrow> d < 10 \<Longrightarrow> digit_val (digit_char d) = d"
  by (simp add: digit_val_def of_char_int_nat of_char_digit_char)

lemma digit_val_bounds: "is_digit c \<Longrightarrow> 0 \<le> digit_val c" "is_digit c \<Longrightarrow> digit_val c < 10"
  by (auto simp: is_digit_def digit_val_def of_char_int_nat)

lemma digits_val_ge: "digits s \<Longrightarrow> 0 \<le> n \<Longrightarrow> n \<le> digits_val n s"
proof (induction s arbitrary: n)
  case (Cons c s)
  then have "n * 10 + digit_val c \<le> digits_val (n * 10 + digit_val c) s"
    using digit_val_bounds [of c] by simp
  with Cons.prems digit_val_bounds [of c] show ?case by simp
qed simp

lemma digits_val_acc: "digits_val n s = n * 10 ^ length s + digits_val 0 s"
proof (induction s arbitrary: n)
  case (Cons c s)
  from Cons.IH [of "n * 10 + digit_val c"] Cons.IH [of "digit_val c"] show ?case
    by (simp add: algebra_simps)
qed simp

lemma digits_val_nonneg [simp]: "digits s \<Longrightarrow> 0 \<le> digits_val 0 s"
  using digits_val_ge [of s 0] by simp

lemma digits_val_bound: "digits s \<Longrightarrow> digits_val 0 s < 10 ^ length s"
proof (induction s)
  case (Cons c s)
  then have "digits_val 0 s < 10 ^ length s" "digit_val c \<le> 9"
    using digit_val_bounds [of c] by auto
  then have "digit_val c * 10 ^ length s + digits_val 0 s < 9 * 10 ^ length s + 10 ^ length s"
    by (intro add_le_less_mono mult_right_mono) auto
  then show ?case by (simp add: digits_val_acc [of "digit_val c"])
qed simp

lemma digit_zero [simp]: "digit_val CHR ''0'' = 0" "is_digit CHR ''0''"
  by (simp_all add: digit_val_def is_digit_def)

lemma digits_val_zeros [simp]: "digits_val 0 (replicate k CHR ''0'') = 0"
  by (induction k) auto

lemma digits_zeros [simp]: "digits (replicate k CHR ''0'')"
  by (induction k) auto

lemma digits_val_append_zeros: "digits_val 0 (s @ replicate k CHR ''0'') = digits_val 0 s * 10 ^ k"
  by (simp add: digits_val_acc [of "digits_val 0 s"])

lemma parse_digits_digits:
  "digits s \<Longrightarrow> 0 \<le> n \<Longrightarrow> n \<le> maxUint64 \<Longrightarrow> parse_digits n s =
     (if digits_val n s \<le> maxUint64 then Inr (digits_val n s) else Inl ErrRange)"
proof (induction s arbitrary: n)
  case (Cons c s)
  let ?n1 = "n * 10 + digit_val c"
  have d: "0 \<le> digit_val c" "digit_val c < 10" using Cons.prems digit_val_bounds [of c] by auto
  then have ge: "?n1 \<le> digits_val ?n1 s" using Cons.prems by (intro digits_val_ge) auto
  show ?case
  proof (cases "maxUint64 < ?n1")
    case True
    with ge Cons.prems show ?thesis by simp
  next
    case False
    then have "\<not> maxUint64 div 10 + 1 \<le> n" using d by (simp add: maxUint64_def)
    with False d Cons show ?thesis by auto
  qed
qed simp

lemma parse_digits_not_digits: "\<not> digits s \<Longrightarrow> \<exists>e. parse_digits n s = Inl e"
  by (induction s arbitrary: n) (auto simp: Let_def)

lemma ParseUint_ok_iff:
  "ParseUint s = Inr n \<longleftrightarrow> s \<noteq> [] \<and> digits s \<and> digits_val 0 s = n \<and> n \<le> maxUint64"
proof (cases "digits s")
  case True
  then show ?thesis
    using parse_digits_digits [of s 0] by (auto simp: ParseUint_def maxUint64_def)
next
  case False
  then show ?thesis using parse_digits_not_digits [of s 0] by (auto simp: ParseUint_def)
qed

lemma ParseUint_digits:
  "digits s \<Longrightarrow> s \<noteq> [] \<Longrightarrow> ParseUint s =
     (if digits_val 0 s \<le> maxUint64 then Inr (digits_val 0 s) else Inl ErrRange)"
  using parse_digits_digits [of s 0] by (simp add: ParseUint_def maxUint64_def)

lemma is_digit_not_sign [simp]:
  "is_digit CHR ''-'' = False" "is_digit CHR ''+'' = False" "is_digit CHR ''.'' = False"
  by (simp_all add: is_digit_def)

text \<open>On a non-empty list of digits the parser returns the number they denote, if in range.\<close>

lemma ParseInt_digits:
  assumes "digits s" "s \<noteq> []"
  shows "ParseInt s =
    (if digits_val 0 s < 2 ^ 63 then Inr (word_of_int (digits_val 0 s)) else Inl ErrRange)"
proof -
  have "is_digit (hd s)" using assms by (cases s) auto
  then have "hd s \<noteq> CHR ''-''" "hd s \<noteq> CHR ''+''" by auto
  then show ?thesis
    using assms by (simp add: ParseInt_def ParseUint_digits maxUint64_def)
qed

lemma dec_not_Nil [simp]: "dec n \<noteq> []"
  by (subst dec.simps) simp

lemma digits_dec: "0 \<le> n \<Longrightarrow> digits (dec n)"
proof (induction n rule: dec.induct)
  case (1 n)
  then show ?case by (cases "n < 10") (simp_all add: dec.simps [of n])
qed

lemma digits_val_dec: "0 \<le> n \<Longrightarrow> digits_val 0 (dec n) = n"
proof (induction n rule: dec.induct)
  case (1 n)
  then show ?case by (cases "n < 10") (simp_all add: dec.simps [of n])
qed

lemma length_dec: "0 \<le> n \<Longrightarrow> n < 10 ^ k \<Longrightarrow> 0 < k \<Longrightarrow> length (dec n) \<le> k"
proof (induction n arbitrary: k rule: dec.induct)
  case (1 n)
  show ?case
  proof (cases "n < 10")
    case True
    with 1 show ?thesis by (simp add: dec.simps [of n])
  next
    case False
    with 1 obtain j where k: "k = Suc j" "0 < j" by (cases k; cases "k = 1") auto
    from 1(3) k have "n div 10 < 10 ^ j" by auto
    moreover have "0 \<le> n div 10" using False by simp
    ultimately have "length (dec (n div 10)) \<le> j" using 1(1) [OF False] k by blast
    with k False show ?thesis by (simp add: dec.simps [of n])
  qed
qed

lemma is_digit_visible: "is_digit c \<Longrightarrow> visible c"
  by (simp add: is_digit_def visible_def)

lemma digits_hd: "digits s \<Longrightarrow> s \<noteq> [] \<Longrightarrow> is_digit (hd s)"
  by (cases s) auto

lemma digits_last: "digits s \<Longrightarrow> s \<noteq> [] \<Longrightarrow> is_digit (last s)"
  by (cases s rule: rev_cases) auto

lemma digits_no_dot: "digits s \<Longrightarrow> CHR ''.'' \<notin> set s"
  by (auto simp: digits_def list_all_iff is_digit_def)

lemma ParseInt_dec: "0 \<le> n \<Longrightarrow> n < 2 ^ 63 \<Longrightarrow> ParseInt (dec n) = Inr (word_of_int n)"
  by (simp add: ParseInt_digits digits_dec digits_val_dec)

lemma ParseInt_minus_dec:
  "0 \<le> n \<Longrightarrow> n \<le> 2 ^ 63 \<Longrightarrow> ParseInt (CHR ''-'' # dec n) = Inr (word_of_int (- n))"
  by (simp add: ParseInt_def ParseUint_digits digits_dec digits_val_dec maxUint64_def)

lemma ParseInt_FormatInt [simp]: "ParseInt (FormatInt v) = Inr v"
proof (cases "sint v < 0")
  case True
  then show ?thesis
    using ParseInt_minus_dec [of "- sint v"] sint_bounds [of v] by (simp add: FormatInt_def)
next
  case False
  then show ?thesis
    using ParseInt_dec [of "sint v"] sint_bounds [of v] by (simp add: FormatInt_def)
qed

end
