(* ===== verification/Go_Parse.thy ===== *)
theory Go_Parse
  imports Go_Float Go_Strings
begin

section \<open>Parsing durations and floats\<close>

text \<open>
  \<open>time.ParseDuration\<close> and \<open>strconv.ParseFloat\<close>, which the configuration uses, with the loops of
  the standard library. The \<open>uint64\<close> values of \<open>ParseDuration\<close> are integers, with the wrap-around
  written where a sum can reach \<open>2 ^ 64\<close>. \<open>ParseFloat\<close> returns the float nearest to the number the
  text denotes, as it documents, so its digit loop keeps the exact mantissa.
\<close>

subsection \<open>ParseDuration\<close>

fun leadingInt :: "int \<Rightarrow> string \<Rightarrow> (int \<times> string) option" where
  "leadingInt x [] = Some (x, [])"
| "leadingInt x (c # s) =
     (if \<not> is_digit c then Some (x, c # s)
      else if 2 ^ 63 div 10 < x then None
      else (let y = x * 10 + digit_val c in if 2 ^ 63 < y then None else leadingInt y s))"

fun leadingFraction :: "int \<Rightarrow> float64 \<Rightarrow> bool \<Rightarrow> string \<Rightarrow> int \<times> float64 \<times> string" where
  "leadingFraction x scale overflow [] = (x, scale, [])"
| "leadingFraction x scale overflow (c # s) =
     (if \<not> is_digit c then (x, scale, c # s)
      else if overflow \<or> (2 ^ 63 - 1) div 10 < x then leadingFraction x scale True s
      else (let y = x * 10 + digit_val c in
            if 2 ^ 63 < y then leadingFraction x scale True s
            else leadingFraction y (f_mul scale (Fin 10)) False s))"

definition unitMap :: "(string \<times> int) list" where
  "unitMap =
     [(''ns'', 1), (''us'', 1000), ([CHR 0xC2, CHR 0xB5, CHR ''s''], 1000), ([CHR 0xCE, CHR 0xBC, CHR ''s''], 1000),
      (''ms'', 1000000), (''s'', 1000000000), (''m'', 60000000000), (''h'', 3600000000000)]"

definition unit_char :: "char \<Rightarrow> bool" where
  "unit_char c \<longleftrightarrow> \<not> (c = CHR ''.'' \<or> is_digit c)"

text \<open>The quotient \<open>float64(unit) / scale\<close>; the scale is a product of tens, finite and positive.\<close>

fun f_quot :: "int \<Rightarrow> float64 \<Rightarrow> float64" where
  "f_quot unit (Fin scale) = f_div_fin (fl (of_int unit)) scale"
| "f_quot unit _ = NaN"

definition fraction_nanos :: "int \<Rightarrow> int \<Rightarrow> float64 \<Rightarrow> int" where
  "fraction_nanos f unit scale = sint (f_to_int64 (f_mul (fl (of_int f)) (f_quot unit scale)))"

text \<open>One number with its unit: the nanoseconds and the rest of the text.\<close>

definition duration_item :: "string \<Rightarrow> (int \<times> string) result" where
  "duration_item s =
     (if s = [] \<or> \<not> (hd s = CHR ''.'' \<or> is_digit (hd s)) then Inl ErrSyntax
      else
        (case leadingInt 0 s of
           None \<Rightarrow> Inl ErrSyntax
         | Some (v, s1) \<Rightarrow>
             (let pre = (length s \<noteq> length s1);
                  (f, scale, post, s2) =
                    (if s1 \<noteq> [] \<and> hd s1 = CHR ''.''
                     then (let (f, scale, s2) = leadingFraction 0 (Fin 1) False (tl s1)
                           in (f, scale, length (tl s1) \<noteq> length s2, s2))
                     else (0, Fin 1, False, s1))
              in if \<not> pre \<and> \<not> post then Inl ErrSyntax
                 else
                   (let u = takeWhile unit_char s2; s3 = dropWhile unit_char s2 in
                    if u = [] then Inl ErrSyntax
                    else (case map_of unitMap u of
                            None \<Rightarrow> Inl ErrSyntax
                          | Some unit \<Rightarrow>
                              if 2 ^ 63 div unit < v then Inl ErrSyntax
                              else if 0 < f
                              then (let v = v * unit + fraction_nanos f unit scale
                                    in if 2 ^ 63 < v then Inl ErrSyntax else Inr (v, s3))
                              else Inr (v * unit, s3))))))"

lemma leadingInt_length: "leadingInt x s = Some (v, r) \<Longrightarrow> length r \<le> length s"
  by (induction x s rule: leadingInt.induct) (auto simp: Let_def split: if_splits)

lemma leadingFraction_length: "leadingFraction x scale ov s = (f, sc, r) \<Longrightarrow> length r \<le> length s"
  by (induction x scale ov s rule: leadingFraction.induct) (auto simp: Let_def split: if_splits)

lemma dropWhile_shorter: "takeWhile P s \<noteq> [] \<Longrightarrow> length (dropWhile P s) < length s"
  by (cases s) (auto simp: le_imp_less_Suc length_dropWhile_le split: if_splits)

lemma duration_item_shorter: "duration_item s = Inr (v, r) \<Longrightarrow> length r < length s"
proof -
  assume a: "duration_item s = Inr (v, r)"
  then obtain n s1 where l: "leadingInt 0 s = Some (n, s1)"
    by (auto simp: duration_item_def split: if_splits option.splits)
  let ?s2 = "if s1 \<noteq> [] \<and> hd s1 = CHR ''.'' then snd (snd (leadingFraction 0 (Fin 1) False (tl s1))) else s1"
  have "takeWhile unit_char ?s2 \<noteq> []" "r = dropWhile unit_char ?s2"
    using a l by (auto simp: duration_item_def Let_def case_prod_unfold split: if_splits option.splits)
  moreover have "length ?s2 \<le> length s1"
    using leadingFraction_length [of 0 "Fin 1" False "tl s1"] by (auto simp: le_diff_conv) (metis diff_le_self le_trans length_tl prod.collapse)
  ultimately show ?thesis using dropWhile_shorter [of unit_char ?s2] leadingInt_length [OF l] by simp
qed

function duration_loop :: "int \<Rightarrow> string \<Rightarrow> int result" where
  "duration_loop d s =
     (if s = [] then Inr d
      else
        (case duration_item s of
           Inl e \<Rightarrow> Inl e
         | Inr (v, s') \<Rightarrow>
             (let d = (d + v) mod 2 ^ 64 in if 2 ^ 63 < d then Inl ErrSyntax else duration_loop d s')))"
  by pat_completeness auto
termination
  by (relation "measure (length \<circ> snd)") (auto dest: duration_item_shorter)

declare duration_loop.simps [simp del]

definition ParseDuration :: "string \<Rightarrow> Duration result" where
  "ParseDuration s =
     (let neg = (s \<noteq> [] \<and> hd s = CHR ''-'');
          s = (if s \<noteq> [] \<and> (hd s = CHR ''-'' \<or> hd s = CHR ''+'') then tl s else s)
      in if s = ''0'' then Inr 0
         else if s = [] then Inl ErrSyntax
         else bind_result (duration_loop 0 s) (\<lambda>d.
                if neg then Inr (word_of_int (- d))
                else if 2 ^ 63 - 1 < d then Inl ErrSyntax
                else Inr (word_of_int d)))"

subsection \<open>ParseFloat\<close>

definition lower :: "char \<Rightarrow> char" where
  "lower c = (if 65 \<le> (of_char c :: nat) \<and> (of_char c :: nat) \<le> 90 then char_of ((of_char c :: nat) + 32) else c)"

definition special :: "string \<Rightarrow> float64 option" where
  "special s =
     map_of [(''nan'', NaN), (''inf'', PInf), (''+inf'', PInf), (''-inf'', NInf), (''infinity'', PInf),
        (''+infinity'', PInf), (''-infinity'', NInf)] (map lower s)"

definition hex_digit :: "char \<Rightarrow> bool" where
  "hex_digit c \<longleftrightarrow> 97 \<le> (of_char (lower c) :: nat) \<and> (of_char (lower c) :: nat) \<le> 102"

text \<open>The digit loop: mantissa, digits after the point, whether a digit was seen, the rest.\<close>

fun mantissa :: "int \<Rightarrow> int \<Rightarrow> int \<Rightarrow> bool \<Rightarrow> bool \<Rightarrow> string \<Rightarrow> int \<times> int \<times> bool \<times> string" where
  "mantissa base m nfrac sawdot sawdigits [] = (m, nfrac, sawdigits, [])"
| "mantissa base m nfrac sawdot sawdigits (c # s) =
     (if c = CHR ''_'' then mantissa base m nfrac sawdot sawdigits s
      else if c = CHR ''.'' then
        (if sawdot then (m, nfrac, sawdigits, c # s) else mantissa base m nfrac True sawdigits s)
      else if is_digit c then
        mantissa base (m * base + digit_val c) (if sawdot then nfrac + 1 else nfrac) sawdot True s
      else if base = 16 \<and> hex_digit c then
        mantissa base (m * base + of_char (lower c) - 87) (if sawdot then nfrac + 1 else nfrac) sawdot True s
      else (m, nfrac, sawdigits, c # s))"

fun exponent :: "int \<Rightarrow> string \<Rightarrow> int \<times> string" where
  "exponent e [] = (e, [])"
| "exponent e (c # s) =
     (if c = CHR ''_'' then exponent e s
      else if is_digit c then exponent (if e < 10000 then e * 10 + digit_val c else e) s
      else (e, c # s))"

text \<open>Underscores stand between digits, or between a base prefix and a digit; \<open>saw\<close> is the kind of
  the character before.\<close>

datatype saw = SawStart | SawDigit | SawUnderscore | SawOther

fun underscore_loop :: "bool \<Rightarrow> saw \<Rightarrow> string \<Rightarrow> bool" where
  "underscore_loop hex saw [] = (saw \<noteq> SawUnderscore)"
| "underscore_loop hex saw (c # s) =
     (if is_digit c \<or> hex \<and> hex_digit c then underscore_loop hex SawDigit s
      else if c = CHR ''_'' then (saw = SawDigit \<and> underscore_loop hex SawUnderscore s)
      else saw \<noteq> SawUnderscore \<and> underscore_loop hex SawOther s)"

definition underscoreOK :: "string \<Rightarrow> bool" where
  "underscoreOK s =
     (let s = (if s \<noteq> [] \<and> (hd s = CHR ''-'' \<or> hd s = CHR ''+'') then tl s else s) in
      if 2 \<le> length s \<and> hd s = CHR ''0'' \<and> lower (s ! 1) \<in> {CHR ''b'', CHR ''o'', CHR ''x''}
      then underscore_loop (lower (s ! 1) = CHR ''x'') SawDigit (drop 2 s)
      else underscore_loop False SawStart s)"

definition scaled :: "rat \<Rightarrow> int \<Rightarrow> int \<Rightarrow> rat" where
  "scaled x b e = (if 0 \<le> e then x * of_int (b ^ nat e) else x / of_int (b ^ nat (- e)))"

definition readFloat :: "string \<Rightarrow> rat option" where
  "readFloat s =
     (let neg = (s \<noteq> [] \<and> hd s = CHR ''-'');
          r = (if s \<noteq> [] \<and> (hd s = CHR ''-'' \<or> hd s = CHR ''+'') then tl s else s);
          hex = (2 < length r \<and> hd r = CHR ''0'' \<and> lower (r ! 1) = CHR ''x'');
          (base, expChar, radix) = (if hex then (16, CHR ''p'', 2) else (10, CHR ''e'', 10));
          (m, nfrac, sawdigits, r) = mantissa base 0 0 False False (if hex then drop 2 r else r);
          x = scaled (of_int m) base (- nfrac)
      in if \<not> sawdigits then None
         else
           (case (if r \<noteq> [] \<and> lower (hd r) = expChar
                  then (let r = tl r;
                            eneg = (r \<noteq> [] \<and> hd r = CHR ''-'');
                            r = (if r \<noteq> [] \<and> (hd r = CHR ''+'' \<or> hd r = CHR ''-'') then tl r else r)
                        in if r = [] \<or> \<not> is_digit (hd r) then None
                           else (let (e, r) = exponent 0 r in Some (if eneg then - e else e, r)))
                  else if hex then None else Some (0, r)) of
              None \<Rightarrow> None
            | Some (e, r) \<Rightarrow>
                if r \<noteq> [] \<or> (CHR ''_'' \<in> set s \<and> \<not> underscoreOK s) then None
                else Some ((if neg then - 1 else 1) * scaled x radix e)))"

definition ParseFloat :: "string \<Rightarrow> float64 result" where
  "ParseFloat s =
     (case special s of
        Some f \<Rightarrow> Inr f
      | None \<Rightarrow>
          (case readFloat s of
             None \<Rightarrow> Inl ErrSyntax
           | Some x \<Rightarrow> (case fl x of Fin y \<Rightarrow> Inr (Fin y) | _ \<Rightarrow> Inl ErrRange)))"

subsection \<open>Duration literals\<close>

lemma leadingInt_digits:
  "digits s \<Longrightarrow> 0 \<le> x \<Longrightarrow> digits_val x s \<le> 2 ^ 63 \<Longrightarrow> r = [] \<or> \<not> is_digit (hd r) \<Longrightarrow>
     leadingInt x (s @ r) = Some (digits_val x s, r)"
proof (induction s arbitrary: x)
  case Nil
  then show ?case by (cases r) auto
next
  case (Cons c s)
  let ?y = "x * 10 + digit_val c"
  have c: "is_digit c" "0 \<le> digit_val c" using Cons.prems(1) digit_val_bounds [of c] by auto
  have y: "0 \<le> ?y" "?y \<le> 2 ^ 63"
    using c Cons.prems digits_val_ge [of s ?y] by auto
  then have "x \<le> 2 ^ 63 div 10" using c by simp
  then show ?case using c y Cons by simp
qed

lemma unitMap_names: "list_all (\<lambda>(u, k). u \<noteq> [] \<and> list_all unit_char u \<and> 0 < k) unitMap"
  by code_simp

lemma unit_not_digit: "unit_char c \<Longrightarrow> \<not> is_digit c \<and> c \<noteq> CHR ''.''"
  by (simp add: unit_char_def)

text \<open>A whole number followed by a unit is read as that many units, up to the largest duration.\<close>

lemma duration_item_literal:
  assumes "digits s" "s \<noteq> []" "map_of unitMap u = Some k" "digits_val 0 s * k < 2 ^ 63"
  shows "duration_item (s @ u) = Inr (digits_val 0 s * k, [])"
proof -
  have u: "u \<noteq> []" "list_all unit_char u" "0 < k"
    using unitMap_names map_of_SomeD [OF assms(3)] unfolding list_all_iff [of _ unitMap] by auto
  then have "\<not> is_digit (hd u)" "hd u \<noteq> CHR ''.''"
    using unit_not_digit [of "hd u"] by (auto simp: list_all_iff)
  moreover have "digits_val 0 s \<le> 2 ^ 63 div k"
    using assms(4) u(3) zdiv_mono1 [of "digits_val 0 s * k" "2 ^ 63" k] by simp
  moreover have "2 ^ 63 div k \<le> (2 ^ 63 :: int)" using u(3) int_div_less_self [of "2 ^ 63" k] by (cases "k = 1") auto
  ultimately have l: "leadingInt 0 (s @ u) = Some (digits_val 0 s, u)"
    using leadingInt_digits [OF assms(1), of 0 u] by simp
  have w: "takeWhile unit_char u = u" "dropWhile unit_char u = []" using u(2) by (simp_all add: list_all_iff)
  from l assms(2,3) u(1,3) \<open>hd u \<noteq> CHR ''.''\<close> digits_hd [OF assms(1,2)] \<open>digits_val 0 s \<le> 2 ^ 63 div k\<close>
  show ?thesis by (simp add: duration_item_def Let_def w)
qed

lemma ParseDuration_literal:
  assumes "digits s" "s \<noteq> []" "map_of unitMap u = Some k" "digits_val 0 s * k < 2 ^ 63"
  shows "ParseDuration (s @ u) = Inr (word_of_int (digits_val 0 s * k))"
proof -
  have u: "u \<noteq> []" "list_all unit_char u" "0 < k"
    using unitMap_names map_of_SomeD [OF assms(3)] unfolding list_all_iff [of _ unitMap] by auto
  have "is_digit (hd s)" by (rule digits_hd [OF assms(1,2)])
  then have "hd s \<noteq> CHR ''-''" "hd s \<noteq> CHR ''+''" by (auto simp: is_digit_def)
  moreover have "s @ u \<noteq> ''0''"
  proof
    assume "s @ u = ''0''"
    then have "last (s @ u) = CHR ''0''" by simp
    then have "last u = CHR ''0''" using u(1) by simp
    moreover have "unit_char (last u)" using u(2) last_in_set [OF u(1)] unfolding list_all_iff by blast
    ultimately show False by (simp add: unit_char_def is_digit_def)
  qed
  moreover have "0 \<le> digits_val 0 s * k" using assms(1) u(3) by simp
  then have "duration_loop 0 (s @ u) = Inr (digits_val 0 s * k)"
    using duration_item_literal [OF assms] assms(2,4) by (subst duration_loop.simps) (simp add: duration_loop.simps [of _ "[]"] Let_def)
  ultimately show ?thesis using assms(2,4) by (simp add: ParseDuration_def Let_def)
qed

end
