(* ===== verification/Money.thy ===== *)
theory Money
  imports Go_Strings
begin

section \<open>Fixed-point money and quantities (internal/domain/money.go)\<close>

text \<open>
  \<open>Money\<close> counts 1/10000 dollars and \<open>Quantity\<close> 1/1000 shares, both in an \<open>int64\<close>. The theory
  models the checked additions, the rounding multiply-divide over \<open>big.Int\<close> (an \<open>int\<close>), the
  decimal parser and printer, and their methods. The reference definitions are
  \<open>round_half_away\<close> (rounding to nearest, ties away from zero) and \<open>decimal_value\<close> (the number
  a decimal literal denotes).
\<close>

type_synonym Money = int64
type_synonym Quantity = int64

definition moneyScale :: int64 where
  "moneyScale = 10000"

definition quantityScale :: int64 where
  "quantityScale = 1000"

subsection \<open>Overflow-checked integer arithmetic\<close>

definition addI64 :: "int64 \<Rightarrow> int64 \<Rightarrow> int64 option" where
  "addI64 a b =
     (let s = a + b
      in if (0 <s a \<and> 0 <s b \<and> s <s 0) \<or> (a <s 0 \<and> b <s 0 \<and> 0 <s s) then None else Some s)"

definition subI64 :: "int64 \<Rightarrow> int64 \<Rightarrow> int64 option" where
  "subI64 a b =
     (let d = a - b
      in if (0 \<le>s a \<and> b <s 0 \<and> d <s 0) \<or> (a <s 0 \<and> 0 <s b \<and> 0 \<le>s d) then None else Some d)"

definition mulI64 :: "int64 \<Rightarrow> int64 \<Rightarrow> int64 option" where
  "mulI64 a b =
     (if a = 0 \<or> b = 0 then Some 0
      else (let p = a * b in if go_div p b \<noteq> a then None else Some p))"

definition mulDivRound :: "int64 \<Rightarrow> int64 \<Rightarrow> int64 \<Rightarrow> int64 option" where
  "mulDivRound a b d =
     (if d = 0 then None
      else
        (let x = sint a * sint b;
             dd = sint d;
             q = x sdiv dd;
             r = x smod dd;
             twoAbsR = 2 * \<bar>r\<bar>;
             q' = (if \<bar>dd\<bar> \<le> twoAbsR then (if sgn x * sgn dd < 0 then q - 1 else q + 1) else q)
         in if in_i64 q' then Some (word_of_int q') else None))"

subsection \<open>Parsing and printing\<close>

function scaleDigits_loop :: "int64 \<Rightarrow> nat \<Rightarrow> nat" where
  "scaleDigits_loop t n = (if 1 <s t then scaleDigits_loop (go_div t 10) (Suc n) else n)"
  by pat_completeness auto
termination
proof (relation "measure (\<lambda>(t, n). nat (sint t))")
  fix t :: int64 and n :: nat
  assume "1 <s t"
  then have "1 < sint t" by (simp add: go_arith)
  then show "((go_div t 10, Suc n), (t, n)) \<in> measure (\<lambda>(t, n). nat (sint t))"
    by (simp add: sint_go_div_nonneg)
qed simp

declare scaleDigits_loop.simps [simp del]

definition scaleDigits :: "int64 \<Rightarrow> nat" where
  "scaleDigits scale = scaleDigits_loop scale 0"

function pad_right :: "nat \<Rightarrow> string \<Rightarrow> string" where
  "pad_right n s = (if length s < n then pad_right n (s @ ''0'') else s)"
  by pat_completeness auto
termination
  by (relation "measure (\<lambda>(n, s). n - length s)") auto

declare pad_right.simps [simp del]

function pad_left :: "nat \<Rightarrow> string \<Rightarrow> string" where
  "pad_left n s = (if length s < n then pad_left n (''0'' @ s) else s)"
  by pat_completeness auto
termination
  by (relation "measure (\<lambda>(n, s). n - length s)") auto

declare pad_left.simps [simp del]

definition parseFixed :: "string \<Rightarrow> int64 \<Rightarrow> int64 result" where
  "parseFixed s0 scale =
     (let s = TrimSpace s0
      in if s = [] then Inl (ErrText ''empty literal'')
         else
           (let neg = (hd s = CHR ''-'');
                s = (if hd s = CHR ''-'' \<or> hd s = CHR ''+'' then tl s else s);
                (intPart, fracPart) =
                  (case IndexByte s CHR ''.'' of
                     Some i \<Rightarrow> (take i s, drop (i + 1) s)
                   | None \<Rightarrow> (s, []))
            in if intPart = [] \<and> fracPart = [] then Inl (ErrText ''no digits'')
               else
                 (let digits = scaleDigits scale
                  in if digits < length fracPart then Inl (ErrText ''too many fractional digits'')
                     else
                       (let fracPart = pad_right digits fracPart
                        in bind_result (if intPart \<noteq> [] then ParseInt intPart else Inr 0)
                             (\<lambda>whole. bind_result (if fracPart \<noteq> [] then ParseInt fracPart else Inr 0)
                                (\<lambda>frac. case mulI64 whole scale of
                                    None \<Rightarrow> Inl ErrOverflow
                                  | Some prd \<Rightarrow>
                                      (case addI64 prd frac of
                                         None \<Rightarrow> Inl ErrOverflow
                                       | Some sm \<Rightarrow> Inr (if neg then - sm else sm))))))))"

definition formatFixed :: "int64 \<Rightarrow> int64 \<Rightarrow> string" where
  "formatFixed v scale =
     (let neg = (v <s 0);
          v = (if neg then - v else v);
          whole = go_div v scale;
          frac = go_mod v scale;
          out = FormatInt whole;
          digits = scaleDigits scale;
          out = (if 0 < digits then out @ ''.'' @ pad_left digits (FormatInt frac) else out)
      in if neg then ''-'' @ out else out)"

subsection \<open>Methods of Money and Quantity\<close>

definition ParseMoney :: "string \<Rightarrow> Money result" where
  "ParseMoney s = (case parseFixed s moneyScale of Inl _ \<Rightarrow> Inl ErrParseMoney | Inr v \<Rightarrow> Inr v)"

definition ParseQuantity :: "string \<Rightarrow> Quantity result" where
  "ParseQuantity s =
     (case parseFixed s quantityScale of Inl _ \<Rightarrow> Inl ErrParseQuantity | Inr v \<Rightarrow> Inr v)"

definition Money_String :: "Money \<Rightarrow> string" where
  "Money_String m = formatFixed m moneyScale"

definition Quantity_String :: "Quantity \<Rightarrow> string" where
  "Quantity_String q = formatFixed q quantityScale"

definition Money_Add :: "Money \<Rightarrow> Money \<Rightarrow> Money result" where
  "Money_Add m x = (case addI64 m x of None \<Rightarrow> Inl ErrOverflow | Some s \<Rightarrow> Inr s)"

definition Money_Sub :: "Money \<Rightarrow> Money \<Rightarrow> Money result" where
  "Money_Sub m x = (case subI64 m x of None \<Rightarrow> Inl ErrOverflow | Some s \<Rightarrow> Inr s)"

definition Money_IsNegative :: "Money \<Rightarrow> bool" where
  "Money_IsNegative m \<longleftrightarrow> m <s 0"

definition Money_IsZero :: "Money \<Rightarrow> bool" where
  "Money_IsZero m \<longleftrightarrow> m = 0"

definition MulQuantity :: "Money \<Rightarrow> Quantity \<Rightarrow> Money result" where
  "MulQuantity m q =
     (case mulDivRound m q quantityScale of None \<Rightarrow> Inl ErrOverflow | Some v \<Rightarrow> Inr v)"

definition DivByQuantity :: "Money \<Rightarrow> Quantity \<Rightarrow> Money result" where
  "DivByQuantity m q =
     (if q = 0 then Inl ErrOverflow
      else (case mulDivRound m quantityScale q of None \<Rightarrow> Inl ErrOverflow | Some v \<Rightarrow> Inr v))"

definition Quantity_Add :: "Quantity \<Rightarrow> Quantity \<Rightarrow> Quantity result" where
  "Quantity_Add q x = (case addI64 q x of None \<Rightarrow> Inl ErrOverflow | Some s \<Rightarrow> Inr s)"

definition Quantity_Sub :: "Quantity \<Rightarrow> Quantity \<Rightarrow> Quantity result" where
  "Quantity_Sub q x = (case subI64 q x of None \<Rightarrow> Inl ErrOverflow | Some s \<Rightarrow> Inr s)"

definition Quantity_IsPositive :: "Quantity \<Rightarrow> bool" where
  "Quantity_IsPositive q \<longleftrightarrow> 0 <s q"

definition Quantity_IsZero :: "Quantity \<Rightarrow> bool" where
  "Quantity_IsZero q \<longleftrightarrow> q = 0"

subsection \<open>Correctness of the checked arithmetic\<close>

lemma addI64_eq:
  "addI64 a b =
     (if in_i64 (sint a + sint b) then Some (a + b)
      else if a = MinInt64 \<and> b = MinInt64 then Some 0 else None)"
proof -
  have bd: "- 9223372036854775808 \<le> sint a" "sint a \<le> 9223372036854775807"
    "- 9223372036854775808 \<le> sint b" "sint b \<le> 9223372036854775807"
    using sint_bounds by auto
  consider "in_i64 (sint a + sint b)" | "2 ^ 63 \<le> sint a + sint b"
    | "sint a + sint b < - (2 ^ 63)" by (force simp: in_i64_def)
  then show ?thesis
  proof cases
    case 1
    then show ?thesis by (auto simp: addI64_def Let_def go_arith)
  next
    case 2
    then have "sint (a + b) = sint a + sint b - 2 ^ 64"
      unfolding sint_add_word by (rule wrap_high) (use bd in auto)
    with 2 bd show ?thesis
      by (auto simp: addI64_def Let_def go_arith in_i64_def word_eq_sint)
  next
    case 3
    then have "sint (a + b) = sint a + sint b + 2 ^ 64"
      unfolding sint_add_word by (rule wrap_low) (use bd in auto)
    with 3 bd show ?thesis
      by (auto simp: addI64_def Let_def go_arith in_i64_def word_eq_sint)
  qed
qed

lemma subI64_eq: "subI64 a b = (if in_i64 (sint a - sint b) then Some (a - b) else None)"
proof -
  have bd: "- 9223372036854775808 \<le> sint a" "sint a \<le> 9223372036854775807"
    "- 9223372036854775808 \<le> sint b" "sint b \<le> 9223372036854775807"
    using sint_bounds by auto
  consider "in_i64 (sint a - sint b)" | "2 ^ 63 \<le> sint a - sint b"
    | "sint a - sint b < - (2 ^ 63)" by (force simp: in_i64_def)
  then show ?thesis
  proof cases
    case 1
    then show ?thesis by (auto simp: subI64_def Let_def go_arith)
  next
    case 2
    then have "sint (a - b) = sint a - sint b - 2 ^ 64"
      unfolding sint_diff_word by (rule wrap_high) (use bd in auto)
    with 2 bd show ?thesis
      by (auto simp: subI64_def Let_def go_arith in_i64_def)
  next
    case 3
    then have "sint (a - b) = sint a - sint b + 2 ^ 64"
      unfolding sint_diff_word by (rule wrap_low) (use bd in auto)
    with 3 bd show ?thesis
      by (auto simp: subI64_def Let_def go_arith in_i64_def)
  qed
qed

lemma sdiv_mult_exact: "b \<noteq> 0 \<Longrightarrow> (a * b) sdiv b = (a :: int)"
proof -
  assume "b \<noteq> 0"
  then have "sgn b * sgn b = 1" by (auto simp: sgn_if)
  then have "sgn (a * b) * sgn b = sgn a" by (simp add: sgn_mult mult.assoc)
  with \<open>b \<noteq> 0\<close> show ?thesis by (simp add: signed_divide_int_def abs_mult sgn_mult_abs)
qed

lemma abs_smod_less: "b \<noteq> 0 \<Longrightarrow> \<bar>(a :: int) smod b\<bar> < \<bar>b\<bar>"
  by (simp add: signed_modulo_int_def abs_mult abs_sgn_eq)

lemma sdiv_abs_le: "\<bar>(a :: int) sdiv b\<bar> \<le> \<bar>a\<bar>"
proof -
  have "\<bar>a\<bar> div \<bar>b\<bar> \<le> \<bar>a\<bar>"
    using zdiv_mono2 [of "\<bar>a\<bar>" 1 "\<bar>b\<bar>"] by (cases "b = 0") auto
  moreover have "0 \<le> \<bar>a\<bar> div \<bar>b\<bar>" by (cases "b = 0") (auto simp: pos_imp_zdiv_nonneg_iff)
  ultimately show ?thesis by (auto simp: signed_divide_int_def abs_mult sgn_if)
qed

lemma mulI64_overflow:
  assumes "\<not> in_i64 (sint a * sint b)" "go_div (a * b) b = a" "b \<noteq> 0"
  shows "a = MinInt64 \<and> b = - 1"
proof -
  let ?p = "sint (a * b)"
  have b: "sint b \<noteq> 0" using assms(3) by (simp add: word_eq_sint)
  define k where "k = (sint a * sint b + 2 ^ 63) div 2 ^ 64"
  have p: "?p = sint a * sint b - k * 2 ^ 64"
    unfolding sint_mult_word k_def by (simp add: minus_div_mult_eq_mod [symmetric])
  have k: "k \<noteq> 0" using assms(1) p in_i64_sint [of "a * b"] by auto
  have big: "2 ^ 64 \<le> \<bar>?p - sint a * sint b\<bar>" using p k by (simp add: abs_mult)
  have "\<not> in_i64 (?p sdiv sint b)"
  proof
    assume "in_i64 (?p sdiv sint b)"
    then have "?p sdiv sint b = sint a" using assms(2) by (metis go_div_def sint_word_of_int_id)
    then have "?p - sint a * sint b = ?p smod sint b"
      using minus_sdiv_mult_eq_smod [of ?p "sint b"] by simp
    then have "2 ^ 64 \<le> \<bar>?p smod sint b\<bar>" using big by simp
    with abs_smod_less [OF b, of ?p] sint_bounds [of b] show False by auto
  qed
  moreover have "\<bar>?p sdiv sint b\<bar> \<le> \<bar>?p\<bar>" by (rule sdiv_abs_le)
  ultimately have pq: "?p = - (2 ^ 63)" "?p sdiv sint b = 2 ^ 63"
    using sint_bounds [of "a * b"] by (auto simp: in_i64_def)
  have "a * b = MinInt64" using pq(1) by (simp add: word_eq_sint)
  moreover have "a = MinInt64"
    using assms(2) pq(2) by (simp add: go_div_def MinInt64_def)
  moreover have "sint b = - 1"
  proof -
    have "\<bar>?p sdiv sint b\<bar> = \<bar>?p\<bar> div \<bar>sint b\<bar>"
      using pq(1) b by (simp add: signed_divide_int_def abs_mult abs_sgn_eq pos_imp_zdiv_nonneg_iff)
    moreover have "\<bar>?p\<bar> div \<bar>sint b\<bar> * \<bar>sint b\<bar> \<le> \<bar>?p\<bar>" using b by (simp add: minus_mod_eq_div_mult [symmetric])
    ultimately have "\<bar>sint b\<bar> \<le> 1" using pq by simp
    then have "sint b = 1 \<or> sint b = - 1" using b by auto
    with pq show ?thesis by (auto simp: signed_divide_int_def)
  qed
  ultimately show ?thesis by (simp add: word_eq_sint)
qed

lemma mulI64_eq:
  "mulI64 a b =
     (if in_i64 (sint a * sint b) then Some (a * b)
      else if a = MinInt64 \<and> b = - 1 then Some MinInt64 else None)"
proof (cases "in_i64 (sint a * sint b)")
  case True
  then show ?thesis
    by (auto simp: mulI64_def go_div_def sdiv_mult_exact word_eq_sint)
next
  case False
  then have z: "a \<noteq> 0" "b \<noteq> 0" by (auto simp: in_i64_def)
  have "go_div (a * b) b = a \<longleftrightarrow> a = MinInt64 \<and> b = - 1"
    using mulI64_overflow [OF False _ z(2)] by (auto simp: go_div_def MinInt64_def)
  with False z show ?thesis by (auto simp: mulI64_def MinInt64_def)
qed

subsection \<open>Rounding\<close>

text \<open>Reference: the integer nearest to \<open>x / d\<close>, halves away from zero.\<close>

definition round_half_away :: "int \<Rightarrow> int \<Rightarrow> int" where
  "round_half_away x d = sgn x * sgn d * ((2 * \<bar>x\<bar> + \<bar>d\<bar>) div (2 * \<bar>d\<bar>))"

lemma round_div_cases:
  assumes "0 < (d :: int)"
  shows "(2 * x + d) div (2 * d) = (if d \<le> 2 * (x mod d) then x div d + 1 else x div d)"
proof -
  define q r where "q = x div d" and "r = x mod d"
  have x: "x = d * q + r" by (simp add: q_def r_def)
  have m: "0 \<le> r" "r < d" using assms by (simp_all add: r_def)
  show ?thesis unfolding q_def [symmetric] r_def [symmetric]
  proof (cases "d \<le> 2 * r")
    case True
    have "2 * x + d = (2 * d) * (q + 1) + (2 * r - d)" by (simp add: x algebra_simps)
    then have "(2 * x + d) div (2 * d) = q + 1"
      by (rule int_div_pos_eq) (use True m in auto)
    with True show "(2 * x + d) div (2 * d) = (if d \<le> 2 * r then q + 1 else q)" by simp
  next
    case False
    have "2 * x + d = (2 * d) * q + (2 * r + d)" by (simp add: x algebra_simps)
    then have "(2 * x + d) div (2 * d) = q"
      by (rule int_div_pos_eq) (use False m in auto)
    with False show "(2 * x + d) div (2 * d) = (if d \<le> 2 * r then q + 1 else q)" by simp
  qed
qed

lemma round_quotient_eq:
  assumes "d \<noteq> 0"
  shows "(if \<bar>d\<bar> \<le> 2 * \<bar>x smod d\<bar>
          then (if sgn x * sgn d < 0 then x sdiv d - 1 else x sdiv d + 1)
          else x sdiv d) = round_half_away x d"
proof (cases "x = 0")
  case True
  with assms show ?thesis by (simp add: round_half_away_def signed_modulo_int_def signed_divide_int_def)
next
  case False
  define q where "q = \<bar>x\<bar> div \<bar>d\<bar>"
  have r: "\<bar>x smod d\<bar> = \<bar>x\<bar> mod \<bar>d\<bar>"
    using False assms by (simp add: signed_modulo_int_def abs_mult abs_sgn_eq)
  have n: "(2 * \<bar>x\<bar> + \<bar>d\<bar>) div (2 * \<bar>d\<bar>) =
      (if \<bar>d\<bar> \<le> 2 * \<bar>x smod d\<bar> then q + 1 else q)"
    using round_div_cases [of "\<bar>d\<bar>" "\<bar>x\<bar>"] assms by (simp add: r q_def)
  have s: "sgn x * sgn d = 1 \<or> sgn x * sgn d = - 1" using False assms by (auto simp: sgn_if)
  have "x sdiv d = sgn x * sgn d * q" by (simp add: signed_divide_int_def q_def)
  with s n show ?thesis unfolding round_half_away_def by (auto simp: algebra_simps)
qed

lemma mulDivRound_eq:
  "mulDivRound a b d =
     (if d \<noteq> 0 \<and> in_i64 (round_half_away (sint a * sint b) (sint d))
      then Some (word_of_int (round_half_away (sint a * sint b) (sint d))) else None)"
proof (cases "d = 0")
  case False
  then have d: "sint d \<noteq> 0" by (simp add: word_eq_sint)
  with False show ?thesis unfolding mulDivRound_def Let_def round_quotient_eq [OF d] by simp
qed (simp add: mulDivRound_def)

lemma round_half_away_pos: "0 < d \<Longrightarrow> 0 \<le> x \<Longrightarrow> round_half_away x d = (2 * x + d) div (2 * d)"
  by (cases "x = 0") (auto simp: round_half_away_def)

lemma half_distance: "2 * y + m = 2 * x + d \<Longrightarrow> 0 \<le> m \<Longrightarrow> m < 2 * d \<Longrightarrow> 2 * \<bar>y - x\<bar> \<le> (d :: int)"
  by arith

lemma round_half_away_error:
  assumes "d \<noteq> 0"
  shows "2 * \<bar>round_half_away x d * d - x\<bar> \<le> \<bar>d\<bar>"
proof -
  define n where "n = (2 * \<bar>x\<bar> + \<bar>d\<bar>) div (2 * \<bar>d\<bar>)"
  have D: "0 < \<bar>d\<bar>" using assms by simp
  define m where "m = (2 * \<bar>x\<bar> + \<bar>d\<bar>) mod (2 * \<bar>d\<bar>)"
  have "2 * \<bar>d\<bar> * n + m = 2 * \<bar>x\<bar> + \<bar>d\<bar>" unfolding n_def m_def by simp
  then have "2 * (n * \<bar>d\<bar>) + m = 2 * \<bar>x\<bar> + \<bar>d\<bar>" by (simp add: ac_simps)
  moreover have "0 \<le> m" "m < 2 * \<bar>d\<bar>" using D by (simp_all add: m_def)
  ultimately have e: "2 * \<bar>n * \<bar>d\<bar> - \<bar>x\<bar>\<bar> \<le> \<bar>d\<bar>" by (rule half_distance)
  show ?thesis
  proof (cases "x = 0")
    case True
    then show ?thesis by (simp add: round_half_away_def)
  next
    case False
    have r: "round_half_away x d = sgn x * sgn d * n" by (simp add: round_half_away_def n_def)
    have "round_half_away x d * d - x = sgn x * (n * \<bar>d\<bar> - \<bar>x\<bar>)"
      using assms False by (auto simp: r sgn_if algebra_simps)
    with e False show ?thesis by (simp add: abs_mult abs_sgn_eq)
  qed
qed

subsection \<open>Decimal literals\<close>

lemma pow10_le: "k \<le> 18 \<Longrightarrow> (10 :: int) ^ k \<le> 1000000000000000000"
  using power_increasing [of k 18 "10 :: int"] by simp

lemma in_i64_pow10: "k \<le> 18 \<Longrightarrow> in_i64 (10 ^ k)"
proof -
  assume "k \<le> 18"
  then have "(10 :: int) ^ k \<le> 1000000000000000000" by (rule pow10_le)
  moreover have "0 \<le> (10 :: int) ^ k" by simp
  ultimately show ?thesis unfolding in_i64_iff by linarith
qed

lemma sint_pow10 [simp]: "k \<le> 18 \<Longrightarrow> sint (10 ^ k :: int64) = 10 ^ k"
  using sint_word_of_int_id [OF in_i64_pow10, of k] by simp

lemma scaleDigits_loop_pow10: "k \<le> 18 \<Longrightarrow> scaleDigits_loop (10 ^ k) n = n + k"
proof (induction k arbitrary: n)
  case 0
  then show ?case by (subst scaleDigits_loop.simps) (simp add: go_arith)
next
  case (Suc k)
  have s: "sint (10 ^ Suc k :: int64) = 10 * 10 ^ k"
    using sint_pow10 [OF Suc.prems] by simp
  then have "go_div (10 ^ Suc k) 10 = 10 ^ k"
    using Suc.prems unfolding word_eq_sint by (subst sint_go_div_nonneg) simp_all
  moreover have "1 <s (10 ^ Suc k :: int64)"
    unfolding go_arith s using one_le_power [of "10 :: int" k] by (simp add: less_le_trans [of 1 10])
  ultimately show ?case using Suc by (subst scaleDigits_loop.simps) simp
qed

lemma scaleDigits_pow10 [simp]: "k \<le> 18 \<Longrightarrow> scaleDigits (10 ^ k) = k"
  by (simp add: scaleDigits_def scaleDigits_loop_pow10)

lemma moneyScale_pow10: "moneyScale = 10 ^ 4"
  by (simp add: moneyScale_def)

lemma quantityScale_pow10: "quantityScale = 10 ^ 3"
  by (simp add: quantityScale_def)

lemma pad_right_eq: "pad_right n s = s @ replicate (n - length s) CHR ''0''"
proof (induction n s rule: pad_right.induct)
  case (1 n s)
  show ?case
  proof (cases "length s < n")
    case True
    then obtain j where "n - length s = Suc j" by (metis Suc_diff_Suc)
    with 1 True show ?thesis by (simp add: pad_right.simps [of n s])
  qed (simp add: pad_right.simps [of n s])
qed

lemma pad_left_eq: "pad_left n s = replicate (n - length s) CHR ''0'' @ s"
proof (induction n s rule: pad_left.induct)
  case (1 n s)
  show ?case
  proof (cases "length s < n")
    case True
    then obtain j where "n - length s = Suc j" by (metis Suc_diff_Suc)
    with 1 True show ?thesis by (simp add: pad_left.simps [of n s] replicate_app_Cons_same)
  qed (simp add: pad_left.simps [of n s])
qed

text \<open>
  The number of minor units that the digits before and after the point denote at \<open>k\<close> decimal
  places.
\<close>

definition decimal_value :: "nat \<Rightarrow> string \<Rightarrow> string \<Rightarrow> int" where
  "decimal_value k i f = digits_val 0 i * 10 ^ k + digits_val 0 f * 10 ^ (k - length f)"

lemma not_MinInt64: "0 \<le> sint a \<Longrightarrow> a \<noteq> MinInt64"
  by (auto simp: word_eq_sint)

lemma mulI64_nonneg:
  assumes "0 \<le> sint a" "0 \<le> sint b"
  shows "mulI64 a b = (if sint a * sint b < 2 ^ 63 then Some (a * b) else None)"
proof -
  have "0 \<le> sint a * sint b" using assms by simp
  then have "in_i64 (sint a * sint b) \<longleftrightarrow> sint a * sint b < 2 ^ 63" by (rule in_i64_nonneg)
  then show ?thesis using not_MinInt64 [OF assms(1)] by (simp add: mulI64_eq)
qed

lemma addI64_nonneg:
  assumes "0 \<le> sint a" "0 \<le> sint b"
  shows "addI64 a b = (if sint a + sint b < 2 ^ 63 then Some (a + b) else None)"
proof -
  have "in_i64 (sint a + sint b) \<longleftrightarrow> sint a + sint b < 2 ^ 63" using assms by (intro in_i64_nonneg) simp
  then show ?thesis using not_MinInt64 [OF assms(1)] by (simp add: addI64_eq)
qed

lemma decimal_value_nonneg: "digits i \<Longrightarrow> digits f \<Longrightarrow> 0 \<le> decimal_value k i f"
  by (simp add: decimal_value_def)

lemma padded_fraction:
  assumes "digits f" "length f \<le> k" "k \<le> 18"
  defines "p \<equiv> pad_right k f"
  shows "digits p" "digits_val 0 p = digits_val 0 f * 10 ^ (k - length f)"
    "(if p \<noteq> [] then ParseInt p else Inr 0) = Inr (word_of_int (digits_val 0 p))"
    "0 \<le> digits_val 0 p" "digits_val 0 p < 2 ^ 63"
proof -
  show d: "digits p" using assms(1) by (simp add: p_def pad_right_eq)
  show "digits_val 0 p = digits_val 0 f * 10 ^ (k - length f)"
    by (simp add: p_def pad_right_eq digits_val_append_zeros del: digits_val_simps)
  have "length p = k" using assms(2) by (simp add: p_def pad_right_eq)
  then have "digits_val 0 p < 10 ^ k" using digits_val_bound [OF d] by simp
  with pow10_le [OF assms(3)] have "digits_val 0 p < 1000000000000000000" by linarith
  then show b: "digits_val 0 p < 2 ^ 63" by simp
  show "0 \<le> digits_val 0 p" using d by simp
  show "(if p \<noteq> [] then ParseInt p else Inr 0) = Inr (word_of_int (digits_val 0 p))"
    using b by (auto simp: ParseInt_digits [OF d])
qed

lemma whole_part:
  assumes "digits i"
  shows "(if i \<noteq> [] then ParseInt i else Inr 0) =
    (if digits_val 0 i < 2 ^ 63 then Inr (word_of_int (digits_val 0 i)) else Inl ErrRange)"
  using assms by (auto simp: ParseInt_digits)

text \<open>
  The scaled sum: the two checked operations of the parser compute the denoted number and fail
  exactly if it does not fit.
\<close>

lemma scaled_sum:
  fixes w fr :: int
  assumes "0 \<le> w" "w < 2 ^ 63" "0 \<le> fr" "fr < 2 ^ 63" "k \<le> 18"
  shows "(case mulI64 (word_of_int w) (10 ^ k) of None \<Rightarrow> Inl ErrOverflow
     | Some prd \<Rightarrow> (case addI64 prd (word_of_int fr) of None \<Rightarrow> Inl ErrOverflow
          | Some sm \<Rightarrow> Inr (g sm))) =
     (if w * 10 ^ k + fr < 2 ^ 63 then Inr (g (word_of_int (w * 10 ^ k + fr))) else Inl ErrOverflow)"
proof -
  have sw: "sint (word_of_int w :: int64) = w" "sint (word_of_int fr :: int64) = fr"
    using assms by (simp_all add: in_i64_def)
  have m: "mulI64 (word_of_int w) (10 ^ k) =
      (if w * 10 ^ k < 2 ^ 63 then Some (word_of_int w * 10 ^ k) else None)"
    using assms by (simp add: mulI64_nonneg sw)
  show ?thesis
  proof (cases "w * 10 ^ k < 2 ^ 63")
    case True
    have nn: "0 \<le> w * 10 ^ k" using assms by simp
    then have "in_i64 (sint (word_of_int w :: int64) * sint (10 ^ k :: int64))"
      using True assms by (simp add: sw in_i64_nonneg)
    then have sp: "sint (word_of_int w * 10 ^ k :: int64) = w * 10 ^ k"
      using assms by (simp add: sw)
    have "addI64 (word_of_int w * 10 ^ k) (word_of_int fr) =
        (if w * 10 ^ k + fr < 2 ^ 63 then Some (word_of_int w * 10 ^ k + word_of_int fr) else None)"
      using nn assms by (simp add: addI64_nonneg sp sw)
    with m True show ?thesis by simp
  next
    case False
    with m assms show ?thesis by simp
  qed
qed

definition decimal_literal :: "string \<Rightarrow> string \<Rightarrow> bool \<Rightarrow> string \<Rightarrow> string" where
  "decimal_literal sg i dot f = sg @ i @ (if dot then CHR ''.'' # f else [])"

lemma decimal_literal_trim:
  assumes "sg \<in> {[], ''-'', ''+''}" "digits i" "digits f" "i \<noteq> [] \<or> dot"
  shows "TrimSpace (decimal_literal sg i dot f) = decimal_literal sg i dot f"
proof (rule TrimSpace_visible)
  have v: "visible CHR ''-''" "visible CHR ''+''" "visible CHR ''.''" by (simp_all add: visible_def)
  show "decimal_literal sg i dot f \<noteq> []" using assms by (auto simp: decimal_literal_def)
  show "visible (hd (decimal_literal sg i dot f))"
    using assms v digits_hd [of i] is_digit_visible by (auto simp: decimal_literal_def hd_append)
  show "visible (last (decimal_literal sg i dot f))"
    using assms v digits_last [of i] digits_last [of f] is_digit_visible
    by (auto simp: decimal_literal_def last_append)
qed

lemma decimal_literal_parts:
  assumes "digits i" "dot \<or> f = []"
  shows "(case IndexByte (decimal_literal [] i dot f) CHR ''.'' of
            Some n \<Rightarrow> (take n (decimal_literal [] i dot f), drop (n + 1) (decimal_literal [] i dot f))
          | None \<Rightarrow> (decimal_literal [] i dot f, [])) = (i, f)"
  using assms digits_no_dot [of i]
  by (cases dot) (simp_all add: decimal_literal_def IndexByte_append IndexByte_None)

lemma parseFixed_decimal:
  assumes sg: "sg \<in> {[], ''-'', ''+''}" and i: "digits i" and f: "digits f"
    and ne: "i \<noteq> [] \<or> f \<noteq> []" and dot: "dot \<or> f = []"
    and k: "length f \<le> k" "k \<le> 18"
  shows "parseFixed (decimal_literal sg i dot f) (10 ^ k) =
     (if digits_val 0 i < 2 ^ 63 then
        if decimal_value k i f < 2 ^ 63
        then Inr (word_of_int (if sg = ''-'' then - decimal_value k i f else decimal_value k i f))
        else Inl ErrOverflow
      else Inl ErrRange)"
proof -
  let ?s = "decimal_literal sg i dot f"
  have t: "TrimSpace ?s = ?s" using sg i f ne dot by (intro decimal_literal_trim) auto
  have s0: "?s \<noteq> []" "hd ?s = CHR ''-'' \<longleftrightarrow> sg = ''-''"
    "(if hd ?s = CHR ''-'' \<or> hd ?s = CHR ''+'' then tl ?s else ?s) = decimal_literal [] i dot f"
    using sg ne dot digits_hd [OF i] by (auto simp: decimal_literal_def hd_append)
  note p = padded_fraction [OF f k]
  have "parseFixed ?s (10 ^ k) =
      bind_result (if i \<noteq> [] then ParseInt i else Inr 0)
        (\<lambda>whole. case mulI64 whole (10 ^ k) of None \<Rightarrow> Inl ErrOverflow
           | Some prd \<Rightarrow> (case addI64 prd (word_of_int (digits_val 0 (pad_right k f))) of
                None \<Rightarrow> Inl ErrOverflow
              | Some sm \<Rightarrow> Inr (if sg = ''-'' then - sm else sm)))"
    using k ne s0(1) unfolding parseFixed_def t Let_def s0(3) decimal_literal_parts [OF i dot]
      prod.case scaleDigits_pow10 [OF k(2)] p(3) unfolding s0(2) by auto
  also have "\<dots> = (if digits_val 0 i < 2 ^ 63 then
        if decimal_value k i f < 2 ^ 63
        then Inr (word_of_int (if sg = ''-'' then - decimal_value k i f else decimal_value k i f))
        else Inl ErrOverflow
      else Inl ErrRange)"
    unfolding whole_part [OF i] decimal_value_def p(2) [symmetric]
    using i p(4,5) k by (simp add: scaled_sum)
  finally show ?thesis .
qed

subsection \<open>Printing\<close>

lemma formatFixed_literal:
  assumes v: "v \<noteq> MinInt64" and k: "0 < k" "k \<le> 18"
  shows "formatFixed v (10 ^ k) =
     decimal_literal (if sint v < 0 then ''-'' else []) (dec (\<bar>sint v\<bar> div 10 ^ k)) True
       (pad_left k (dec (\<bar>sint v\<bar> mod 10 ^ k)))"
proof -
  define u where "u = (if v <s 0 then - v else v)"
  have "sint v \<noteq> - 9223372036854775808" using v by (simp add: word_eq_sint)
  then have "in_i64 (- sint v)" using sint_bounds [of v] by (auto simp: in_i64_iff)
  then have u: "sint u = \<bar>sint v\<bar>" by (simp add: u_def go_arith)
  then have w: "sint (go_div u (10 ^ k)) = \<bar>sint v\<bar> div 10 ^ k"
    "sint (go_mod u (10 ^ k)) = \<bar>sint v\<bar> mod 10 ^ k"
    using k by (simp_all add: sint_go_div_nonneg sint_go_mod_nonneg)
  have nn: "\<not> \<bar>sint v\<bar> div 10 ^ k < 0" "\<not> \<bar>sint v\<bar> mod 10 ^ k < 0"
    by (simp_all add: not_less pos_imp_zdiv_nonneg_iff)
  have "FormatInt (go_div u (10 ^ k)) = dec (\<bar>sint v\<bar> div 10 ^ k)"
    "FormatInt (go_mod u (10 ^ k)) = dec (\<bar>sint v\<bar> mod 10 ^ k)"
    unfolding FormatInt_def w by (simp_all only: nn if_False)
  then show ?thesis
    using k unfolding formatFixed_def Let_def u_def [symmetric]
    by (simp add: decimal_literal_def go_arith)
qed

lemma digits_pad_left: "0 \<le> n \<Longrightarrow> digits (pad_left k (dec n))"
  by (simp add: pad_left_eq digits_dec)

lemma digits_val_pad_left: "0 \<le> n \<Longrightarrow> digits_val 0 (pad_left k (dec n)) = n"
  by (simp add: pad_left_eq digits_val_dec)

lemma length_pad_left: "0 \<le> n \<Longrightarrow> n < 10 ^ k \<Longrightarrow> 0 < k \<Longrightarrow> length (pad_left k (dec n)) = k"
  using length_dec [of n k] by (simp add: pad_left_eq)

lemma parseFixed_formatFixed:
  assumes v: "v \<noteq> MinInt64" and k: "0 < k" "k \<le> 18"
  shows "parseFixed (formatFixed v (10 ^ k)) (10 ^ k) = Inr v"
proof -
  let ?n = "\<bar>sint v\<bar>"
  let ?i = "dec (?n div 10 ^ k)" and ?f = "pad_left k (dec (?n mod 10 ^ k))"
  have nn: "0 \<le> ?n div 10 ^ k" "0 \<le> ?n mod 10 ^ k" "?n mod 10 ^ k < 10 ^ k"
    by (simp_all add: pos_imp_zdiv_nonneg_iff)
  note f = digits_pad_left [OF nn(2), of k] digits_val_pad_left [OF nn(2), of k]
    length_pad_left [OF nn(2,3) k(1)]
  have dv: "decimal_value k ?i ?f = ?n"
    using div_mult_mod_eq [of ?n "10 ^ k"] by (simp only: decimal_value_def digits_val_dec nn f) simp
  have "sint v \<noteq> - 9223372036854775808" using v by (simp add: word_eq_sint)
  then have n63: "?n < 2 ^ 63" using sint_bounds [of v] by auto
  have "?n div 10 ^ k \<le> ?n" using zdiv_mono2 [of ?n 1 "10 ^ k"] by simp
  then have "digits_val 0 ?i < 2 ^ 63" using n63 by (simp add: digits_val_dec nn)
  then show ?thesis
    using parseFixed_decimal [of "if sint v < 0 then ''-'' else []" ?i ?f True k] k n63
    by (auto simp: formatFixed_literal [OF v k] digits_dec nn f dv)
qed

subsection \<open>Methods\<close>

lemma Money_Add_eq:
  "Money_Add m x = (if in_i64 (sint m + sint x) then Inr (m + x)
     else if m = MinInt64 \<and> x = MinInt64 then Inr 0 else Inl ErrOverflow)"
  by (simp add: Money_Add_def addI64_eq)

lemma Quantity_Add_eq:
  "Quantity_Add m x = (if in_i64 (sint m + sint x) then Inr (m + x)
     else if m = MinInt64 \<and> x = MinInt64 then Inr 0 else Inl ErrOverflow)"
  by (simp add: Quantity_Add_def addI64_eq)

lemma Add_nonneg_Inr:
  assumes "0 \<le> sint m" "0 \<le> sint x"
  shows "Money_Add m x = Inr y \<longleftrightarrow> sint y = sint m + sint x"
    "Quantity_Add m x = Inr y \<longleftrightarrow> sint y = sint m + sint x"
  using assms not_MinInt64 [of m]
  by (auto simp: Money_Add_eq Quantity_Add_eq word_eq_sint dest: sint_eq_in_i64)

lemma MulQuantity_eq:
  "MulQuantity m q =
     (let v = round_half_away (sint m * sint q) 1000
      in if in_i64 v then Inr (word_of_int v) else Inl ErrOverflow)"
  by (simp add: MulQuantity_def mulDivRound_eq quantityScale_def Let_def)

lemma DivByQuantity_eq:
  "DivByQuantity m q =
     (let v = round_half_away (sint m * 1000) (sint q)
      in if q \<noteq> 0 \<and> in_i64 v then Inr (word_of_int v) else Inl ErrOverflow)"
  by (simp add: DivByQuantity_def mulDivRound_eq quantityScale_def Let_def)

lemma MulQuantity_Inr:
  "MulQuantity m q = Inr v \<longleftrightarrow> sint v = round_half_away (sint m * sint q) 1000"
  by (auto simp: MulQuantity_eq Let_def word_eq_sint dest: sint_eq_in_i64)

lemma DivByQuantity_Inr:
  "DivByQuantity m q = Inr v \<longleftrightarrow> q \<noteq> 0 \<and> sint v = round_half_away (sint m * 1000) (sint q)"
  by (auto simp: DivByQuantity_eq Let_def word_eq_sint dest: sint_eq_in_i64)

lemma round_half_away_nonneg: "0 \<le> x \<Longrightarrow> 0 < d \<Longrightarrow> 0 \<le> round_half_away x d"
  by (simp add: round_half_away_pos pos_imp_zdiv_nonneg_iff)

lemma round_half_away_mono:
  "0 < d \<Longrightarrow> 0 \<le> x \<Longrightarrow> x \<le> y \<Longrightarrow> round_half_away x d \<le> round_half_away y d"
  by (simp add: round_half_away_pos zdiv_mono1)

lemma ParseMoney_Inl: "ParseMoney s = Inl e \<Longrightarrow> e = ErrParseMoney"
  by (auto simp: ParseMoney_def split: sum.splits)

lemma ParseQuantity_Inl: "ParseQuantity s = Inl e \<Longrightarrow> e = ErrParseQuantity"
  by (auto simp: ParseQuantity_def split: sum.splits)

subsection \<open>Properties\<close>

text \<open>
  C32. Checked addition and subtraction of money return the exact sum or difference when it fits
  in an \<open>int64\<close> and \<open>ErrOverflow\<close> otherwise; the one overflow that \<open>Add\<close> does not report is
  the sum of two smallest values, for which it returns zero without an error.
\<close>

theorem money_add_sub_exact:
  "Money_Add m x =
     (if in_i64 (sint m + sint x) then Inr (word_of_int (sint m + sint x))
      else if m = MinInt64 \<and> x = MinInt64 then Inr 0 else Inl ErrOverflow) \<and>
   Money_Sub m x =
     (if in_i64 (sint m - sint x) then Inr (word_of_int (sint m - sint x)) else Inl ErrOverflow)"
  by (simp add: Money_Add_eq Money_Sub_def subI64_eq flip: wi_hom_add wi_hom_sub)

text \<open>
  C19. \<open>MulQuantity\<close> and \<open>DivByQuantity\<close> compute the exact product \<open>price * quantity / 1000\<close>
  and quotient \<open>notional * 1000 / quantity\<close>, rounded to the nearest minor unit with halves away
  from zero, for all 64-bit operands: no intermediate value overflows, an error is returned
  exactly if the quantity divided by is zero or the rounded result does not fit.
\<close>

theorem mul_div_quantity_rounds:
  "MulQuantity m q =
     (let v = round_half_away (sint m * sint q) 1000
      in if in_i64 v then Inr (word_of_int v) else Inl ErrOverflow) \<and>
   DivByQuantity m q =
     (let v = round_half_away (sint m * 1000) (sint q)
      in if q \<noteq> 0 \<and> in_i64 v then Inr (word_of_int v) else Inl ErrOverflow)"
  by (simp add: MulQuantity_eq DivByQuantity_eq)

text \<open>
  The decimal parser: a literal made of an optional sign, digits, an optional point and at
  most \<open>k\<close> further digits denotes its exact number of minor units at scale \<open>10 ^ k\<close>; the parser
  returns that number, and an error exactly if it does not fit in an \<open>int64\<close>.
\<close>

theorem parse_decimal_literal:
  assumes "sg \<in> {[], ''-'', ''+''}" "digits i" "digits f" "i \<noteq> [] \<or> f \<noteq> []"
    "dot \<or> f = []" "length f \<le> k" "k \<le> 18"
  shows "if decimal_value k i f < 2 ^ 63
    then parseFixed (decimal_literal sg i dot f) (10 ^ k) =
      Inr (word_of_int (if sg = ''-'' then - decimal_value k i f else decimal_value k i f))
    else \<not> is_ok (parseFixed (decimal_literal sg i dot f) (10 ^ k))"
proof -
  have "digits_val 0 i \<le> digits_val 0 i * 10 ^ k"
    using digits_val_nonneg [OF assms(2)] mult_left_mono [of 1 "10 ^ k" "digits_val 0 i"] by simp
  moreover have "0 \<le> digits_val 0 f * 10 ^ (k - length f)" using assms(3) by simp
  ultimately have "digits_val 0 i \<le> decimal_value k i f" by (simp add: decimal_value_def)
  then show ?thesis using parseFixed_decimal [OF assms] by auto
qed

theorem parse_decimal_literal_witness:
  "parseFixed ''-12.5'' (10 ^ 4) = Inr (- 125000) \<and>
   \<not> is_ok (parseFixed ''922337203685478.'' (10 ^ 4))"
proof
  show "parseFixed ''-12.5'' (10 ^ 4) = Inr (- 125000)"
    using parse_decimal_literal [of "''-''" "''12''" "''5''" True 4]
    by (simp add: decimal_literal_def decimal_value_def digit_val_def is_digit_def)
  show "\<not> is_ok (parseFixed ''922337203685478.'' (10 ^ 4))"
    using parse_decimal_literal [of "[]" "''922337203685478''" "[]" True 4]
    by (simp add: decimal_literal_def decimal_value_def digit_val_def is_digit_def)
qed

text \<open>
  C31. Printing and parsing are inverse: the string of every amount and every quantity, the
  smallest \<open>int64\<close> excepted, parses back to the same value.
\<close>

theorem parse_print_roundtrip:
  "v \<noteq> MinInt64 \<Longrightarrow> ParseMoney (Money_String v) = Inr v \<and> ParseQuantity (Quantity_String v) = Inr v"
  using parseFixed_formatFixed [of v 4] parseFixed_formatFixed [of v 3]
  by (simp add: ParseMoney_def Money_String_def ParseQuantity_def Quantity_String_def
      moneyScale_pow10 quantityScale_pow10)

theorem parse_print_roundtrip_witness:
  "(- 1234567 :: int64) \<noteq> MinInt64 \<and> ParseMoney (Money_String (- 1234567)) = Inr (- 1234567)"
proof -
  have "(- 1234567 :: int64) \<noteq> MinInt64" by (simp add: MinInt64_def)
  then show ?thesis using parse_print_roundtrip [of "- 1234567"] by blast
qed

text \<open>
  The parser accepts signs inside a literal: \<open>strconv.ParseInt\<close> takes its own sign, so a
  second sign after the leading one and a sign after the point are read as part of a number. The
  literal \<open>1.-5\<close> is accepted as 0.95, \<open>--5\<close> as 5, \<open>+-5\<close> as -5 and \<open>1.+5\<close> as 1.05; and the
  string of the smallest amount is not a literal the parser accepts.
\<close>

theorem parse_accepts_inner_signs:
  "ParseMoney ''1.-5'' = Inr 9500 \<and> ParseMoney ''--5'' = Inr 50000 \<and>
   ParseMoney ''+-5'' = Inr (- 50000) \<and> ParseMoney ''1.+5'' = Inr 10500 \<and>
   Money_String MinInt64 = ''--922337203685477.-5808'' \<and>
   ParseMoney (Money_String MinInt64) = Inl ErrParseMoney"
  by code_simp

end
