(* ===== verification/Domain_Types.thy ===== *)
theory Domain_Types
  imports Money
begin

section \<open>Order vocabulary and the lifecycle table (internal/domain/types.go)\<close>

text \<open>
  Sides, order types, time-in-force policies, symbols and statuses are Go string types with
  named constants, so they are strings here and a value outside the constants is possible. The
  transition table \<open>legalTransitions\<close> is the adjacency map of the source; a missing key reads as
  the empty map, as in Go.
\<close>

type_synonym Side = string
type_synonym OrderType = string
type_synonym TimeInForce = string
type_synonym Symbol = string
type_synonym OrderStatus = string

definition SideBuy :: Side where
  "SideBuy = ''BUY''"

definition SideSell :: Side where
  "SideSell = ''SELL''"

definition ParseSide :: "string \<Rightarrow> Side result" where
  "ParseSide s =
     (let u = ToUpper (TrimSpace s)
      in if u = SideBuy then Inr SideBuy
         else if u = SideSell then Inr SideSell
         else Inl ErrInvalidSide)"

definition OrderTypeMarket :: OrderType where
  "OrderTypeMarket = ''MARKET''"

definition OrderTypeLimit :: OrderType where
  "OrderTypeLimit = ''LIMIT''"

definition ParseOrderType :: "string \<Rightarrow> OrderType result" where
  "ParseOrderType s =
     (let u = ToUpper (TrimSpace s)
      in if u = OrderTypeMarket then Inr OrderTypeMarket
         else if u = OrderTypeLimit then Inr OrderTypeLimit
         else Inl ErrInvalidOrderType)"

definition TIFDay :: TimeInForce where
  "TIFDay = ''DAY''"

definition TIFGTC :: TimeInForce where
  "TIFGTC = ''GTC''"

definition TIFIOC :: TimeInForce where
  "TIFIOC = ''IOC''"

definition TIFFOK :: TimeInForce where
  "TIFFOK = ''FOK''"

definition ParseTimeInForce :: "string \<Rightarrow> TimeInForce result" where
  "ParseTimeInForce s =
     (let u = ToUpper (TrimSpace s)
      in if u = TIFDay then Inr TIFDay
         else if u = TIFGTC then Inr TIFGTC
         else if u = TIFIOC then Inr TIFIOC
         else if u = TIFFOK then Inr TIFFOK
         else Inl ErrInvalidTIF)"

definition ParseSymbol :: "string \<Rightarrow> Symbol result" where
  "ParseSymbol s =
     (let u = ToUpper (TrimSpace s)
      in if length u < 1 \<or> 8 < length u then Inl ErrInvalidSymbol
         else if \<not> list_all is_upper_letter u then Inl ErrInvalidSymbol
         else Inr u)"

subsection \<open>Statuses\<close>

definition StatusNew :: OrderStatus where
  "StatusNew = ''NEW''"

definition StatusAccepted :: OrderStatus where
  "StatusAccepted = ''ACCEPTED''"

definition StatusPartiallyFilled :: OrderStatus where
  "StatusPartiallyFilled = ''PARTIALLY_FILLED''"

definition StatusFilled :: OrderStatus where
  "StatusFilled = ''FILLED''"

definition StatusCanceled :: OrderStatus where
  "StatusCanceled = ''CANCELED''"

definition StatusRejected :: OrderStatus where
  "StatusRejected = ''REJECTED''"

definition StatusExpired :: OrderStatus where
  "StatusExpired = ''EXPIRED''"

definition legalTransitions :: "(OrderStatus \<times> OrderStatus list) list" where
  "legalTransitions =
     [(StatusNew, [StatusAccepted, StatusRejected]),
      (StatusAccepted, [StatusPartiallyFilled, StatusFilled, StatusCanceled, StatusExpired]),
      (StatusPartiallyFilled, [StatusPartiallyFilled, StatusFilled, StatusCanceled, StatusExpired]),
      (StatusFilled, []),
      (StatusCanceled, []),
      (StatusRejected, []),
      (StatusExpired, [])]"

definition canTransitionTo :: "OrderStatus \<Rightarrow> OrderStatus \<Rightarrow> bool" where
  "canTransitionTo s to =
     (case map_of legalTransitions s of None \<Rightarrow> False | Some ts \<Rightarrow> to \<in> set ts)"

definition IsTerminal :: "OrderStatus \<Rightarrow> bool" where
  "IsTerminal s = (case map_of legalTransitions s of None \<Rightarrow> True | Some ts \<Rightarrow> ts = [])"

lemmas status_defs = StatusNew_def StatusAccepted_def StatusPartiallyFilled_def StatusFilled_def
  StatusCanceled_def StatusRejected_def StatusExpired_def

lemmas side_defs = SideBuy_def SideSell_def

lemmas type_defs = OrderTypeMarket_def OrderTypeLimit_def

lemmas tif_defs = TIFDay_def TIFGTC_def TIFIOC_def TIFFOK_def

lemma status_distinct [simp]:
  "StatusNew \<noteq> StatusAccepted" "StatusNew \<noteq> StatusPartiallyFilled"
  "StatusNew \<noteq> StatusFilled" "StatusNew \<noteq> StatusCanceled"
  "StatusNew \<noteq> StatusRejected" "StatusNew \<noteq> StatusExpired"
  "StatusAccepted \<noteq> StatusNew" "StatusAccepted \<noteq> StatusPartiallyFilled"
  "StatusAccepted \<noteq> StatusFilled" "StatusAccepted \<noteq> StatusCanceled"
  "StatusAccepted \<noteq> StatusRejected" "StatusAccepted \<noteq> StatusExpired"
  "StatusPartiallyFilled \<noteq> StatusNew" "StatusPartiallyFilled \<noteq> StatusAccepted"
  "StatusPartiallyFilled \<noteq> StatusFilled" "StatusPartiallyFilled \<noteq> StatusCanceled"
  "StatusPartiallyFilled \<noteq> StatusRejected" "StatusPartiallyFilled \<noteq> StatusExpired"
  "StatusFilled \<noteq> StatusNew" "StatusFilled \<noteq> StatusAccepted"
  "StatusFilled \<noteq> StatusPartiallyFilled" "StatusFilled \<noteq> StatusCanceled"
  "StatusFilled \<noteq> StatusRejected" "StatusFilled \<noteq> StatusExpired"
  "StatusCanceled \<noteq> StatusNew" "StatusCanceled \<noteq> StatusAccepted"
  "StatusCanceled \<noteq> StatusPartiallyFilled" "StatusCanceled \<noteq> StatusFilled"
  "StatusCanceled \<noteq> StatusRejected" "StatusCanceled \<noteq> StatusExpired"
  "StatusRejected \<noteq> StatusNew" "StatusRejected \<noteq> StatusAccepted"
  "StatusRejected \<noteq> StatusPartiallyFilled" "StatusRejected \<noteq> StatusFilled"
  "StatusRejected \<noteq> StatusCanceled" "StatusRejected \<noteq> StatusExpired"
  "StatusExpired \<noteq> StatusNew" "StatusExpired \<noteq> StatusAccepted"
  "StatusExpired \<noteq> StatusPartiallyFilled" "StatusExpired \<noteq> StatusFilled"
  "StatusExpired \<noteq> StatusCanceled" "StatusExpired \<noteq> StatusRejected"
  by (simp_all add: status_defs)

lemma side_distinct [simp]: "SideBuy \<noteq> SideSell" "SideSell \<noteq> SideBuy"
  by (simp_all add: side_defs)

lemma type_distinct [simp]: "OrderTypeMarket \<noteq> OrderTypeLimit" "OrderTypeLimit \<noteq> OrderTypeMarket"
  by (simp_all add: type_defs)

subsection \<open>The transition table\<close>

lemma canTransitionTo_iff:
  "canTransitionTo s t \<longleftrightarrow>
     s = StatusNew \<and> t \<in> {StatusAccepted, StatusRejected} \<or>
     s \<in> {StatusAccepted, StatusPartiallyFilled} \<and>
       t \<in> {StatusPartiallyFilled, StatusFilled, StatusCanceled, StatusExpired}"
  by (auto simp: canTransitionTo_def legalTransitions_def split: if_splits)

lemma IsTerminal_iff: "IsTerminal s \<longleftrightarrow> s \<notin> {StatusNew, StatusAccepted, StatusPartiallyFilled}"
  by (auto simp: IsTerminal_def legalTransitions_def split: if_splits)

subsection \<open>Canonical values\<close>

lemma canonical_upper:
  assumes "u \<noteq> []" "list_all is_upper_letter u"
  shows "TrimSpace u = u" "ToUpper u = u"
proof -
  have "visible (hd u)" "visible (last u)"
    using assms by (auto simp: list_all_iff intro: is_upper_letter_visible)
  then show "TrimSpace u = u" using assms(1) by (intro TrimSpace_visible)
  show "ToUpper u = u" using assms(2) by (intro ToUpper_upper) (simp add: list_all_iff)
qed

lemma constants_canonical:
  "u \<in> {SideBuy, SideSell, OrderTypeMarket, OrderTypeLimit, TIFDay, TIFGTC, TIFIOC, TIFFOK} \<Longrightarrow>
   TrimSpace u = u \<and> ToUpper u = u"
  by (rule conjI; rule canonical_upper)
    (auto simp: side_defs type_defs tif_defs is_upper_letter_def)

lemma ParseSide_Inr: "ParseSide s = Inr d \<Longrightarrow> d = SideBuy \<or> d = SideSell"
  by (auto simp: ParseSide_def Let_def split: if_splits)

lemma ParseOrderType_Inr: "ParseOrderType s = Inr d \<Longrightarrow> d = OrderTypeMarket \<or> d = OrderTypeLimit"
  by (auto simp: ParseOrderType_def Let_def split: if_splits)

lemma ParseTimeInForce_Inr:
  "ParseTimeInForce s = Inr d \<Longrightarrow> d = TIFDay \<or> d = TIFGTC \<or> d = TIFIOC \<or> d = TIFFOK"
  by (auto simp: ParseTimeInForce_def Let_def split: if_splits)

lemma ParseSymbol_Inr:
  "ParseSymbol s = Inr u \<Longrightarrow> u \<noteq> [] \<and> length u \<le> 8 \<and> list_all is_upper_letter u"
  by (auto simp: ParseSymbol_def Let_def split: if_splits)

lemma ParseSymbol_canonical:
  "u \<noteq> [] \<Longrightarrow> length u \<le> 8 \<Longrightarrow> list_all is_upper_letter u \<Longrightarrow> ParseSymbol u = Inr u"
  by (simp add: ParseSymbol_def canonical_upper Suc_le_eq)

subsection \<open>Properties\<close>

text \<open>
  The parsers of the order vocabulary normalise: whatever one of them accepts is one of the
  named constants (for a symbol, one to eight upper-case ASCII letters), and parsing that value
  again returns it unchanged.
\<close>

theorem vocabulary_parsers_normalise:
  "(ParseSide s = Inr d \<longrightarrow> d \<in> {SideBuy, SideSell} \<and> ParseSide d = Inr d) \<and>
   (ParseOrderType s = Inr t \<longrightarrow>
      t \<in> {OrderTypeMarket, OrderTypeLimit} \<and> ParseOrderType t = Inr t) \<and>
   (ParseTimeInForce s = Inr f \<longrightarrow>
      f \<in> {TIFDay, TIFGTC, TIFIOC, TIFFOK} \<and> ParseTimeInForce f = Inr f) \<and>
   (ParseSymbol s = Inr u \<longrightarrow>
      1 \<le> length u \<and> length u \<le> 8 \<and> list_all is_upper_letter u \<and> ParseSymbol u = Inr u)"
proof -
  have "d \<in> {SideBuy, SideSell} \<Longrightarrow> ParseSide d = Inr d"
    using constants_canonical [of d] by (auto simp: ParseSide_def)
  moreover have "t \<in> {OrderTypeMarket, OrderTypeLimit} \<Longrightarrow> ParseOrderType t = Inr t"
    using constants_canonical [of t] by (auto simp: ParseOrderType_def)
  moreover have "f \<in> {TIFDay, TIFGTC, TIFIOC, TIFFOK} \<Longrightarrow> ParseTimeInForce f = Inr f"
    using constants_canonical [of f] by (auto simp: ParseTimeInForce_def)
  ultimately show ?thesis
    using ParseSide_Inr ParseOrderType_Inr ParseTimeInForce_Inr ParseSymbol_Inr [of s u]
      ParseSymbol_canonical [of u] by (auto simp: Suc_le_eq)
qed

theorem vocabulary_parsers_normalise_witness:
  "ParseSide '' buy'' = Inr ''BUY'' \<and> ParseSide ''BUY'' = Inr ''BUY'' \<and>
   ParseSymbol ''aapl '' = Inr ''AAPL'' \<and> ParseSymbol ''AAPL'' = Inr ''AAPL''"
proof -
  have "ParseSide '' buy'' = Inr ''BUY''" "ParseSymbol ''aapl '' = Inr ''AAPL''" by code_simp+
  then show ?thesis
    using vocabulary_parsers_normalise [of "'' buy''" "''BUY''"]
      vocabulary_parsers_normalise [of "''aapl ''" _ _ _ "''AAPL''"] by blast
qed

end
