(* ===== verification/Command_Machine.thy ===== *)
theory Command_Machine
  imports Go_Prelude
begin

section \<open>Machines driven by commands that may fail\<close>

text \<open>
  The contract that the stateful components share: a command either fails and leaves the state
  as it was, or produces the next state. \<open>run_cmds\<close> runs a list of commands, whatever their
  outcome. The locale \<open>command_machine\<close> states what a component promises (each successful
  command keeps the invariant) and gives what a client may rely on (every run keeps it);
  \<open>related_machine\<close> extends it with a relation between the two states of every successful
  command, reflexive and transitive, that then holds across every run. \<open>client_machine\<close> is a machine
  that drives another one.
\<close>

definition run_cmd :: "('s \<Rightarrow> 'c \<Rightarrow> 's result) \<Rightarrow> 's \<Rightarrow> 'c \<Rightarrow> 's" where
  "run_cmd exec s c = (case exec s c of Inl _ \<Rightarrow> s | Inr s' \<Rightarrow> s')"

fun run_cmds :: "('s \<Rightarrow> 'c \<Rightarrow> 's result) \<Rightarrow> 's \<Rightarrow> 'c list \<Rightarrow> 's" where
  "run_cmds exec s [] = s"
| "run_cmds exec s (c # cs) = run_cmds exec (run_cmd exec s c) cs"

lemma run_cmds_append [simp]:
  "run_cmds exec s (cs @ ds) = run_cmds exec (run_cmds exec s cs) ds"
  by (induction cs arbitrary: s) auto

locale command_machine =
  fixes exec :: "'s \<Rightarrow> 'c \<Rightarrow> 's result"
    and inv :: "'s \<Rightarrow> bool"
  assumes exec_inv: "inv s \<Longrightarrow> exec s c = Inr s' \<Longrightarrow> inv s'"
begin

lemma run_cmd_inv: "inv s \<Longrightarrow> inv (run_cmd exec s c)"
  by (auto simp: run_cmd_def split: sum.splits dest: exec_inv)

lemma run_inv: "inv s \<Longrightarrow> inv (run_cmds exec s cs)"
  by (induction cs arbitrary: s) (auto intro: run_cmd_inv)

end

locale related_machine = command_machine exec inv
  for exec :: "'s \<Rightarrow> 'c \<Rightarrow> 's result" and inv :: "'s \<Rightarrow> bool" +
  fixes rel :: "'s \<Rightarrow> 's \<Rightarrow> bool"
  assumes rel_refl: "inv s \<Longrightarrow> rel s s"
    and rel_trans: "rel s t \<Longrightarrow> rel t u \<Longrightarrow> rel s u"
    and exec_rel: "inv s \<Longrightarrow> exec s c = Inr s' \<Longrightarrow> rel s s'"
begin

lemma run_cmd_rel: "inv s \<Longrightarrow> rel s (run_cmd exec s c)"
  by (auto simp: run_cmd_def rel_refl split: sum.splits dest: exec_rel)

lemma run_rel: "inv s \<Longrightarrow> rel s (run_cmds exec s cs)"
proof (induction cs arbitrary: s)
  case (Cons c cs)
  have "rel (run_cmd exec s c) (run_cmds exec (run_cmd exec s c) cs)"
    using Cons by (auto intro: run_cmd_inv)
  with run_cmd_rel [OF Cons.prems, of c] show ?case by (auto intro: rel_trans)
qed (simp add: rel_refl)

end

text \<open>
  A machine that is built on another one: each command of the client amounts to some commands of the
  service, on the part of its state that \<open>part\<close> reads. Runs then correspond, and an invariant of the
  service is one of the client.
\<close>

locale machine_refinement =
  fixes exec :: "'s \<Rightarrow> 'c \<Rightarrow> 's result"
    and spec :: "'t \<Rightarrow> 'd \<Rightarrow> 't result"
    and part :: "'s \<Rightarrow> 't"
    and calls :: "'c \<Rightarrow> 'd list"
  assumes refines: "part (run_cmd exec s c) = run_cmds spec (part s) (calls c)"
begin

lemma run_refines: "part (run_cmds exec s cs) = run_cmds spec (part s) (concat (map calls cs))"
  by (induction cs arbitrary: s) (simp_all add: refines)

end

locale client_machine = machine_refinement exec spec part calls + command_machine spec inv
  for exec :: "'s \<Rightarrow> 'c \<Rightarrow> 's result" and spec :: "'t \<Rightarrow> 'd \<Rightarrow> 't result"
    and part :: "'s \<Rightarrow> 't" and calls :: "'c \<Rightarrow> 'd list" and inv :: "'t \<Rightarrow> bool"

sublocale client_machine \<subseteq> client: command_machine exec "\<lambda>s. inv (part s)"
proof
  show "inv (part s')" if "inv (part s)" "exec s c = Inr s'" for s c s'
    using run_inv [OF that(1), of "calls c"] refines [of s c] that(2) by (simp add: run_cmd_def)
qed

end
