(* ===== verification/Order.thy ===== *)
theory Order
  imports Domain_Types Command_Machine
begin

section \<open>The order aggregate and its events (internal/domain/order.go, events.go)\<close>

text \<open>
  An order is a record with the fields of the Go struct, the buffer of pending events included.
  A method that mutates the order and may fail is a function into \<open>Order result\<close>: on \<open>Inl\<close> the
  order is unchanged, since every check of the Go method precedes its first assignment. The
  lemmas show the aggregate's invariant, the functional behaviour of every method, that the
  emitted events determine the state, and how far the stored average price can be from the exact
  volume-weighted one.
\<close>

subsection \<open>Events\<close>

datatype Event =
    OrderPlaced (ev_orderID: string) (ev_at: Time) (ev_AccountID: string) (ev_Symbol: Symbol)
      (ev_Side: Side) (ev_OrderType: OrderType) (ev_TIF: TimeInForce) (ev_Quantity: Quantity)
      (ev_LimitPrice: Money)
  | OrderAccepted (ev_orderID: string) (ev_at: Time)
  | OrderRejected (ev_orderID: string) (ev_at: Time) (ev_Reason: string)
  | OrderPartiallyFilled (ev_orderID: string) (ev_at: Time) (ev_FillQty: Quantity)
      (ev_FillPrice: Money) (ev_CumulativeQty: Quantity) (ev_AvgFillPrice: Money)
  | OrderFilled (ev_orderID: string) (ev_at: Time) (ev_FillQty: Quantity) (ev_FillPrice: Money)
      (ev_AvgFillPrice: Money)
  | OrderCanceled (ev_orderID: string) (ev_at: Time)
  | OrderExpired (ev_orderID: string) (ev_at: Time)

definition AggregateID :: "Event \<Rightarrow> string" where
  "AggregateID e = ev_orderID e"

definition OccurredAt :: "Event \<Rightarrow> Time" where
  "OccurredAt e = ev_at e"

fun EventName :: "Event \<Rightarrow> string" where
  "EventName (OrderPlaced _ _ _ _ _ _ _ _ _) = ''OrderPlaced''"
| "EventName (OrderAccepted _ _) = ''OrderAccepted''"
| "EventName (OrderRejected _ _ _) = ''OrderRejected''"
| "EventName (OrderPartiallyFilled _ _ _ _ _ _) = ''OrderPartiallyFilled''"
| "EventName (OrderFilled _ _ _ _ _) = ''OrderFilled''"
| "EventName (OrderCanceled _ _) = ''OrderCanceled''"
| "EventName (OrderExpired _ _) = ''OrderExpired''"

subsection \<open>The aggregate\<close>

record Order =
  o_id :: string
  o_accountID :: string
  o_symbol :: Symbol
  o_side :: Side
  o_orderType :: OrderType
  o_tif :: TimeInForce
  o_limitPrice :: Money
  o_quantity :: Quantity
  o_filledQty :: Quantity
  o_avgFillPx :: Money
  o_status :: OrderStatus
  o_version :: int64
  o_createdAt :: Time
  o_updatedAt :: Time
  o_events :: "Event list"

definition raise :: "Event \<Rightarrow> Order \<Rightarrow> Order" where
  "raise e ord = ord\<lparr>o_events := o_events ord @ [e]\<rparr>"

definition NewOrder ::
  "string \<Rightarrow> string \<Rightarrow> Symbol \<Rightarrow> Side \<Rightarrow> OrderType \<Rightarrow> TimeInForce \<Rightarrow> Money \<Rightarrow> Quantity \<Rightarrow> Time \<Rightarrow>
   Order result" where
  "NewOrder oid accountID symbol side ot tif limitPrice quantity now =
     (if TrimSpace oid = [] then Inl ErrEmptyID
      else if TrimSpace accountID = [] then Inl ErrEmptyAccount
      else if symbol = [] then Inl ErrInvalidSymbol
      else if side \<noteq> SideBuy \<and> side \<noteq> SideSell then Inl ErrInvalidSide
      else if ot \<noteq> OrderTypeMarket \<and> ot \<noteq> OrderTypeLimit then Inl ErrInvalidOrderType
      else if tif \<noteq> TIFDay \<and> tif \<noteq> TIFGTC \<and> tif \<noteq> TIFIOC \<and> tif \<noteq> TIFFOK then Inl ErrInvalidTIF
      else if \<not> Quantity_IsPositive quantity then Inl ErrInvalidQuantity
      else if ot = OrderTypeLimit \<and> limitPrice \<le>s 0 then Inl ErrLimitPriceRequired
      else if ot = OrderTypeMarket \<and> limitPrice \<noteq> 0 then Inl ErrMarketPriceSet
      else Inr (raise (OrderPlaced oid now accountID symbol side ot tif quantity limitPrice)
        \<lparr>o_id = oid, o_accountID = accountID, o_symbol = symbol, o_side = side,
         o_orderType = ot, o_tif = tif, o_limitPrice = limitPrice, o_quantity = quantity,
         o_filledQty = 0, o_avgFillPx = 0, o_status = StatusNew, o_version = 0,
         o_createdAt = now, o_updatedAt = now, o_events = []\<rparr>))"

definition PullEvents :: "Order \<Rightarrow> Event list \<times> Order" where
  "PullEvents ord = (o_events ord, ord\<lparr>o_events := []\<rparr>)"

definition transition :: "Order \<Rightarrow> OrderStatus \<Rightarrow> Time \<Rightarrow> Order result" where
  "transition ord to now =
     (if \<not> canTransitionTo (o_status ord) to then Inl ErrInvalidTransition
      else Inr (ord\<lparr>o_status := to, o_updatedAt := now, o_version := o_version ord + 1\<rparr>))"

definition Accept :: "Order \<Rightarrow> Time \<Rightarrow> Order result" where
  "Accept ord now =
     bind_result (transition ord StatusAccepted now)
       (\<lambda>ord. Inr (raise (OrderAccepted (o_id ord) now) ord))"

definition Reject :: "Order \<Rightarrow> string \<Rightarrow> Time \<Rightarrow> Order result" where
  "Reject ord reason now =
     bind_result (transition ord StatusRejected now)
       (\<lambda>ord. Inr (raise (OrderRejected (o_id ord) now reason) ord))"

definition Cancel :: "Order \<Rightarrow> Time \<Rightarrow> Order result" where
  "Cancel ord now =
     bind_result (transition ord StatusCanceled now)
       (\<lambda>ord. Inr (raise (OrderCanceled (o_id ord) now) ord))"

definition Expire :: "Order \<Rightarrow> Time \<Rightarrow> Order result" where
  "Expire ord now =
     bind_result (transition ord StatusExpired now)
       (\<lambda>ord. Inr (raise (OrderExpired (o_id ord) now) ord))"

text \<open>A method call whose error the caller drops: the order keeps its state on an error.\<close>

definition drop_err :: "'a \<Rightarrow> 'a result \<Rightarrow> 'a" where
  "drop_err x r = (case r of Inl _ \<Rightarrow> x | Inr y \<Rightarrow> y)"

definition Fill :: "Order \<Rightarrow> Quantity \<Rightarrow> Money \<Rightarrow> Time \<Rightarrow> Order result" where
  "Fill ord qty px now =
     (if o_status ord \<noteq> StatusAccepted \<and> o_status ord \<noteq> StatusPartiallyFilled
      then Inl ErrInvalidTransition
      else if \<not> Quantity_IsPositive qty then Inl ErrInvalidQuantity
      else if px \<le>s 0 then Inl ErrFillPrice
      else bind_result (Quantity_Add (o_filledQty ord) qty) (\<lambda>newFilled.
        if o_quantity ord <s newFilled then Inl ErrOverfill
        else bind_result (MulQuantity (o_avgFillPx ord) (o_filledQty ord)) (\<lambda>oldNotional.
          bind_result (MulQuantity px qty) (\<lambda>addNotional.
            bind_result (Money_Add oldNotional addNotional) (\<lambda>totalNotional.
              bind_result (DivByQuantity totalNotional newFilled) (\<lambda>newAvg.
                let ord1 = ord\<lparr>o_filledQty := newFilled, o_avgFillPx := newAvg\<rparr>
                in Inr (if newFilled = o_quantity ord1
                   then (let ord2 = drop_err ord1 (transition ord1 StatusFilled now)
                         in raise (OrderFilled (o_id ord2) now qty px (o_avgFillPx ord2)) ord2)
                   else (let ord2 = drop_err ord1 (transition ord1 StatusPartiallyFilled now)
                         in raise (OrderPartiallyFilled (o_id ord2) now qty px
                              (o_filledQty ord2) (o_avgFillPx ord2)) ord2))))))))"

definition RemainingQuantity :: "Order \<Rightarrow> Quantity" where
  "RemainingQuantity ord = o_quantity ord - o_filledQty ord"

subsection \<open>Snapshots\<close>

record OrderSnapshot =
  s_ID :: string
  s_AccountID :: string
  s_Symbol :: Symbol
  s_Side :: Side
  s_OrderType :: OrderType
  s_TIF :: TimeInForce
  s_LimitPrice :: Money
  s_Quantity :: Quantity
  s_FilledQty :: Quantity
  s_AvgFillPx :: Money
  s_Status :: OrderStatus
  s_Version :: int64
  s_CreatedAt :: Time
  s_UpdatedAt :: Time

definition Snapshot :: "Order \<Rightarrow> OrderSnapshot" where
  "Snapshot ord =
     \<lparr>s_ID = o_id ord, s_AccountID = o_accountID ord, s_Symbol = o_symbol ord,
      s_Side = o_side ord, s_OrderType = o_orderType ord, s_TIF = o_tif ord,
      s_LimitPrice = o_limitPrice ord, s_Quantity = o_quantity ord,
      s_FilledQty = o_filledQty ord, s_AvgFillPx = o_avgFillPx ord, s_Status = o_status ord,
      s_Version = o_version ord, s_CreatedAt = o_createdAt ord, s_UpdatedAt = o_updatedAt ord\<rparr>"

lemma Snapshot_sel [simp]:
  "s_ID (Snapshot ord) = o_id ord" "s_Version (Snapshot ord) = o_version ord"
  "s_CreatedAt (Snapshot ord) = o_createdAt ord" "s_Status (Snapshot ord) = o_status ord"
  by (simp_all add: Snapshot_def)

definition RehydrateOrder :: "OrderSnapshot \<Rightarrow> Order" where
  "RehydrateOrder s =
     \<lparr>o_id = s_ID s, o_accountID = s_AccountID s, o_symbol = s_Symbol s, o_side = s_Side s,
      o_orderType = s_OrderType s, o_tif = s_TIF s, o_limitPrice = s_LimitPrice s,
      o_quantity = s_Quantity s, o_filledQty = s_FilledQty s, o_avgFillPx = s_AvgFillPx s,
      o_status = s_Status s, o_version = s_Version s, o_createdAt = s_CreatedAt s,
      o_updatedAt = s_UpdatedAt s, o_events = []\<rparr>"

subsection \<open>The lifecycle as a command machine\<close>

datatype order_cmd =
    CAccept Time
  | CReject string Time
  | CCancel Time
  | CExpire Time
  | CFill Quantity Money Time

fun order_exec :: "Order \<Rightarrow> order_cmd \<Rightarrow> Order result" where
  "order_exec ord (CAccept t) = Accept ord t"
| "order_exec ord (CReject r t) = Reject ord r t"
| "order_exec ord (CCancel t) = Cancel ord t"
| "order_exec ord (CExpire t) = Expire ord t"
| "order_exec ord (CFill q p t) = Fill ord q p t"

definition working :: "OrderStatus \<Rightarrow> bool" where
  "working s \<longleftrightarrow> s = StatusAccepted \<or> s = StatusPartiallyFilled"

text \<open>
  The invariant: the inputs \<open>NewOrder\<close> checked, and the agreement of the status with the filled
  quantity.
\<close>

definition fill_agrees :: "Order \<Rightarrow> bool" where
  "fill_agrees ord \<longleftrightarrow>
     (o_status ord \<in> {StatusNew, StatusAccepted, StatusRejected} \<and> sint (o_filledQty ord) = 0) \<or>
     (o_status ord = StatusPartiallyFilled \<and>
        0 < sint (o_filledQty ord) \<and> sint (o_filledQty ord) < sint (o_quantity ord)) \<or>
     (o_status ord = StatusFilled \<and> o_filledQty ord = o_quantity ord) \<or>
     (o_status ord \<in> {StatusCanceled, StatusExpired} \<and>
        sint (o_filledQty ord) < sint (o_quantity ord))"

definition order_static :: "Order \<Rightarrow> bool" where
  "order_static ord \<longleftrightarrow>
     TrimSpace (o_id ord) \<noteq> [] \<and> TrimSpace (o_accountID ord) \<noteq> [] \<and> o_symbol ord \<noteq> [] \<and>
     o_side ord \<in> {SideBuy, SideSell} \<and> o_orderType ord \<in> {OrderTypeMarket, OrderTypeLimit} \<and>
     o_tif ord \<in> {TIFDay, TIFGTC, TIFIOC, TIFFOK} \<and>
     0 < sint (o_quantity ord) \<and>
     (o_orderType ord = OrderTypeLimit \<longrightarrow> 0 < sint (o_limitPrice ord)) \<and>
     (o_orderType ord = OrderTypeMarket \<longrightarrow> o_limitPrice ord = 0)"

definition order_inv :: "Order \<Rightarrow> bool" where
  "order_inv ord \<longleftrightarrow>
     order_static ord \<and>
     0 \<le> sint (o_filledQty ord) \<and> sint (o_filledQty ord) \<le> sint (o_quantity ord) \<and>
     0 \<le> sint (o_avgFillPx ord) \<and>
     fill_agrees ord"

lemma order_static_update [simp]:
  "order_static (ord\<lparr>o_filledQty := f\<rparr>) = order_static ord"
  "order_static (ord\<lparr>o_avgFillPx := a\<rparr>) = order_static ord"
  "order_static (ord\<lparr>o_status := st\<rparr>) = order_static ord"
  "order_static (ord\<lparr>o_version := v\<rparr>) = order_static ord"
  "order_static (ord\<lparr>o_updatedAt := t\<rparr>) = order_static ord"
  "order_static (ord\<lparr>o_events := es\<rparr>) = order_static ord"
  by (simp_all add: order_static_def)

lemmas order_op_defs = Accept_def Reject_def Cancel_def Expire_def transition_def raise_def

lemma transition_Inr:
  "transition ord to now = Inr ord' \<longleftrightarrow>
     canTransitionTo (o_status ord) to \<and>
     ord' = ord\<lparr>o_status := to, o_updatedAt := now, o_version := o_version ord + 1\<rparr>"
  by (auto simp: transition_def)

lemma NewOrder_inv: "NewOrder oid acct symb side ot tif px q now = Inr ord \<Longrightarrow> order_inv ord"
  by (clarsimp simp: NewOrder_def raise_def order_inv_def order_static_def fill_agrees_def
      Quantity_IsPositive_def go_arith)

subsection \<open>Fills\<close>

text \<open>
  The average a fill stores, over the integers: the old and the new notional are each rounded to
  a minor unit before they are added and divided.
\<close>

definition fill_avg :: "int \<Rightarrow> int \<Rightarrow> int \<Rightarrow> int \<Rightarrow> int" where
  "fill_avg avg filled px qty =
     round_half_away
       ((round_half_away (avg * filled) 1000 + round_half_away (px * qty) 1000) * 1000)
       (filled + qty)"

definition filled_order :: "Order \<Rightarrow> Quantity \<Rightarrow> Money \<Rightarrow> Time \<Rightarrow> Order" where
  "filled_order ord qty px now =
     (let filled = o_filledQty ord + qty;
          avg = word_of_int (fill_avg (sint (o_avgFillPx ord)) (sint (o_filledQty ord))
                  (sint px) (sint qty));
          ord' = ord\<lparr>o_filledQty := filled, o_avgFillPx := avg,
                     o_status := (if filled = o_quantity ord then StatusFilled
                                  else StatusPartiallyFilled),
                     o_version := o_version ord + 1, o_updatedAt := now\<rparr>
      in raise (if filled = o_quantity ord
                then OrderFilled (o_id ord) now qty px avg
                else OrderPartiallyFilled (o_id ord) now qty px filled avg) ord')"

definition notionals_fit :: "int \<Rightarrow> int \<Rightarrow> int \<Rightarrow> int \<Rightarrow> bool" where
  "notionals_fit avg filled px qty \<longleftrightarrow>
     in_i64 (round_half_away (avg * filled) 1000) \<and> in_i64 (round_half_away (px * qty) 1000) \<and>
     in_i64 (round_half_away (avg * filled) 1000 + round_half_away (px * qty) 1000) \<and>
     in_i64 (fill_avg avg filled px qty)"

lemma Fill_eq:
  assumes "0 \<le> sint (o_filledQty ord)" "0 \<le> sint (o_avgFillPx ord)"
  shows "Fill ord qty px now =
     (if \<not> working (o_status ord) then Inl ErrInvalidTransition
      else if sint qty \<le> 0 then Inl ErrInvalidQuantity
      else if sint px \<le> 0 then Inl ErrFillPrice
      else if \<not> in_i64 (sint (o_filledQty ord) + sint qty) then Inl ErrOverflow
      else if sint (o_quantity ord) < sint (o_filledQty ord) + sint qty then Inl ErrOverfill
      else if \<not> notionals_fit (sint (o_avgFillPx ord)) (sint (o_filledQty ord)) (sint px) (sint qty)
      then Inl ErrOverflow
      else Inr (filled_order ord qty px now))"
proof (cases "working (o_status ord) \<and> 0 < sint qty \<and> 0 < sint px \<and>
    in_i64 (sint (o_filledQty ord) + sint qty) \<and>
    sint (o_filledQty ord) + sint qty \<le> sint (o_quantity ord)")
  case False
  then show ?thesis
    using assms not_MinInt64 [of "o_filledQty ord"]
    by (auto simp: Fill_def working_def Quantity_IsPositive_def go_arith Quantity_Add_eq)
next
  case True
  let ?F = "o_filledQty ord + qty"
  let ?n1 = "round_half_away (sint (o_avgFillPx ord) * sint (o_filledQty ord)) 1000"
  let ?n2 = "round_half_away (sint px * sint qty) 1000"
  let ?w1 = "word_of_int ?n1 :: int64" and ?w2 = "word_of_int ?n2 :: int64"
  have F: "sint ?F = sint (o_filledQty ord) + sint qty" using True by simp
  have F0: "?F \<noteq> 0" using True assms F by (auto simp: word_eq_sint)
  have n: "0 \<le> ?n1" "0 \<le> ?n2" using True assms by (simp_all add: round_half_away_nonneg)
  have nm: "in_i64 ?n1 \<Longrightarrow> ?w1 \<noteq> MinInt64" using n by (intro not_MinInt64) simp
  show ?thesis
  proof (cases "in_i64 ?n1 \<and> in_i64 ?n2 \<and> in_i64 (?n1 + ?n2)")
    case False
    then show ?thesis
      using True assms nm not_MinInt64 [of "o_filledQty ord"] F
      by (auto simp: Fill_def working_def Quantity_IsPositive_def go_arith Quantity_Add_eq
          MulQuantity_eq Money_Add_eq notionals_fit_def Let_def)
  next
    case fits: True
    have A: "DivByQuantity (?w1 + ?w2) ?F =
        (let v = fill_avg (sint (o_avgFillPx ord)) (sint (o_filledQty ord)) (sint px) (sint qty)
         in if in_i64 v then Inr (word_of_int v) else Inl ErrOverflow)"
      using fits F F0 by (simp add: DivByQuantity_eq fill_avg_def del: wi_hom_add)
    have ct: "canTransitionTo (o_status ord) StatusFilled"
      "canTransitionTo (o_status ord) StatusPartiallyFilled"
      using True by (auto simp: canTransitionTo_iff working_def)
    show ?thesis
      using True assms fits F A ct
      by (auto simp: Fill_def working_def Quantity_IsPositive_def go_arith Quantity_Add_eq
          MulQuantity_eq Money_Add_eq notionals_fit_def Let_def filled_order_def transition_def
          drop_err_def raise_def)
  qed
qed


lemma order_inv_nonneg:
  "order_inv ord \<Longrightarrow> 0 \<le> sint (o_filledQty ord)" "order_inv ord \<Longrightarrow> 0 \<le> sint (o_avgFillPx ord)"
  "order_inv ord \<Longrightarrow> 0 < sint (o_quantity ord)"
  by (simp_all add: order_inv_def order_static_def)

lemma Fill_order_inv:
  "order_inv ord \<Longrightarrow> Fill ord qty px now =
     (if \<not> working (o_status ord) then Inl ErrInvalidTransition
      else if sint qty \<le> 0 then Inl ErrInvalidQuantity
      else if sint px \<le> 0 then Inl ErrFillPrice
      else if \<not> in_i64 (sint (o_filledQty ord) + sint qty) then Inl ErrOverflow
      else if sint (o_quantity ord) < sint (o_filledQty ord) + sint qty then Inl ErrOverfill
      else if \<not> notionals_fit (sint (o_avgFillPx ord)) (sint (o_filledQty ord)) (sint px) (sint qty)
      then Inl ErrOverflow
      else Inr (filled_order ord qty px now))"
  using order_inv_nonneg by (intro Fill_eq)

lemma fill_avg_nonneg:
  "0 \<le> avg \<Longrightarrow> 0 \<le> filled \<Longrightarrow> 0 < px \<Longrightarrow> 0 < qty \<Longrightarrow> 0 \<le> fill_avg avg filled px qty"
  unfolding fill_avg_def by (simp add: round_half_away_nonneg)

text \<open>What is known of the operands when a fill succeeds.\<close>

lemma Fill_InrD:
  assumes "order_inv ord" "Fill ord qty px now = Inr ord'"
  shows "working (o_status ord)" "0 < sint qty" "0 < sint px"
    "sint (o_filledQty ord + qty) = sint (o_filledQty ord) + sint qty"
    "sint (o_filledQty ord) + sint qty \<le> sint (o_quantity ord)"
    "ord' = filled_order ord qty px now"
    "sint (o_avgFillPx ord') =
       fill_avg (sint (o_avgFillPx ord)) (sint (o_filledQty ord)) (sint px) (sint qty)"
    "0 \<le> sint (o_avgFillPx ord')"
proof -
  note d = assms(2) [unfolded Fill_order_inv [OF assms(1)]]
  from d show "working (o_status ord)" "0 < sint qty" "0 < sint px"
    "sint (o_filledQty ord + qty) = sint (o_filledQty ord) + sint qty"
    "sint (o_filledQty ord) + sint qty \<le> sint (o_quantity ord)"
    and o: "ord' = filled_order ord qty px now" by auto
  from d have "in_i64 (fill_avg (sint (o_avgFillPx ord)) (sint (o_filledQty ord)) (sint px) (sint qty))"
    by (simp add: notionals_fit_def)
  then show a: "sint (o_avgFillPx ord') =
       fill_avg (sint (o_avgFillPx ord)) (sint (o_filledQty ord)) (sint px) (sint qty)"
    by (simp add: o filled_order_def raise_def Let_def)
  show "0 \<le> sint (o_avgFillPx ord')"
    unfolding a using d order_inv_nonneg [OF assms(1)] by (intro fill_avg_nonneg) auto
qed

lemma Fill_inv:
  assumes "order_inv ord" "Fill ord qty px now = Inr ord'"
  shows "order_inv ord'"
proof -
  note f = Fill_InrD [OF assms]
  from f(8) assms(1) f(1-5) show ?thesis
    by (auto simp: f(6) filled_order_def raise_def Let_def order_inv_def fill_agrees_def word_eq_sint)
qed

lemma raise_inv [simp]: "order_inv (raise e ord) = order_inv ord"
  by (simp add: raise_def order_inv_def fill_agrees_def)

lemma transition_inv:
  assumes "order_inv ord" "transition ord to now = Inr ord'" "to \<notin> {StatusPartiallyFilled, StatusFilled}"
  shows "order_inv ord'"
proof -
  have c: "canTransitionTo (o_status ord) to"
    and o: "ord' = ord\<lparr>o_status := to, o_updatedAt := now, o_version := o_version ord + 1\<rparr>"
    using assms(2) by (simp_all add: transition_Inr)
  from assms(1) have q: "0 < sint (o_quantity ord)" "fill_agrees ord"
    by (simp_all add: order_inv_def order_static_def)
  have "fill_agrees ord'"
  proof (cases "o_status ord = StatusNew")
    case True
    then show ?thesis using c q(2) by (auto simp: o canTransitionTo_iff fill_agrees_def)
  next
    case False
    then have "to \<in> {StatusCanceled, StatusExpired}" "o_status ord \<in> {StatusAccepted, StatusPartiallyFilled}"
      using c assms(3) by (auto simp: canTransitionTo_iff)
    then have "sint (o_filledQty ord) < sint (o_quantity ord)" using q by (auto simp: fill_agrees_def)
    with \<open>to \<in> {StatusCanceled, StatusExpired}\<close> show ?thesis by (auto simp: o fill_agrees_def)
  qed
  with assms(1) show ?thesis by (simp add: o order_inv_def)
qed

lemma order_exec_inv: "order_inv ord \<Longrightarrow> order_exec ord c = Inr ord' \<Longrightarrow> order_inv ord'"
proof (cases c)
  case (CFill q p t)
  then show "order_inv ord \<Longrightarrow> order_exec ord c = Inr ord' \<Longrightarrow> ?thesis" by (simp add: Fill_inv)
qed (fastforce simp: Accept_def Reject_def Cancel_def Expire_def intro: transition_inv)+

text \<open>
  What every successful method keeps of the order it mutates: the fields fixed at creation, the
  filled quantity that only grows, and one event and one version step per call.
\<close>

definition order_rel :: "Order \<Rightarrow> Order \<Rightarrow> bool" where
  "order_rel ord ord' \<longleftrightarrow>
     o_id ord' = o_id ord \<and> o_accountID ord' = o_accountID ord \<and> o_symbol ord' = o_symbol ord \<and>
     o_side ord' = o_side ord \<and> o_orderType ord' = o_orderType ord \<and> o_tif ord' = o_tif ord \<and>
     o_limitPrice ord' = o_limitPrice ord \<and> o_quantity ord' = o_quantity ord \<and>
     o_createdAt ord' = o_createdAt ord \<and>
     sint (o_filledQty ord) \<le> sint (o_filledQty ord') \<and>
     (\<exists>es. o_events ord' = o_events ord @ es \<and> o_version ord' = o_version ord + of_nat (length es)) \<and>
     (IsTerminal (o_status ord) \<longrightarrow> ord' = ord)"

lemma order_rel_refl: "order_rel ord ord"
  by (simp add: order_rel_def)

lemma order_rel_trans:
  assumes "order_rel a b" "order_rel b c"
  shows "order_rel a c"
proof -
  obtain es fs where "o_events b = o_events a @ es" "o_version b = o_version a + of_nat (length es)"
    "o_events c = o_events b @ fs" "o_version c = o_version b + of_nat (length fs)"
    using assms unfolding order_rel_def by blast
  then have "o_events c = o_events a @ (es @ fs) \<and>
      o_version c = o_version a + of_nat (length (es @ fs))" by simp
  moreover have "IsTerminal (o_status a) \<Longrightarrow> c = a" using assms unfolding order_rel_def by metis
  ultimately show ?thesis using assms unfolding order_rel_def by (metis order_trans)
qed

lemma order_exec_rel:
  assumes "order_inv ord" "order_exec ord c = Inr ord'"
  shows "order_rel ord ord'"
proof (cases c)
  case (CFill q p t)
  then have "Fill ord q p t = Inr ord'" using assms by simp
  note f = Fill_InrD [OF assms(1) this]
  from f(1,2,4) show ?thesis
    by (auto simp: f(6) filled_order_def raise_def Let_def order_rel_def working_def IsTerminal_iff)
qed (use assms in \<open>auto simp: order_op_defs order_rel_def canTransitionTo_iff IsTerminal_iff\<close>)

interpretation om: related_machine order_exec order_inv order_rel
  by unfold_locales (auto intro: order_exec_inv order_rel_refl order_rel_trans order_exec_rel)


subsection \<open>Events determine the state\<close>

text \<open>
  The state a stream of events describes: the placement fixes the order, every later event is one
  step. An event that the lifecycle cannot produce at that point makes the stream invalid.
\<close>

definition after :: "OrderStatus \<Rightarrow> Time \<Rightarrow> OrderSnapshot \<Rightarrow> OrderSnapshot" where
  "after st t s = s\<lparr>s_Status := st, s_Version := s_Version s + 1, s_UpdatedAt := t\<rparr>"

fun apply_event :: "OrderSnapshot option \<Rightarrow> Event \<Rightarrow> OrderSnapshot option" where
  "apply_event None (OrderPlaced i t acct symb side ot tif q px) =
     Some \<lparr>s_ID = i, s_AccountID = acct, s_Symbol = symb, s_Side = side, s_OrderType = ot,
           s_TIF = tif, s_LimitPrice = px, s_Quantity = q, s_FilledQty = 0, s_AvgFillPx = 0,
           s_Status = StatusNew, s_Version = 0, s_CreatedAt = t, s_UpdatedAt = t\<rparr>"
| "apply_event (Some s) (OrderAccepted i t) =
     (if s_Status s = StatusNew then Some (after StatusAccepted t s) else None)"
| "apply_event (Some s) (OrderRejected i t r) =
     (if s_Status s = StatusNew then Some (after StatusRejected t s) else None)"
| "apply_event (Some s) (OrderPartiallyFilled i t q px c avg) =
     (if working (s_Status s) \<and> c = s_FilledQty s + q
      then Some (after StatusPartiallyFilled t (s\<lparr>s_FilledQty := c, s_AvgFillPx := avg\<rparr>)) else None)"
| "apply_event (Some s) (OrderFilled i t q px avg) =
     (if working (s_Status s) \<and> s_FilledQty s + q = s_Quantity s
      then Some (after StatusFilled t (s\<lparr>s_FilledQty := s_Quantity s, s_AvgFillPx := avg\<rparr>)) else None)"
| "apply_event (Some s) (OrderCanceled i t) =
     (if working (s_Status s) then Some (after StatusCanceled t s) else None)"
| "apply_event (Some s) (OrderExpired i t) =
     (if working (s_Status s) then Some (after StatusExpired t s) else None)"
| "apply_event _ _ = None"

definition replay :: "Event list \<Rightarrow> OrderSnapshot option" where
  "replay es =
     (case es of [] \<Rightarrow> None
      | e # es \<Rightarrow> foldl (\<lambda>x e. case x of None \<Rightarrow> None | Some s \<Rightarrow> apply_event (Some s) e)
          (apply_event None e) es)"

definition sourced :: "Order \<Rightarrow> bool" where
  "sourced ord \<longleftrightarrow> order_inv ord \<and> replay (o_events ord) = Some (Snapshot ord)"

lemma replay_Nil [simp]: "replay [] = None"
  by (simp add: replay_def)

lemma replay_snoc: "replay es = Some s \<Longrightarrow> replay (es @ [e]) = apply_event (Some s) e"
  by (cases es) (auto simp: replay_def)

lemma replay_prefix: "replay (es @ [e]) \<noteq> None \<Longrightarrow> es = [] \<or> replay es \<noteq> None"
  by (cases es) (auto simp: replay_def split: option.splits)

lemma replay_single: "replay [e] = apply_event None e"
  by (simp add: replay_def)

lemma sourced_exec:
  assumes "sourced ord" "order_exec ord c = Inr ord'"
  shows "sourced ord'"
proof -
  have i: "order_inv ord" and r: "replay (o_events ord) = Some (Snapshot ord)"
    using assms(1) by (simp_all add: sourced_def)
  have "replay (o_events ord') = Some (Snapshot ord')"
  proof (cases c)
    case (CFill q p t)
    then have "Fill ord q p t = Inr ord'" using assms by simp
    note f = Fill_InrD [OF i this]
    from f(1) r show ?thesis
      by (auto simp: f(6) filled_order_def raise_def Let_def replay_snoc Snapshot_def after_def)
  qed (use assms(2) r in \<open>auto simp: order_op_defs canTransitionTo_iff replay_snoc Snapshot_def
        after_def working_def\<close>)
  with order_exec_inv [OF i assms(2)] show ?thesis by (simp add: sourced_def)
qed

lemma NewOrder_sourced:
  assumes "NewOrder oid acct symb side ot tif px q now = Inr ord"
  shows "sourced ord"
proof -
  have "replay (o_events ord) = Some (Snapshot ord)"
    using assms by (clarsimp simp: NewOrder_def raise_def replay_def Snapshot_def)
  with NewOrder_inv [OF assms] show ?thesis by (simp add: sourced_def)
qed

text \<open>
  An order as it was when it was placed: the fields fixed at creation, and nothing that has happened
  to it since. It is the order that \<open>NewOrder\<close> built, and no method and no event changes it.
\<close>

definition as_placed :: "Order \<Rightarrow> Order" where
  "as_placed ord =
     ord\<lparr>o_filledQty := 0, o_avgFillPx := 0, o_status := StatusNew, o_version := 0, o_updatedAt := o_createdAt ord,
       o_events := [OrderPlaced (o_id ord) (o_createdAt ord) (o_accountID ord) (o_symbol ord) (o_side ord)
         (o_orderType ord) (o_tif ord) (o_quantity ord) (o_limitPrice ord)]\<rparr>"

lemma as_placed_sel [simp]:
  "o_id (as_placed ord) = o_id ord" "o_status (as_placed ord) = StatusNew" "as_placed (as_placed ord) = as_placed ord"
  "as_placed (RehydrateOrder (Snapshot ord)) = as_placed ord" "as_placed (ord\<lparr>o_events := es\<rparr>) = as_placed ord"
  by (simp_all add: as_placed_def RehydrateOrder_def Snapshot_def)

lemma NewOrder_as_placed: "NewOrder oid acct symb side ot tif px q now = Inr ord \<Longrightarrow> as_placed ord = ord"
  by (auto simp: NewOrder_def raise_def as_placed_def split: if_splits)

lemma order_rel_as_placed: "order_rel ord ord' \<Longrightarrow> as_placed ord' = as_placed ord"
  by (auto simp: order_rel_def as_placed_def)

lemma apply_event_as_placed:
  "apply_event (Some s) e = Some s' \<Longrightarrow> as_placed (RehydrateOrder s') = as_placed (RehydrateOrder s)"
  by (cases e) (auto simp: after_def as_placed_def RehydrateOrder_def split: if_splits)

lemma replay_as_placed:
  "replay es = Some s \<Longrightarrow> replay (es @ fs) = Some s' \<Longrightarrow> as_placed (RehydrateOrder s') = as_placed (RehydrateOrder s)"
proof (induction fs arbitrary: s' rule: rev_induct)
  case (snoc e fs)
  then obtain s1 where s1: "replay (es @ fs) = Some s1"
    using replay_prefix [of "es @ fs" e] by fastforce
  then have "apply_event (Some s1) e = Some s'" using replay_snoc [OF s1, of e] snoc.prems(2) by simp
  from apply_event_as_placed [OF this] snoc.IH [OF snoc.prems(1) s1] show ?case by simp
qed simp

interpretation sm: command_machine order_exec sourced
  by unfold_locales (rule sourced_exec)

subsection \<open>Average price\<close>

fun fill_of :: "Event \<Rightarrow> (int \<times> int) list" where
  "fill_of (OrderPartiallyFilled i t q px c avg) = [(sint q, sint px)]"
| "fill_of (OrderFilled i t q px avg) = [(sint q, sint px)]"
| "fill_of _ = []"

definition fills :: "Event list \<Rightarrow> (int \<times> int) list" where
  "fills es = concat (map fill_of es)"

definition traded_qty :: "Event list \<Rightarrow> int" where
  "traded_qty es = sum_list (map fst (fills es))"

definition traded_notional :: "Event list \<Rightarrow> int" where
  "traded_notional es = sum_list (map (\<lambda>(q, px). px * q) (fills es))"

lemma fill_sums_append [simp]:
  "fills (es @ fs) = fills es @ fills fs"
  "traded_qty (es @ fs) = traded_qty es + traded_qty fs"
  "traded_notional (es @ fs) = traded_notional es + traded_notional fs"
  by (simp_all add: fills_def traded_qty_def traded_notional_def)

lemma abs_error_sum:
  assumes "2 * \<bar>a - x\<bar> \<le> (d1 :: int)" "2 * \<bar>b - y\<bar> \<le> d2" "2 * \<bar>c - (a + b)\<bar> \<le> d3"
  shows "2 * \<bar>c - (x + y)\<bar> \<le> d1 + d2 + d3"
proof -
  have "\<bar>c - (x + y)\<bar> \<le> \<bar>c - (a + b)\<bar> + (\<bar>a - x\<bar> + \<bar>b - y\<bar>)" by arith
  with assms show ?thesis by simp
qed

lemma abs_error_step:
  assumes "2 * \<bar>c - (x + y)\<bar> \<le> 2000 + (f :: int)" "2 * \<bar>x - n\<bar> \<le> b" "f \<le> q"
  shows "2 * \<bar>c - (n + y)\<bar> \<le> b + (2000 + q)"
proof -
  have "\<bar>c - (n + y)\<bar> \<le> \<bar>c - (x + y)\<bar> + \<bar>x - n\<bar>" by arith
  with assms show ?thesis by simp
qed

lemma fill_avg_error:
  assumes "0 < filled + qty"
  shows "2 * \<bar>fill_avg avg filled px qty * (filled + qty) - (avg * filled + px * qty)\<bar>
      \<le> 2000 + (filled + qty)"
proof -
  let ?n1 = "round_half_away (avg * filled) 1000" and ?n2 = "round_half_away (px * qty) 1000"
  have e1: "2 * \<bar>?n1 * 1000 - avg * filled\<bar> \<le> 1000"
    and e2: "2 * \<bar>?n2 * 1000 - px * qty\<bar> \<le> 1000"
    using round_half_away_error [of 1000] by auto
  have "2 * \<bar>fill_avg avg filled px qty * (filled + qty) - (?n1 + ?n2) * 1000\<bar> \<le> filled + qty"
    using round_half_away_error [of "filled + qty" "(?n1 + ?n2) * 1000"] assms
    by (simp add: fill_avg_def)
  then have "2 * \<bar>fill_avg avg filled px qty * (filled + qty) - (?n1 * 1000 + ?n2 * 1000)\<bar>
      \<le> filled + qty" by (simp add: distrib_right)
  from abs_error_sum [OF e1 e2 this] show ?thesis by simp
qed

definition vwap_inv :: "Order \<Rightarrow> bool" where
  "vwap_inv ord \<longleftrightarrow> order_inv ord \<and>
     sint (o_filledQty ord) = traded_qty (o_events ord) \<and>
     2 * \<bar>sint (o_avgFillPx ord) * sint (o_filledQty ord) - traded_notional (o_events ord)\<bar>
       \<le> int (length (fills (o_events ord))) * (2000 + sint (o_quantity ord))"

lemma filled_order_sel:
  "o_filledQty (filled_order ord q p t) = o_filledQty ord + q"
  "o_quantity (filled_order ord q p t) = o_quantity ord"
  "fills (o_events (filled_order ord q p t)) = fills (o_events ord) @ [(sint q, sint p)]"
  by (simp_all add: filled_order_def raise_def Let_def) (simp_all add: fills_def)

lemma vwap_fill:
  assumes "vwap_inv ord" "Fill ord q p t = Inr ord'"
  shows "vwap_inv ord'"
proof -
  have i: "order_inv ord" using assms(1) by (simp add: vwap_inv_def)
  note f = Fill_InrD [OF i assms(2)]
  let ?f = "sint (o_filledQty ord)" and ?a = "sint (o_avgFillPx ord)"
  let ?N = "traded_notional (o_events ord)" and ?Q = "sint (o_quantity ord)"
  have F: "0 < ?f + sint q" using order_inv_nonneg [OF i] f(2) by simp
  have n': "traded_notional (o_events ord') = ?N + sint p * sint q"
    "traded_qty (o_events ord') = traded_qty (o_events ord) + sint q"
    by (simp_all add: f(6) traded_notional_def traded_qty_def filled_order_sel)
  have "2 * \<bar>fill_avg ?a ?f (sint p) (sint q) * (?f + sint q) - (?a * ?f + sint p * sint q)\<bar>
      \<le> 2000 + (?f + sint q)" by (rule fill_avg_error [OF F])
  moreover have "2 * \<bar>?a * ?f - ?N\<bar> \<le> int (length (fills (o_events ord))) * (2000 + ?Q)"
    using assms(1) unfolding vwap_inv_def by blast
  ultimately have "2 * \<bar>fill_avg ?a ?f (sint p) (sint q) * (?f + sint q) - (?N + sint p * sint q)\<bar>
      \<le> int (length (fills (o_events ord))) * (2000 + ?Q) + (2000 + ?Q)"
    using f(5) by (rule abs_error_step)
  then have "2 * \<bar>sint (o_avgFillPx ord') * sint (o_filledQty ord') - traded_notional (o_events ord')\<bar>
      \<le> int (length (fills (o_events ord'))) * (2000 + sint (o_quantity ord'))"
    unfolding f(7) n' unfolding f(6) filled_order_sel f(4) by (simp add: algebra_simps)
  moreover have "sint (o_filledQty ord') = traded_qty (o_events ord')"
    using assms(1) f(4) by (simp add: f(6) filled_order_sel vwap_inv_def traded_qty_def)
  ultimately show ?thesis using Fill_inv [OF i assms(2)] by (simp add: vwap_inv_def)
qed

lemma vwap_exec:
  assumes "vwap_inv ord" "order_exec ord c = Inr ord'"
  shows "vwap_inv ord'"
proof (cases c)
  case (CFill q p t)
  then show ?thesis using assms vwap_fill by simp
qed (use assms order_exec_inv [OF _ assms(2)] in
    \<open>auto simp: order_op_defs vwap_inv_def fills_def traded_qty_def traded_notional_def\<close>)

lemma NewOrder_vwap: "NewOrder oid acct symb side ot tif px q now = Inr ord \<Longrightarrow> vwap_inv ord"
  using NewOrder_inv [of oid acct symb side ot tif px q now ord]
  by (clarsimp simp: NewOrder_def raise_def vwap_inv_def traded_qty_def traded_notional_def fills_def)

interpretation vm: command_machine order_exec vwap_inv
  by unfold_locales (rule vwap_exec)


subsection \<open>Properties\<close>

text \<open>
  C4. The order invariant holds after every run of commands on a new order, whatever the commands
  and whether they succeed: the quantity is positive, the filled quantity lies between zero and
  the ordered quantity, the average price is not negative, limit and market orders carry the price
  they must, and the status agrees with the filled quantity (a \<open>FILLED\<close> order is filled exactly,
  a \<open>PARTIALLY_FILLED\<close> one strictly between, a new, accepted or rejected one not at all).
\<close>

theorem order_invariant_always:
  assumes "NewOrder oid acct symb side ot tif px q now = Inr ord"
  shows "order_inv (run_cmds order_exec ord cmds)"
  using NewOrder_inv [OF assms] by (rule om.run_inv)

text \<open>A buy limit order of 10 shares at 150 dollars, used by the witnesses.\<close>

definition sample_order :: Order where
  "sample_order =
     projr (NewOrder ''ord-1'' ''acct-1'' ''AAPL'' SideBuy OrderTypeLimit TIFDay 1500000 10000 5)"

lemma sample_order:
  "NewOrder ''ord-1'' ''acct-1'' ''AAPL'' SideBuy OrderTypeLimit TIFDay 1500000 10000 5 =
     Inr sample_order"
proof -
  have "is_ok (NewOrder ''ord-1'' ''acct-1'' ''AAPL'' SideBuy OrderTypeLimit TIFDay 1500000 10000 5)"
    by code_simp
  then show ?thesis by (auto simp: sample_order_def is_ok_iff)
qed

theorem order_invariant_always_witness:
  "order_inv (run_cmds order_exec sample_order [CAccept 6, CFill 4000 1500000 7, CCancel 8])"
  by (rule order_invariant_always [OF sample_order])



text \<open>
  C17. The events are the source of truth: after any run of commands on a new order, replaying
  the buffered events from nothing yields exactly the order's snapshot, with every field,
  version and timestamp included.
\<close>

theorem events_reconstruct_order:
  assumes "NewOrder oid acct symb side ot tif px q now = Inr ord"
  shows "replay (o_events (run_cmds order_exec ord cmds)) =
    Some (Snapshot (run_cmds order_exec ord cmds))"
  using sm.run_inv [OF NewOrder_sourced [OF assms]] by (simp add: sourced_def)

theorem events_reconstruct_order_witness:
  "replay (o_events (run_cmds order_exec sample_order [CAccept 6, CFill 4000 1500000 7])) =
     Some (Snapshot (run_cmds order_exec sample_order [CAccept 6, CFill 4000 1500000 7]))"
  by (rule events_reconstruct_order [OF sample_order])

text \<open>
  C16. What a fill does on every branch, for an order that satisfies the invariant: the first
  failing check in the order of the code decides the error; otherwise the filled quantity grows by
  the quantity of the fill, the average price becomes \<open>fill_avg\<close>, the order moves to \<open>FILLED\<close>
  exactly if nothing remains and to \<open>PARTIALLY_FILLED\<close> otherwise, the version grows by one and
  the matching event is buffered.
\<close>

theorem fill_behaviour:
  assumes "order_inv ord"
  shows "Fill ord qty px now =
     (if \<not> working (o_status ord) then Inl ErrInvalidTransition
      else if sint qty \<le> 0 then Inl ErrInvalidQuantity
      else if sint px \<le> 0 then Inl ErrFillPrice
      else if \<not> in_i64 (sint (o_filledQty ord) + sint qty) then Inl ErrOverflow
      else if sint (o_quantity ord) < sint (o_filledQty ord) + sint qty then Inl ErrOverfill
      else if \<not> notionals_fit (sint (o_avgFillPx ord)) (sint (o_filledQty ord)) (sint px) (sint qty)
      then Inl ErrOverflow
      else Inr (filled_order ord qty px now))"
  using assms by (rule Fill_order_inv)

theorem fill_behaviour_witness:
  "is_ok (Fill (run_cmds order_exec sample_order [CAccept 6]) 4000 1500000 7) \<and>
   Fill (run_cmds order_exec sample_order [CAccept 6]) 10001 1500000 7 = Inl ErrOverfill"
proof -
  have i: "order_inv (run_cmds order_exec sample_order [CAccept 6])"
    using om.run_inv [OF NewOrder_inv [OF sample_order]] .
  have s: "working (o_status (run_cmds order_exec sample_order [CAccept 6]))"
    "o_filledQty (run_cmds order_exec sample_order [CAccept 6]) = 0"
    "o_avgFillPx (run_cmds order_exec sample_order [CAccept 6]) = 0"
    "o_quantity (run_cmds order_exec sample_order [CAccept 6]) = 10000"
    by code_simp+
  have n: "notionals_fit 0 0 1500000 4000" by code_simp
  show ?thesis
    using s n fill_behaviour [OF i, of 4000 1500000 7] fill_behaviour [OF i, of 10001 1500000 7]
    by (simp add: in_i64_def)
qed

text \<open>
  C20. How far the stored average price can drift: after any run of commands on a new order with
  \<open>n\<close> executions, the stored average times the filled quantity differs from the exact sum of
  \<open>price * quantity\<close> over the executions by at most \<open>n * (1000 + quantity / 2)\<close> (in units of
  1/10000 dollar times 1/1000 share), and the filled quantity is exactly the sum of the fills.
\<close>

theorem average_price_drift:
  assumes "NewOrder oid acct symb side ot tif px q now = Inr ord"
  shows "let ord' = run_cmds order_exec ord cmds in
    sint (o_filledQty ord') = traded_qty (o_events ord') \<and>
    2 * \<bar>sint (o_avgFillPx ord') * sint (o_filledQty ord') - traded_notional (o_events ord')\<bar>
       \<le> int (length (fills (o_events ord'))) * (2000 + sint (o_quantity ord'))"
  using vm.run_inv [OF NewOrder_vwap [OF assms(1)], of cmds] unfolding vwap_inv_def Let_def by blast

theorem average_price_drift_witness:
  "sint (o_filledQty (run_cmds order_exec sample_order [CAccept 6, CFill 5000 1500000 7, CFill 5000 1520000 8])) =
     traded_qty (o_events (run_cmds order_exec sample_order [CAccept 6, CFill 5000 1500000 7, CFill 5000 1520000 8])) \<and>
   sint (o_avgFillPx (run_cmds order_exec sample_order [CAccept 6, CFill 5000 1500000 7, CFill 5000 1520000 8])) = 1510000"
proof
  show "sint (o_filledQty (run_cmds order_exec sample_order [CAccept 6, CFill 5000 1500000 7, CFill 5000 1520000 8])) =
     traded_qty (o_events (run_cmds order_exec sample_order [CAccept 6, CFill 5000 1500000 7, CFill 5000 1520000 8]))"
    using average_price_drift [OF sample_order] unfolding Let_def by blast
  show "sint (o_avgFillPx (run_cmds order_exec sample_order [CAccept 6, CFill 5000 1500000 7, CFill 5000 1520000 8])) = 1510000"
    by code_simp
qed

text \<open>
  The average is not rounded once, as the formula for it says, but after each notional has
  been rounded to 1/10000 dollar: one execution of 0.001 shares at 1.2345 dollars leaves an
  average price of 1.2000 dollars.
\<close>

theorem single_fill_average_differs:
  "map_sum id o_avgFillPx
     (Fill (run_cmds order_exec sample_order [CAccept 6]) 1 12345 7) = Inr 12000"
  by code_simp

text \<open>
  What every run of commands keeps: the identity, account, symbol, side, type, policy,
  prices and quantity set at creation never change, the filled quantity never shrinks, the events
  are only appended to, and the version counts them: it advances by one per appended event.
\<close>

theorem order_history_append_only:
  assumes "order_inv ord"
  shows "order_rel ord (run_cmds order_exec ord cmds)"
  using assms by (rule om.run_rel)

theorem order_history_append_only_witness:
  "order_rel sample_order (run_cmds order_exec sample_order [CAccept 6, CFill 4000 1500000 7])"
  by (rule order_history_append_only [OF NewOrder_inv [OF sample_order]])

text \<open>
  Persistence is faithful: rehydrating a snapshot gives back the order with an empty event
  buffer, and the snapshot of a rehydrated order is the snapshot; pulling the events returns all
  of them once and leaves the rest of the order as it was.
\<close>

theorem snapshot_roundtrip:
  "RehydrateOrder (Snapshot ord) = ord\<lparr>o_events := []\<rparr> \<and> Snapshot (RehydrateOrder s) = s \<and>
   PullEvents ord = (o_events ord, RehydrateOrder (Snapshot ord))"
  by (simp add: RehydrateOrder_def Snapshot_def PullEvents_def)

end
