(* ===== verification/Ports.thy ===== *)
theory Ports
  imports Order "HOL-Library.AList"
begin

section \<open>Ports (internal/ports/ports.go)\<close>

text \<open>
  The values that cross the ports, and the contracts of the ports as locales. A locale fixes the
  operations a client calls and an abstract reading of the provider's state, and assumes the laws
  the comments of the interface promise; the lemmas inside hold for every provider. The providers
  (\<open>Repository\<close>, \<open>Risk\<close>, \<open>System_Adapters\<close>, \<open>Service\<close>, \<open>Event_Bus\<close>, \<open>Venue\<close>, \<open>Read_Model\<close>) interpret them
  on their own definitions. The clock has no law: its answers are arbitrary.
\<close>

record RiskDecision =
  Approved :: bool
  Reason :: string
  Score :: int64

record PositionView =
  pv_AccountID :: string
  pv_Symbol :: string
  pv_NetQty :: string
  pv_AvgPrice :: string

text \<open>The adapters keep Go maps as association lists with distinct keys.\<close>

lemma set_AList_update: "x \<in> set (AList.update k v al) \<Longrightarrow> x = (k, v) \<or> x \<in> set al"
  by (induction al) (auto split: if_splits)

subsection \<open>The order repository\<close>

text \<open>
  \<open>stored r\<close> is the partial map from order ids to persisted snapshots, \<open>keys r\<close> the one from
  idempotency keys to order ids. The laws are those of the interface: \<open>Save\<close> stores a new order
  and registers its key if it has one, and refuses an id that is taken; \<open>Update\<close> stores an order
  exactly if the persisted version is the expected one; \<open>Get\<close> and \<open>FindByIdempotencyKey\<close> read.
\<close>

locale order_repository =
  fixes inv :: "'r \<Rightarrow> bool"
    and stored :: "'r \<Rightarrow> string \<rightharpoonup> OrderSnapshot"
    and keys :: "'r \<Rightarrow> string \<rightharpoonup> string"
    and save :: "'r \<Rightarrow> Order \<Rightarrow> string \<Rightarrow> 'r result"
    and update :: "'r \<Rightarrow> Order \<Rightarrow> int64 \<Rightarrow> 'r result"
    and get :: "'r \<Rightarrow> string \<Rightarrow> Order result"
    and find :: "'r \<Rightarrow> string \<Rightarrow> string option"
  assumes save_dup: "inv r \<Longrightarrow> stored r (o_id x) \<noteq> None \<Longrightarrow> save r x k = Inl ErrDuplicate"
    and save_new: "inv r \<Longrightarrow> stored r (o_id x) = None \<Longrightarrow>
      \<exists>r'. save r x k = Inr r' \<and> inv r' \<and> stored r' = (stored r)(o_id x \<mapsto> Snapshot x) \<and>
        keys r' = (if k = [] then keys r else (keys r)(k \<mapsto> o_id x))"
    and update_missing: "inv r \<Longrightarrow> stored r (o_id x) = None \<Longrightarrow> update r x v = Inl ErrNotFound"
    and update_stale: "inv r \<Longrightarrow> stored r (o_id x) = Some s \<Longrightarrow> s_Version s \<noteq> v \<Longrightarrow>
      update r x v = Inl ErrVersionConflict"
    and update_ok: "inv r \<Longrightarrow> stored r (o_id x) = Some s \<Longrightarrow> s_Version s = v \<Longrightarrow>
      \<exists>r'. update r x v = Inr r' \<and> inv r' \<and> stored r' = (stored r)(o_id x \<mapsto> Snapshot x) \<and>
        keys r' = keys r"
    and get_eq: "inv r \<Longrightarrow>
      get r i = (case stored r i of None \<Rightarrow> Inl ErrNotFound | Some s \<Rightarrow> Inr (RehydrateOrder s))"
    and find_eq: "inv r \<Longrightarrow> find r k = keys r k"
begin

lemma save_Inr:
  assumes "inv r" "save r x k = Inr r'"
  shows "stored r (o_id x) = None" "inv r'" "stored r' = (stored r)(o_id x \<mapsto> Snapshot x)"
    "keys r' = (if k = [] then keys r else (keys r)(k \<mapsto> o_id x))"
proof -
  show n: "stored r (o_id x) = None" using assms save_dup by fastforce
  from save_new [OF assms(1) n, of k] assms(2)
  show "inv r'" "stored r' = (stored r)(o_id x \<mapsto> Snapshot x)"
    "keys r' = (if k = [] then keys r else (keys r)(k \<mapsto> o_id x))" by auto
qed

lemma update_Inr:
  assumes "inv r" "update r x v = Inr r'"
  shows "\<exists>s. stored r (o_id x) = Some s \<and> s_Version s = v" "inv r'"
    "stored r' = (stored r)(o_id x \<mapsto> Snapshot x)" "keys r' = keys r"
proof -
  show s: "\<exists>s. stored r (o_id x) = Some s \<and> s_Version s = v"
    using assms update_missing update_stale by (cases "stored r (o_id x)") fastforce+
  then obtain s where "stored r (o_id x) = Some s" "s_Version s = v" by blast
  from update_ok [OF assms(1) this] assms(2)
  show "inv r'" "stored r' = (stored r)(o_id x \<mapsto> Snapshot x)" "keys r' = keys r" by auto
qed

text \<open>An order that was saved or updated is read back, with an empty event buffer.\<close>

lemma get_after_save:
  "inv r \<Longrightarrow> save r x k = Inr r' \<Longrightarrow> get r' (o_id x) = Inr (x\<lparr>o_events := []\<rparr>)"
  using save_Inr [of r x k r'] by (simp add: get_eq RehydrateOrder_def Snapshot_def)

lemma get_after_update:
  "inv r \<Longrightarrow> update r x v = Inr r' \<Longrightarrow> get r' (o_id x) = Inr (x\<lparr>o_events := []\<rparr>)"
  using update_Inr [of r x v r'] by (simp add: get_eq RehydrateOrder_def Snapshot_def)

text \<open>Other orders are not affected.\<close>

lemma get_other_after_update:
  "inv r \<Longrightarrow> update r x v = Inr r' \<Longrightarrow> i \<noteq> o_id x \<Longrightarrow> get r' i = get r i"
  using update_Inr [of r x v r'] by (simp add: get_eq)

text \<open>
  Optimistic concurrency: when two writers have read the same version of an order, the second
  one to write back is refused, provided the first write changed the version.
\<close>

lemma second_writer_conflicts:
  assumes "inv r" "update r x v = Inr r'" "o_version x \<noteq> v" "o_id y = o_id x"
  shows "update r' y v = Inl ErrVersionConflict"
proof -
  note u = update_Inr [OF assms(1,2)]
  have "stored r' (o_id y) = Some (Snapshot x)" using u(3) assms(4) by simp
  then show ?thesis using u(2) assms(3) by (intro update_stale) (auto simp: Snapshot_def)
qed

end

text \<open>
  \<open>List\<close>, which reads in the order of creation times: a prefix of all stored orders, newest first, if the
  limit is positive, else all of them.
\<close>

definition newest_first :: "OrderSnapshot list \<Rightarrow> bool" where
  "newest_first xs \<longleftrightarrow> sorted_wrt (\<lambda>x y. s_CreatedAt y \<le> s_CreatedAt x) xs"

lemma newest_first_take: "newest_first xs \<Longrightarrow> newest_first (take n xs)"
  by (simp add: newest_first_def sorted_wrt_take)

lemma newest_first_dropped:
  "newest_first xs \<Longrightarrow> x \<in> set (take n xs) \<Longrightarrow> y \<in> set (drop n xs) \<Longrightarrow> s_CreatedAt y \<le> s_CreatedAt x"
proof -
  assume a: "newest_first xs" "x \<in> set (take n xs)" "y \<in> set (drop n xs)"
  then have "newest_first (take n xs @ drop n xs)" by simp
  with a(2,3) show ?thesis unfolding newest_first_def sorted_wrt_append by blast
qed

locale order_listing =
  fixes inv :: "'r \<Rightarrow> bool"
    and stored :: "'r \<Rightarrow> string \<rightharpoonup> OrderSnapshot"
    and list :: "'r \<Rightarrow> int64 \<Rightarrow> Order list result"
  assumes list_eq: "inv r \<Longrightarrow>
      \<exists>all. list r limit = Inr (map RehydrateOrder (if 0 < sint limit then take (nat (sint limit)) all else all)) \<and>
        newest_first all \<and> distinct (map s_ID all) \<and> set all = ran (stored r)"
begin

lemma list_newest:
  assumes "inv r"
  shows "\<exists>xs. list r limit = Inr (map RehydrateOrder xs) \<and>
    length xs = (let n = card (ran (stored r)) in if 0 < sint limit then min (nat (sint limit)) n else n) \<and>
    distinct (map s_ID xs) \<and> newest_first xs \<and> set xs \<subseteq> ran (stored r) \<and>
    (\<forall>x \<in> set xs. \<forall>y \<in> ran (stored r) - set xs. s_CreatedAt y \<le> s_CreatedAt x)"
proof -
  obtain all where a: "list r limit = Inr (map RehydrateOrder (if 0 < sint limit then take (nat (sint limit)) all else all))"
    "newest_first all" "distinct (map s_ID all)" "set all = ran (stored r)" using list_eq [OF assms] by blast
  define k where "k = (if 0 < sint limit then nat (sint limit) else length all)"
  have t: "list r limit = Inr (map RehydrateOrder (take k all))" by (simp add: a(1) k_def)
  have "card (ran (stored r)) = length all"
    using a(3) distinct_card [of all] by (simp add: a(4) [symmetric] distinct_map)
  then have n: "length (take k all) = (let n = card (ran (stored r)) in if 0 < sint limit then min (nat (sint limit)) n else n)"
    by (simp add: k_def Let_def min.commute)
  have "s_CreatedAt y \<le> s_CreatedAt x" if "x \<in> set (take k all)" "y \<in> ran (stored r) - set (take k all)" for x y
  proof -
    have "y \<in> set (take k all @ drop k all)" using that(2) a(4) by simp
    then have "y \<in> set (drop k all)" using that(2) unfolding set_append by blast
    then show ?thesis using newest_first_dropped [OF a(2) that(1)] by blast
  qed
  moreover have "distinct (map s_ID (take k all))" using a(3) by (simp add: take_map [symmetric])
  moreover have "set (take k all) \<subseteq> ran (stored r)" using set_take_subset a(4) by fastforce
  ultimately show ?thesis using t n newest_first_take [OF a(2)] by blast
qed

end

subsection \<open>Risk gates\<close>

text \<open>
  A risk gate judges an order. The law every analyser of the program keeps: a rejection gives a
  reason and an approval none, so the reason tells the two apart. \<open>limit\<close> is the gate's score
  limit and the decision is the comparison of the score with it.
\<close>

locale risk_gate =
  fixes check :: "Order \<Rightarrow> RiskDecision result"
    and limit :: int64
  assumes check_total: "is_ok (check x)"
    and approved_iff: "check x = Inr d \<Longrightarrow> Approved d \<longleftrightarrow> Score d <s limit"
    and reason_iff: "check x = Inr d \<Longrightarrow> Reason d = [] \<longleftrightarrow> Approved d"
begin

lemma check_cases:
  obtains d where "check x = Inr d" "Approved d" "Reason d = []" "Score d <s limit"
  | d where "check x = Inr d" "\<not> Approved d" "Reason d \<noteq> []" "\<not> Score d <s limit"
  using check_total [of x] approved_iff [of x] reason_iff [of x] by (auto simp: is_ok_iff)

end

subsection \<open>Identifiers, events, venues, positions\<close>

text \<open>
  An id generator answers the n-th question with an id; over a source that is \<open>sound\<close>, no id comes
  twice.
\<close>

locale id_generator =
  fixes sound :: "'u \<Rightarrow> bool"
    and new_id :: "'u \<Rightarrow> nat \<Rightarrow> string"
  assumes new_id_fresh: "sound u \<Longrightarrow> i \<noteq> j \<Longrightarrow> new_id u i \<noteq> new_id u j"
begin

lemma never_drawn_before: "sound u \<Longrightarrow> i \<in> new_id u ` {..<n} \<Longrightarrow> n \<le> m \<Longrightarrow> new_id u m \<noteq> i"
  using new_id_fresh by fastforce

end

text \<open>A publisher that accepts events adds each batch to its log, in the order of the calls.\<close>

locale event_publisher =
  fixes accepts :: "'p \<Rightarrow> bool"
    and log :: "'p \<Rightarrow> Event list list"
    and publish :: "Event list \<Rightarrow> 'p \<Rightarrow> 'p"
  assumes publish_log: "accepts p \<Longrightarrow> log (publish es p) = log p @ [es]"
    and publish_accepts: "accepts p \<Longrightarrow> accepts (publish es p)"
begin

lemma publish_all: "accepts p \<Longrightarrow> log (fold publish ess p) = log p @ ess"
  by (induction ess arbitrary: p) (simp_all add: publish_log publish_accepts)

end

text \<open>
  A venue records an order exactly if the call succeeds, and reaches the application that called it
  only through the callback for executions, a \<open>Filler\<close>.
\<close>

type_synonym 'c Filler = "string \<Rightarrow> Quantity \<Rightarrow> Money \<Rightarrow> 'c \<Rightarrow> 'c"

locale venue_port =
  fixes route :: "Order \<Rightarrow> 'v \<times> 'c \<Rightarrow> unit result \<times> 'v \<times> 'c"
    and filler :: "'v \<Rightarrow> 'c Filler option"
    and routed :: "'v \<Rightarrow> string list"
  assumes route_filler: "filler (fst (snd (route x (v, c)))) = filler v"
    and route_records: "routed (fst (snd (route x (v, c)))) =
      routed v @ (if is_ok (fst (route x (v, c))) then [o_id x] else [])"
    and route_reaches: "snd (snd (route x (v, c))) = c \<or>
      (\<exists>f q px. filler v = Some f \<and> snd (snd (route x (v, c))) = f (o_id x) q px c)"
begin

lemma route_keeps:
  assumes "\<forall>f i q px c. filler v = Some f \<longrightarrow> R c (f i q px c)" "R c c"
  shows "R c (snd (snd (route x (v, c))))"
  using route_reaches [of x v c] assms by fastforce

end

text \<open>
  A read model shows one row per symbol in which the account has a position, with its net quantity.
\<close>

locale position_read_model =
  fixes inv :: "'m \<Rightarrow> bool"
    and net :: "'m \<Rightarrow> string \<Rightarrow> string \<rightharpoonup> Quantity"
    and positions :: "'m \<Rightarrow> string \<Rightarrow> PositionView list result"
  assumes positions_rows: "inv m \<Longrightarrow> \<exists>rows. positions m acct = Inr rows \<and> distinct (map pv_Symbol rows) \<and>
      pv_Symbol ` set rows = dom (net m acct) \<and>
      (\<forall>row \<in> set rows. pv_AccountID row = acct \<and>
         map_option Quantity_String (net m acct (pv_Symbol row)) = Some (pv_NetQty row))"
begin

text \<open>A client that knows the net quantities, with zero for no position, knows the rows.\<close>

lemma rows_of:
  assumes "inv m" "\<And>symb. (case net m acct symb of None \<Rightarrow> 0 | Some q \<Rightarrow> q) = f symb"
  shows "\<exists>rows. positions m acct = Inr rows \<and> distinct (map pv_Symbol rows) \<and>
    (\<forall>row \<in> set rows. pv_AccountID row = acct \<and> pv_NetQty row = Quantity_String (f (pv_Symbol row))) \<and>
    (\<forall>symb. symb \<notin> pv_Symbol ` set rows \<longrightarrow> f symb = 0)"
proof -
  obtain rows where r: "positions m acct = Inr rows" "distinct (map pv_Symbol rows)"
    "pv_Symbol ` set rows = dom (net m acct)"
    "\<forall>row \<in> set rows. pv_AccountID row = acct \<and>
       map_option Quantity_String (net m acct (pv_Symbol row)) = Some (pv_NetQty row)"
    using positions_rows [OF assms(1)] by blast
  have "pv_NetQty row = Quantity_String (f (pv_Symbol row))" if "row \<in> set rows" for row
    using r(4) that assms(2) [of "pv_Symbol row"] by auto
  moreover have "f symb = 0" if "symb \<notin> pv_Symbol ` set rows" for symb
    using that assms(2) [of symb] unfolding r(3) by (auto simp: domIff)
  ultimately show ?thesis using r(1,2,4) by blast
qed

end

end
