(* ===== verification/Repository.thy ===== *)
theory Repository
  imports Ports "HOL-Library.Multiset"
begin

section \<open>The sharded order repository (internal/adapters/memory/repository.go)\<close>

text \<open>
  A shard's Go map is an association list with distinct keys, the repository a list of shards
  with the hash mask and the idempotency index. Locks are not part of the sequential model: each
  operation here is one critical section of the code (\<open>Save\<close> two, the shard's and the index's).
  The order in which Go enumerates maps, and the order in which \<open>sort.Slice\<close> leaves equal
  elements, are not specified: \<open>List_orders\<close> takes that choice as the argument \<open>shuffle\<close>.
  \<open>nextPow2\<close> is a loop over \<open>int\<close> that need not end, so it returns an option. \<open>make\<close> panics for a length
  that the host cannot allocate; the largest length that it can is the parameter \<open>max_len\<close> of
  \<open>NewOrderRepository\<close>, which thus hangs (\<open>None\<close>), panics (\<open>Inl\<close>) or returns a repository (\<open>Inr\<close>).
\<close>

unbundle bit_operations_syntax

type_synonym orderShard = "(string \<times> OrderSnapshot) list"

record OrderRepository =
  shards :: "orderShard list"
  mask :: uint64
  idem :: "(string \<times> string) list"

partial_function (option) nextPow2_loop :: "int64 \<Rightarrow> int64 \<Rightarrow> int64 option" where
  "nextPow2_loop p n = (if p <s n then nextPow2_loop (push_bit 1 p) n else Some p)"

declare nextPow2_loop.simps [code]

definition nextPow2 :: "int64 \<Rightarrow> int64 option" where
  "nextPow2 n = (if n <s 1 then Some 1 else nextPow2_loop 1 n)"

definition NewOrderRepository :: "int \<Rightarrow> int64 \<Rightarrow> OrderRepository result option" where
  "NewOrderRepository max_len requestedShards =
     (case nextPow2 requestedShards of
        None \<Rightarrow> None
      | Some n \<Rightarrow>
          Some (if max_len < sint n then Inl (ErrText ''makeslice: len out of range'')
                else Inr \<lparr>shards = replicate (nat (sint n)) [], mask = n - 1, idem = []\<rparr>))"

text \<open>FNV-1a with 64 bits, as \<open>hash/fnv.New64a\<close> computes it.\<close>

definition fnv64a :: "string \<Rightarrow> uint64" where
  "fnv64a s = foldl (\<lambda>h c. (h XOR of_char c) * 1099511628211) 14695981039346656037 s"

definition shardFor :: "OrderRepository \<Rightarrow> string \<Rightarrow> nat" where
  "shardFor r i = unat (fnv64a i AND mask r)"

definition Save :: "OrderRepository \<Rightarrow> Order \<Rightarrow> string \<Rightarrow> OrderRepository result" where
  "Save r ord idempotencyKey =
     (let snap = Snapshot ord;
          i = shardFor r (s_ID snap);
          sh = shards r ! i
      in if map_of sh (s_ID snap) \<noteq> None then Inl ErrDuplicate
         else (let r1 = r\<lparr>shards := (shards r)[i := AList.update (s_ID snap) snap sh]\<rparr>
               in Inr (if idempotencyKey \<noteq> []
                       then r1\<lparr>idem := AList.update idempotencyKey (s_ID snap) (idem r1)\<rparr>
                       else r1)))"

definition Update :: "OrderRepository \<Rightarrow> Order \<Rightarrow> int64 \<Rightarrow> OrderRepository result" where
  "Update r ord expectedVersion =
     (let snap = Snapshot ord;
          i = shardFor r (s_ID snap);
          sh = shards r ! i
      in case map_of sh (s_ID snap) of
           None \<Rightarrow> Inl ErrNotFound
         | Some cur \<Rightarrow>
             if s_Version cur \<noteq> expectedVersion then Inl ErrVersionConflict
             else Inr (r\<lparr>shards := (shards r)[i := AList.update (s_ID snap) snap sh]\<rparr>))"

definition Get :: "OrderRepository \<Rightarrow> string \<Rightarrow> Order result" where
  "Get r i =
     (case map_of (shards r ! shardFor r i) i of
        None \<Rightarrow> Inl ErrNotFound
      | Some snap \<Rightarrow> Inr (RehydrateOrder snap))"

definition FindByIdempotencyKey :: "OrderRepository \<Rightarrow> string \<Rightarrow> string option" where
  "FindByIdempotencyKey r key = map_of (idem r) key"

fun insert_newest :: "OrderSnapshot \<Rightarrow> OrderSnapshot list \<Rightarrow> OrderSnapshot list" where
  "insert_newest s [] = [s]"
| "insert_newest s (x # xs) =
     (if time_After (s_CreatedAt x) (s_CreatedAt s) then x # insert_newest s xs else s # x # xs)"

fun sort_newest :: "OrderSnapshot list \<Rightarrow> OrderSnapshot list" where
  "sort_newest [] = []"
| "sort_newest (s # xs) = insert_newest s (sort_newest xs)"

definition List_orders ::
  "(OrderSnapshot list \<Rightarrow> OrderSnapshot list) \<Rightarrow> OrderRepository \<Rightarrow> int64 \<Rightarrow> Order list result" where
  "List_orders shuffle r limit =
     (let snaps = sort_newest (shuffle (concat (map (map snd) (shards r))));
          snaps = (if 0 <s limit \<and> sint limit < int (length snaps)
                   then take (nat (sint limit)) snaps else snaps)
      in Inr (map RehydrateOrder snaps))"

subsection \<open>The shard count\<close>

lemma sint_push_bit1: "0 \<le> sint p \<Longrightarrow> sint p < 2 ^ 62 \<Longrightarrow> sint (push_bit 1 p :: int64) = 2 * sint p"
proof -
  assume a: "0 \<le> sint p" "sint p < 2 ^ 62"
  have "push_bit 1 p = p * 2" by (simp add: push_bit_eq_mult)
  moreover have "sint (2 :: int64) = 2" by simp
  ultimately show ?thesis using a sint_mult_in [of p 2] by (simp add: in_i64_def)
qed

lemma sint_pow2: "k \<le> 62 \<Longrightarrow> sint (2 ^ k :: int64) = 2 ^ k"
proof -
  assume "k \<le> 62"
  then have "(2 :: int) ^ k \<le> 2 ^ 62" by (intro power_increasing) auto
  then have "in_i64 (2 ^ k)" by (simp add: in_i64_nonneg)
  then show ?thesis using sint_word_of_int_id [of "2 ^ k"] by simp
qed

lemma push_bit_pow2: "push_bit 1 (2 ^ k :: int64) = 2 ^ Suc k"
  by (simp add: push_bit_eq_mult)

lemma nextPow2_loop_returns:
  "k + d = 62 \<Longrightarrow> sint n \<le> 2 ^ 62 \<Longrightarrow>
   \<exists>j\<ge>k. j \<le> 62 \<and> nextPow2_loop (2 ^ k) n = Some (2 ^ j) \<and> sint n \<le> 2 ^ j \<and>
     (k < j \<longrightarrow> 2 ^ (j - 1) < sint n)"
proof (induction d arbitrary: k)
  case 0
  then have "\<not> (2 ^ k :: int64) <s n" by (simp add: go_arith sint_pow2)
  with 0 show ?case by (intro exI [of _ k]) (simp add: nextPow2_loop.simps)
next
  case (Suc d)
  show ?case
  proof (cases "(2 ^ k :: int64) <s n")
    case False
    with Suc.prems show ?thesis
      by (intro exI [of _ k]) (simp add: nextPow2_loop.simps go_arith sint_pow2)
  next
    case True
    have "Suc k + d = 62" using Suc.prems by simp
    from Suc.IH [OF this Suc.prems(2)] obtain j where j: "Suc k \<le> j" "j \<le> 62"
      "nextPow2_loop (2 ^ Suc k) n = Some (2 ^ j)" "sint n \<le> 2 ^ j"
      "Suc k < j \<longrightarrow> 2 ^ (j - 1) < sint n" by blast
    have "nextPow2_loop (2 ^ k) n = Some (2 ^ j)"
      using True j(3) by (subst nextPow2_loop.simps) (simp only: push_bit_pow2 if_True)
    moreover have "2 ^ (j - 1) < sint n"
      using True j(1,5) Suc.prems by (cases "Suc k = j") (auto simp: go_arith sint_pow2)
    ultimately show ?thesis using j by (intro exI [of _ j]) auto
  qed
qed

lemma nextPow2_spec:
  assumes "sint n \<le> 2 ^ 62"
  obtains j where "nextPow2 n = Some (2 ^ j)" "j \<le> 62" "sint n \<le> 2 ^ j"
    "0 < j \<Longrightarrow> 2 ^ (j - 1) < sint n"
proof (cases "n <s 1")
  case True
  then show ?thesis using that [of 0] by (simp add: nextPow2_def go_arith)
next
  case False
  then show ?thesis using nextPow2_loop_returns [of 0 62 n] assms that by (auto simp: nextPow2_def)
qed

lemma nextPow2_loop_zero: "nextPow2_loop 0 n = Some r \<Longrightarrow> \<not> 0 <s n"
proof -
  assume ret: "nextPow2_loop 0 n = Some r"
  have "0 = (0 :: int64) \<longrightarrow> \<not> 0 <s n"
  proof (rule nextPow2_loop.raw_induct [where P = "\<lambda>p n r. p = 0 \<longrightarrow> \<not> 0 <s n", OF _ ret])
    fix f :: "int64 \<Rightarrow> int64 \<Rightarrow> int64 option" and p n r :: int64
    assume IH: "\<And>p n r. f p n = Some r \<Longrightarrow> p = 0 \<longrightarrow> \<not> 0 <s n"
      and eq: "(if p <s n then f (push_bit 1 p) n else Some p) = Some r"
    show "p = 0 \<longrightarrow> \<not> 0 <s n" using IH [of "push_bit 1 p" n r] eq by (auto split: if_splits)
  qed
  then show ?thesis by simp
qed

lemma nextPow2_loop_diverges:
  "k + d = 64 \<Longrightarrow> 2 ^ 62 < sint n \<Longrightarrow> nextPow2_loop (2 ^ k) n = None"
proof (induction d arbitrary: k)
  case 0
  then have z: "(2 :: int64) ^ k = 0" by simp
  show ?case unfolding z using nextPow2_loop_zero [of n] 0
    by (cases "nextPow2_loop 0 n") (auto simp: go_arith)
next
  case (Suc d)
  have "(2 ^ k :: int64) <s n"
  proof (cases "k \<le> 62")
    case True
    then have "(2 :: int) ^ k \<le> 2 ^ 62" by (intro power_increasing) auto
    with True Suc.prems show ?thesis by (simp add: go_arith sint_pow2)
  next
    case False
    then have "k = 63" using Suc.prems by simp
    then have "(2 :: int64) ^ k = MinInt64" by (simp add: MinInt64_def)
    then show ?thesis using Suc.prems by (simp add: go_arith)
  qed
  moreover have "nextPow2_loop (2 ^ Suc k) n = None"
    by (rule Suc.IH) (use Suc.prems in auto)
  ultimately show ?case by (subst nextPow2_loop.simps) (simp only: push_bit_pow2 if_True)
qed


subsection \<open>Invariant and abstraction\<close>

definition shard_inv :: "OrderRepository \<Rightarrow> nat \<Rightarrow> bool" where
  "shard_inv r i \<longleftrightarrow>
     distinct (map fst (shards r ! i)) \<and>
     (\<forall>(k, s) \<in> set (shards r ! i). s_ID s = k \<and> shardFor r k = i)"

definition repo_inv :: "OrderRepository \<Rightarrow> bool" where
  "repo_inv r \<longleftrightarrow>
     (\<exists>k \<le> 62. length (shards r) = 2 ^ k \<and> mask r = 2 ^ k - 1) \<and>
     (\<forall>i < length (shards r). shard_inv r i)"

definition repo_map :: "OrderRepository \<Rightarrow> string \<rightharpoonup> OrderSnapshot" where
  "repo_map r i = map_of (shards r ! shardFor r i) i"

lemma unat_and_mask: "k \<le> 62 \<Longrightarrow> unat (h AND (2 ^ k - 1) :: uint64) < 2 ^ k"
proof -
  assume "k \<le> 62"
  have "(h AND (2 ^ k - 1) :: uint64) = take_bit k h"
    by (simp add: take_bit_eq_mask mask_eq_exp_minus_1)
  then show ?thesis by (simp add: unsigned_take_bit_eq)
qed

lemma shardFor_bound: "repo_inv r \<Longrightarrow> shardFor r i < length (shards r)"
  by (auto simp: repo_inv_def shardFor_def unat_and_mask)

lemma NewOrderRepository_inv:
  assumes "NewOrderRepository m n = Some (Inr r)"
  shows "repo_inv r" "repo_map r = Map.empty" "idem r = []"
proof -
  obtain w where w: "nextPow2 n = Some w" and r: "r = \<lparr>shards = replicate (nat (sint w)) [], mask = w - 1, idem = []\<rparr>"
    using assms by (auto simp: NewOrderRepository_def split: option.splits if_splits)
  have "sint n \<le> 2 ^ 62"
  proof (rule ccontr)
    assume "\<not> ?thesis"
    then have "nextPow2 n = None" using nextPow2_loop_diverges [of 0 64 n] by (simp add: nextPow2_def go_arith)
    with w show False by simp
  qed
  then obtain j where j: "w = 2 ^ j" "j \<le> 62" using w by (metis nextPow2_spec option.inject)
  then have "nat (sint w) = 2 ^ j" by (simp add: sint_pow2 nat_power_eq)
  with j show i: "repo_inv r" by (auto simp: repo_inv_def r shard_inv_def)
  show "idem r = []" by (simp add: r)
  show "repo_map r = Map.empty"
    using shardFor_bound [OF i] by (auto simp: repo_map_def r)
qed

text \<open>Storing a snapshot under its own id in the shard of that id.\<close>

definition store :: "OrderRepository \<Rightarrow> OrderSnapshot \<Rightarrow> OrderRepository" where
  "store r s = r\<lparr>shards := (shards r)[shardFor r (s_ID s) :=
     AList.update (s_ID s) s (shards r ! shardFor r (s_ID s))]\<rparr>"

lemma shardFor_store [simp]: "shardFor (store r s) = shardFor r"
  by (rule ext) (simp add: shardFor_def store_def)

lemma shardFor_idem [simp]: "shardFor (r\<lparr>idem := x\<rparr>) = shardFor r"
  by (rule ext) (simp add: shardFor_def)

lemma shards_store:
  "i < length (shards r) \<Longrightarrow> shards (store r s) ! i =
     (if i = shardFor r (s_ID s) then AList.update (s_ID s) s (shards r ! i) else shards r ! i)"
  by (auto simp: store_def nth_list_update)

lemma store_inv:
  assumes "repo_inv r"
  shows "repo_inv (store r s)"
proof -
  have "shard_inv (store r s) i" if "i < length (shards r)" for i
    using assms that
    by (auto simp: repo_inv_def shard_inv_def shards_store distinct_update dest!: set_AList_update)
  with assms show ?thesis by (auto simp: repo_inv_def store_def)
qed


lemma repo_map_store: "repo_inv r \<Longrightarrow> repo_map (store r s) = (repo_map r)(s_ID s \<mapsto> s)"
  by (rule ext) (auto simp: repo_map_def shards_store shardFor_bound update_conv')

lemma idem_store [simp]: "idem (store r s) = idem r"
  by (simp add: store_def)

lemma repo_idem_update [simp]:
  "repo_inv (r\<lparr>idem := x\<rparr>) = repo_inv r" "repo_map (r\<lparr>idem := x\<rparr>) = repo_map r"
  by (simp_all add: repo_inv_def shard_inv_def repo_map_def fun_eq_iff)

lemma Save_eq:
  "Save r ord key =
     (if repo_map r (o_id ord) \<noteq> None then Inl ErrDuplicate
      else Inr (if key \<noteq> [] then (store r (Snapshot ord))\<lparr>idem := AList.update key (o_id ord) (idem r)\<rparr>
                else store r (Snapshot ord)))"
  by (simp add: Save_def repo_map_def store_def Let_def)

lemma Update_eq:
  "Update r ord v =
     (case repo_map r (o_id ord) of
        None \<Rightarrow> Inl ErrNotFound
      | Some cur \<Rightarrow> if s_Version cur \<noteq> v then Inl ErrVersionConflict else Inr (store r (Snapshot ord)))"
  by (simp add: Update_def repo_map_def store_def Let_def split: option.split)

interpretation mem: order_repository repo_inv repo_map "\<lambda>r. map_of (idem r)" Save Update Get FindByIdempotencyKey
proof unfold_locales
  fix r and x :: Order and k :: string
  assume "repo_inv r" "repo_map r (o_id x) = None"
  then show "\<exists>r'. Save r x k = Inr r' \<and> repo_inv r' \<and> repo_map r' = (repo_map r)(o_id x \<mapsto> Snapshot x) \<and>
      map_of (idem r') = (if k = [] then map_of (idem r) else (map_of (idem r))(k \<mapsto> o_id x))"
    by (simp add: Save_eq store_inv repo_map_store update_conv')
next
  fix r and x :: Order and v :: int64 and s :: OrderSnapshot
  assume "repo_inv r" "repo_map r (o_id x) = Some s" "s_Version s = v"
  then show "\<exists>r'. Update r x v = Inr r' \<and> repo_inv r' \<and>
      repo_map r' = (repo_map r)(o_id x \<mapsto> Snapshot x) \<and> map_of (idem r') = map_of (idem r)"
    by (simp add: Update_eq store_inv repo_map_store)
qed (auto simp: Save_eq Update_eq Get_def FindByIdempotencyKey_def repo_map_def)

subsection \<open>Listing\<close>

definition all_snaps :: "OrderRepository \<Rightarrow> OrderSnapshot list" where
  "all_snaps r = concat (map (map snd) (shards r))"

lemma set_all_snaps:
  assumes "repo_inv r"
  shows "set (all_snaps r) = ran (repo_map r)"
proof (intro equalityI subsetI)
  fix s
  assume "s \<in> set (all_snaps r)"
  then obtain i k where i: "i < length (shards r)" "(k, s) \<in> set (shards r ! i)"
    by (auto simp: all_snaps_def in_set_conv_nth [of _ "shards r"])
  then have "shardFor r k = i" "distinct (map fst (shards r ! i))"
    using assms by (auto simp: repo_inv_def shard_inv_def)
  with i have "repo_map r k = Some s" by (simp add: repo_map_def)
  then show "s \<in> ran (repo_map r)" by (rule ranI)
next
  fix s
  assume "s \<in> ran (repo_map r)"
  then obtain k where "(k, s) \<in> set (shards r ! shardFor r k)"
    by (auto simp: ran_def repo_map_def dest: map_of_SomeD)
  then show "s \<in> set (all_snaps r)"
    using shardFor_bound [OF assms, of k] by (force simp: all_snaps_def)
qed

lemma distinct_concat_by:
  "\<forall>i < length xss. distinct (xss ! i) \<and> (\<forall>x \<in> set (xss ! i). f x = i + (n :: nat)) \<Longrightarrow>
   distinct (concat xss)"
proof (induction xss arbitrary: n)
  case (Cons xs xss)
  have d: "distinct xs" "\<forall>x \<in> set xs. f x = n" using Cons.prems by auto
  have r: "distinct (xss ! i) \<and> (\<forall>x \<in> set (xss ! i). f x = i + Suc n)" if "i < length xss" for i
    using Cons.prems that by (auto dest!: spec [of _ "Suc i"])
  then have "distinct (concat xss)" by (intro Cons.IH [of "Suc n"]) blast
  moreover have "x \<notin> set xs" if x: "x \<in> set (concat xss)" for x
  proof -
    from x obtain i where "i < length xss" "x \<in> set (xss ! i)"
      by (auto simp: in_set_conv_nth [of _ xss])
    with r have "f x = i + Suc n" by blast
    with d(2) show ?thesis by auto
  qed
  ultimately show ?case using d(1) by (auto simp del: set_concat)
qed simp

lemma distinct_all_snaps:
  assumes "repo_inv r"
  shows "distinct (map s_ID (all_snaps r))"
proof -
  have sh: "map (s_ID \<circ> snd) (shards r ! i) = map fst (shards r ! i)" if "i < length (shards r)" for i
    unfolding map_eq_conv using assms that by (fastforce simp: repo_inv_def shard_inv_def)
  have "\<forall>i < length (shards r). distinct (map fst (shards r ! i)) \<and>
      (\<forall>k \<in> set (map fst (shards r ! i)). shardFor r k = i + 0)"
    using assms by (fastforce simp: repo_inv_def shard_inv_def)
  with sh have "distinct (concat (map (map (s_ID \<circ> snd)) (shards r)))"
    by (intro distinct_concat_by [where f = "shardFor r" and n = 0]) (simp del: set_map map_eq_conv)
  then show ?thesis by (simp add: all_snaps_def map_concat comp_def)
qed

lemma mset_sort_newest [simp]: "mset (sort_newest xs) = mset xs"
proof (induction xs)
  case (Cons s xs)
  have "mset (insert_newest s ys) = add_mset s (mset ys)" for ys by (induction ys) auto
  with Cons show ?case by simp
qed simp

lemma set_insert_newest [simp]: "set (insert_newest s xs) = insert s (set xs)"
  by (induction xs) auto

lemma sorted_insert_newest: "newest_first xs \<Longrightarrow> newest_first (insert_newest s xs)"
  by (induction xs) (auto simp: newest_first_def time_After_def)

lemma sorted_sort_newest: "newest_first (sort_newest xs)"
proof (induction xs)
  case Nil
  then show ?case by (simp add: newest_first_def)
qed (simp add: sorted_insert_newest)

text \<open>A writer reads an order, executes one method on it and writes it back: the version it
  writes is not the one it read.\<close>

lemma order_exec_step:
  assumes "order_exec ord c = Inr ord'"
  shows "o_id ord' = o_id ord" "o_version ord' = o_version ord + 1"
proof -
  have "o_id ord' = o_id ord \<and> o_version ord' = o_version ord + 1"
  proof (cases c)
    case (CFill q p t)
    then have F: "Fill ord q p t = Inr ord'" using assms by simp
    then have "working (o_status ord)" by (auto simp: Fill_def working_def)
    then have "canTransitionTo (o_status ord) StatusFilled"
      "canTransitionTo (o_status ord) StatusPartiallyFilled"
      by (auto simp: canTransitionTo_iff working_def)
    with F show ?thesis
      by (auto simp: Fill_def Let_def transition_def drop_err_def raise_def split: if_splits)
  qed (use assms in \<open>auto simp: order_op_defs\<close>)
  then show "o_id ord' = o_id ord" "o_version ord' = o_version ord + 1" by simp_all
qed

lemma inj_RehydrateOrder: "Snapshot (RehydrateOrder s) = s"
  by (simp add: RehydrateOrder_def Snapshot_def)

text \<open>The listing before it is cut and rehydrated.\<close>

definition listed :: "(OrderSnapshot list \<Rightarrow> OrderSnapshot list) \<Rightarrow> OrderRepository \<Rightarrow> OrderSnapshot list" where
  "listed shuffle r = sort_newest (shuffle (all_snaps r))"

lemma List_orders_eq:
  "List_orders shuffle r limit =
    Inr (map RehydrateOrder (if 0 < sint limit then take (nat (sint limit)) (listed shuffle r) else listed shuffle r))"
  unfolding List_orders_def all_snaps_def [symmetric] listed_def [symmetric] Let_def by (auto simp: go_arith)

lemma listed_props:
  assumes "repo_inv r" "mset (shuffle (all_snaps r)) = mset (all_snaps r)"
  shows "newest_first (listed shuffle r)" "set (listed shuffle r) = ran (repo_map r)"
    "distinct (map s_ID (listed shuffle r))"
proof -
  have m: "mset (listed shuffle r) = mset (all_snaps r)" using assms(2) by (simp add: listed_def)
  show "newest_first (listed shuffle r)" by (simp add: listed_def sorted_sort_newest)
  show "set (listed shuffle r) = ran (repo_map r)"
    using mset_eq_setD [OF m] set_all_snaps [OF assms(1)] by simp
  have "mset (map s_ID (listed shuffle r)) = mset (map s_ID (all_snaps r))" using m by simp
  then show "distinct (map s_ID (listed shuffle r))"
    using distinct_all_snaps [OF assms(1)] mset_eq_imp_distinct_iff by blast
qed

text \<open>The order in which the maps are enumerated, \<open>shuffle\<close>, is any permutation.\<close>

interpretation lst: order_listing "\<lambda>(shuffle, r). repo_inv r \<and> (\<forall>xs. mset (shuffle xs) = mset xs)"
  "\<lambda>(shuffle, r). repo_map r" "\<lambda>(shuffle, r). List_orders shuffle r"
proof
  fix m :: "(OrderSnapshot list \<Rightarrow> OrderSnapshot list) \<times> OrderRepository" and limit :: int64
  obtain shuffle r where m: "m = (shuffle, r)" by fastforce
  assume "case m of (shuffle, r) \<Rightarrow> repo_inv r \<and> (\<forall>xs. mset (shuffle xs) = mset xs)"
  then have a: "repo_inv r" "mset (shuffle (all_snaps r)) = mset (all_snaps r)" by (simp_all add: m)
  show "\<exists>all. (case m of (shuffle, r) \<Rightarrow> List_orders shuffle r) limit =
        Inr (map RehydrateOrder (if 0 < sint limit then take (nat (sint limit)) all else all)) \<and>
      newest_first all \<and> distinct (map s_ID all) \<and> set all = ran ((case m of (shuffle, r) \<Rightarrow> repo_map r))"
    using List_orders_eq [of shuffle r limit] listed_props [OF a(1), of shuffle, OF a(2)] by (auto simp: m)
qed

text \<open>An order that is read is the stored one, and writing it back in sequence succeeds.\<close>

lemma Get_stored:
  assumes "repo_inv r" "Get r i = Inr x"
  shows "repo_map r i = Some (Snapshot x)" "o_id x = i" "o_events x = []" "x = RehydrateOrder (Snapshot x)"
proof -
  obtain s where s: "repo_map r i = Some s" "x = RehydrateOrder s"
    using assms(2) mem.get_eq [OF assms(1), of i] by (auto split: option.splits)
  have "(i, s) \<in> set (shards r ! shardFor r i)" using s(1) by (simp add: repo_map_def map_of_SomeD)
  then have "s_ID s = i" using assms(1) shardFor_bound [OF assms(1)]
    by (fastforce simp: repo_inv_def shard_inv_def)
  with s show "repo_map r i = Some (Snapshot x)" "o_id x = i" "o_events x = []" "x = RehydrateOrder (Snapshot x)"
    by (simp_all add: RehydrateOrder_def Snapshot_def)
qed

lemma Update_after_Get:
  assumes "repo_inv r" "Get r i = Inr x" "o_id x1 = o_id x"
  shows "\<exists>r1. Update r x1 (o_version x) = Inr r1"
proof -
  have "repo_map r (o_id x1) = Some (Snapshot x)" "s_Version (Snapshot x) = o_version x"
    using Get_stored [OF assms(1,2)] assms(3) by simp_all
  from mem.update_ok [OF assms(1) this] show ?thesis by blast
qed

subsection \<open>Properties\<close>

text \<open>
  C18. The sharded store implements a plain map from order ids to snapshots with an index of
  idempotency keys. In every repository that satisfies the invariant, whatever the hash does:
  \<open>Save\<close> refuses a taken id with \<open>ErrDuplicate\<close> and otherwise adds exactly the order (and its
  key, if it has one); \<open>Update\<close> fails with \<open>ErrNotFound\<close> or \<open>ErrVersionConflict\<close>, or replaces
  exactly that order; \<open>Get\<close> and \<open>FindByIdempotencyKey\<close> read the map and the index. Both writers
  keep the invariant.
\<close>

theorem repository_refines_map:
  assumes "repo_inv r"
  shows
    "(case Save r x k of
        Inl e \<Rightarrow> e = ErrDuplicate \<and> repo_map r (o_id x) \<noteq> None
      | Inr r' \<Rightarrow> repo_map r (o_id x) = None \<and> repo_inv r' \<and>
          repo_map r' = (repo_map r)(o_id x \<mapsto> Snapshot x) \<and>
          map_of (idem r') = (if k = [] then map_of (idem r) else (map_of (idem r))(k \<mapsto> o_id x))) \<and>
     (case Update r x v of
        Inl e \<Rightarrow> e = (if repo_map r (o_id x) = None then ErrNotFound else ErrVersionConflict) \<and>
          map_option s_Version (repo_map r (o_id x)) \<noteq> Some v
      | Inr r' \<Rightarrow> map_option s_Version (repo_map r (o_id x)) = Some v \<and> repo_inv r' \<and>
          repo_map r' = (repo_map r)(o_id x \<mapsto> Snapshot x) \<and> map_of (idem r') = map_of (idem r)) \<and>
     Get r i = (case repo_map r i of None \<Rightarrow> Inl ErrNotFound | Some s \<Rightarrow> Inr (RehydrateOrder s)) \<and>
     FindByIdempotencyKey r k = map_of (idem r) k"
proof (intro conjI)
  show "case Save r x k of
        Inl e \<Rightarrow> e = ErrDuplicate \<and> repo_map r (o_id x) \<noteq> None
      | Inr r' \<Rightarrow> repo_map r (o_id x) = None \<and> repo_inv r' \<and>
          repo_map r' = (repo_map r)(o_id x \<mapsto> Snapshot x) \<and>
          map_of (idem r') = (if k = [] then map_of (idem r) else (map_of (idem r))(k \<mapsto> o_id x))"
    using assms by (simp add: Save_eq store_inv repo_map_store update_conv')
  show "case Update r x v of
        Inl e \<Rightarrow> e = (if repo_map r (o_id x) = None then ErrNotFound else ErrVersionConflict) \<and>
          map_option s_Version (repo_map r (o_id x)) \<noteq> Some v
      | Inr r' \<Rightarrow> map_option s_Version (repo_map r (o_id x)) = Some v \<and> repo_inv r' \<and>
          repo_map r' = (repo_map r)(o_id x \<mapsto> Snapshot x) \<and> map_of (idem r') = map_of (idem r)"
    using assms by (simp add: Update_eq store_inv repo_map_store split: option.split)
qed (simp_all add: mem.get_eq [OF assms] mem.find_eq [OF assms])

definition sample_repo :: OrderRepository where
  "sample_repo = \<lparr>shards = replicate 4 [], mask = 3, idem = []\<rparr>"

lemma sample_repo: "NewOrderRepository 4 3 = Some (Inr sample_repo)"
proof -
  have "nextPow2 3 = Some 4" by code_simp
  then show ?thesis by (simp add: NewOrderRepository_def sample_repo_def)
qed

lemmas sample_repo_inv = NewOrderRepository_inv [OF sample_repo]

theorem repository_refines_map_witness:
  "is_ok (Save sample_repo sample_order ''k1'') \<and>
   Update sample_repo sample_order 0 = Inl ErrNotFound \<and>
   Get sample_repo ''ord-1'' = Inl ErrNotFound"
  using repository_refines_map [OF sample_repo_inv(1), of sample_order "''k1''" 0 "''ord-1''"]
  by (simp add: sample_repo_inv is_ok_iff split: sum.splits)

text \<open>
  C14. Optimistic concurrency control: when two writers have read the same order and each has
  executed one of its methods, the second to write back its result is refused with
  \<open>ErrVersionConflict\<close>, so no update is lost.
\<close>

theorem no_lost_update:
  assumes "repo_inv r" "Get r i = Inr x"
    and "order_exec x c = Inr x1" "order_exec x d = Inr x2"
  shows "\<exists>r1. Update r x1 (o_version x) = Inr r1 \<and>
    Update r1 x2 (o_version x) = Inl ErrVersionConflict \<and> Get r1 (o_id x) = Inr (x1\<lparr>o_events := []\<rparr>)"
proof -
  note s1 = order_exec_step [OF assms(3)] and s2 = order_exec_step [OF assms(4)]
  obtain r1 where u: "Update r x1 (o_version x) = Inr r1"
    using Update_after_Get [OF assms(1,2) s1(1)] by blast
  have "Update r1 x2 (o_version x) = Inl ErrVersionConflict"
    using s1 s2 by (intro mem.second_writer_conflicts [OF assms(1) u]) simp_all
  moreover have "Get r1 (o_id x) = Inr (x1\<lparr>o_events := []\<rparr>)"
    using mem.get_after_update [OF assms(1) u] s1 by simp
  ultimately show ?thesis using u by blast
qed

definition sample_repo1 :: OrderRepository where
  "sample_repo1 = projr (Save sample_repo sample_order ''k1'')"

lemma sample_repo1: "Save sample_repo sample_order ''k1'' = Inr sample_repo1"
  by (simp add: sample_repo1_def Save_eq sample_repo_inv)

lemma sample_repo1_inv: "repo_inv sample_repo1"
  using sample_repo1 by (rule mem.save_Inr [OF sample_repo_inv(1)])

theorem no_lost_update_witness:
  "\<exists>r1. Update sample_repo1 (projr (order_exec (sample_order\<lparr>o_events := []\<rparr>) (CAccept 6))) 0 = Inr r1 \<and>
     Update r1 (projr (order_exec (sample_order\<lparr>o_events := []\<rparr>) (CReject ''late'' 7))) 0 =
       Inl ErrVersionConflict"
proof -
  have g: "Get sample_repo1 (o_id sample_order) = Inr (sample_order\<lparr>o_events := []\<rparr>)"
    by (rule mem.get_after_save [OF sample_repo_inv(1) sample_repo1])
  have a: "is_ok (order_exec (sample_order\<lparr>o_events := []\<rparr>) (CAccept 6))"
    "is_ok (order_exec (sample_order\<lparr>o_events := []\<rparr>) (CReject ''late'' 7))"
    "o_version (sample_order\<lparr>o_events := []\<rparr>) = 0" by code_simp+
  then obtain x1 x2 where x: "order_exec (sample_order\<lparr>o_events := []\<rparr>) (CAccept 6) = Inr x1"
    "order_exec (sample_order\<lparr>o_events := []\<rparr>) (CReject ''late'' 7) = Inr x2" unfolding is_ok_iff by blast
  from no_lost_update [OF sample_repo1_inv g x] show ?thesis unfolding x a(3) sum.sel by blast
qed

text \<open>
  The number of shards. \<open>NewOrderRepository\<close> hangs exactly when more than \<open>2 ^ 62\<close> shards are requested:
  the loop of \<open>nextPow2\<close> shifts its bit out of the word and runs forever. Otherwise the number of
  shards is the least power of two that is at least the request (and at least one); if the host can
  allocate so many, every id is hashed to one of them, and nothing is stored; if not, it panics.
\<close>

theorem shard_count:
  "case NewOrderRepository m n of
     None \<Rightarrow> 2 ^ 62 < sint n
   | Some res \<Rightarrow> sint n \<le> 2 ^ 62 \<and> (\<exists>k. sint n \<le> 2 ^ k \<and> (\<forall>j. sint n \<le> 2 ^ j \<longrightarrow> k \<le> j) \<and>
       (case res of
          Inl _ \<Rightarrow> m < 2 ^ k
        | Inr r \<Rightarrow> 2 ^ k \<le> m \<and> length (shards r) = 2 ^ k \<and> (\<forall>i. shardFor r i < length (shards r)) \<and>
            repo_inv r \<and> repo_map r = Map.empty))"
proof (cases "2 ^ 62 < sint n")
  case True
  then have "nextPow2 n = None"
    using nextPow2_loop_diverges [of 0 64 n] by (simp add: nextPow2_def go_arith)
  with True show ?thesis by (simp add: NewOrderRepository_def)
next
  case False
  then have n: "sint n \<le> 2 ^ 62" by simp
  obtain k where k: "nextPow2 n = Some (2 ^ k)" "k \<le> 62" "sint n \<le> 2 ^ k"
    "0 < k \<Longrightarrow> 2 ^ (k - 1) < sint n"
    by (rule nextPow2_spec [OF n]) blast
  have least: "k \<le> j" if "sint n \<le> 2 ^ j" for j
  proof (rule ccontr)
    assume "\<not> k \<le> j"
    then have "(2 :: int) ^ j \<le> 2 ^ (k - 1)" "0 < k" by (auto intro: power_increasing)
    with k(4) have "2 ^ j < sint n" by linarith
    with that show False by simp
  qed
  have p: "sint (2 ^ k :: int64) = 2 ^ k" by (rule sint_pow2 [OF k(2)])
  let ?r = "\<lparr>shards = replicate (nat (sint (2 ^ k :: int64))) [], mask = 2 ^ k - 1, idem = []\<rparr>"
  have len: "length (shards ?r) = 2 ^ k" by (simp add: p nat_power_eq)
  show ?thesis
  proof (cases "m < 2 ^ k")
    case True
    then have "NewOrderRepository m n = Some (Inl (ErrText ''makeslice: len out of range''))"
      by (simp add: NewOrderRepository_def k(1) p)
    then show ?thesis using n k(3) least True by auto
  next
    case False
    then have r: "NewOrderRepository m n = Some (Inr ?r)" by (simp add: NewOrderRepository_def k(1) p)
    show ?thesis
      using NewOrderRepository_inv [OF r] shardFor_bound [of ?r] n k(3) least False len unfolding r by auto
  qed
qed

theorem shard_count_witness:
  "(\<forall>i. shardFor sample_repo i < length (shards sample_repo)) \<and>
   NewOrderRepository (2 ^ 45) 4611686018427387905 = None"
  using shard_count [where m = 4 and n = 3] shard_count [where m = "2 ^ 45" and n = 4611686018427387905]
  by (auto simp: sample_repo split: option.splits)

end
