(* ===== verification/Risk.thy ===== *)
theory Risk
  imports Ports
begin

section \<open>Pre-trade risk analysers (internal/adapters/ai/analyzer.go)\<close>

text \<open>
  The heuristic analyser and the one that consults a language model. The model is outside the
  program: \<open>model\<close> is the value of the \<open>ChatCompleter\<close> field, \<open>None\<close> for nil, and otherwise the
  answer (or the error) the completer gives to a prompt. Both analysers interpret the
  \<open>risk_gate\<close> contract.
\<close>

record Thresholds =
  MaxNotional :: Money
  MaxQuantity :: Quantity
  RejectScore :: int64

definition DefaultThresholds :: Thresholds where
  "DefaultThresholds = \<lparr>MaxNotional = 1000000 * 10000, MaxQuantity = 100000 * 1000, RejectScore = 80\<rparr>"

record HeuristicAnalyzer =
  h_th :: Thresholds

definition NewHeuristicAnalyzer :: "Thresholds \<Rightarrow> HeuristicAnalyzer" where
  "NewHeuristicAnalyzer th =
     \<lparr>h_th = (if RejectScore th \<le>s 0 then th\<lparr>RejectScore := 80\<rparr> else th)\<rparr>"

definition assess :: "HeuristicAnalyzer \<Rightarrow> Order \<Rightarrow> int64 \<times> string" where
  "assess h ord =
     (let score = 0;
          reasons = [];
          score = (if o_orderType ord = OrderTypeMarket then score + 15 else score);
          (score, reasons) =
            (if 0 <s MaxQuantity (h_th h) \<and> MaxQuantity (h_th h) <s o_quantity ord
             then (score + 100, reasons @ [''quantity exceeds limit'']) else (score, reasons));
          (score, reasons) =
            (if o_orderType ord = OrderTypeLimit \<and> 0 <s MaxNotional (h_th h)
             then (case MulQuantity (o_limitPrice ord) (o_quantity ord) of
                     Inr notional \<Rightarrow>
                       (if MaxNotional (h_th h) <s notional
                        then (score + 100, reasons @ [''notional exceeds limit''])
                        else (score, reasons))
                   | Inl _ \<Rightarrow> (score, reasons))
             else (score, reasons));
          score = (if o_tif ord = TIFFOK \<or> o_tif ord = TIFIOC then score + 5 else score);
          score = (if 100 <s score then 100 else score)
      in (score, Join reasons ''; ''))"

definition Heuristic_Check :: "HeuristicAnalyzer \<Rightarrow> Order \<Rightarrow> RiskDecision result" where
  "Heuristic_Check h ord =
     (let (score, reason) = assess h ord;
          approved = score <s RejectScore (h_th h);
          reason = (if approved then []
                    else if reason = [] then ''risk score above threshold'' else reason)
      in Inr \<lparr>Approved = approved, Reason = reason, Score = score\<rparr>)"

type_synonym ChatCompleter = "string \<Rightarrow> string result"

record LLMAnalyzer =
  l_heuristic :: HeuristicAnalyzer
  l_model :: "ChatCompleter option"
  l_th :: Thresholds

definition NewLLMAnalyzer :: "HeuristicAnalyzer \<Rightarrow> ChatCompleter option \<Rightarrow> Thresholds \<Rightarrow> LLMAnalyzer" where
  "NewLLMAnalyzer h model th =
     \<lparr>l_heuristic = h, l_model = model,
      l_th = (if RejectScore th \<le>s 0 then th\<lparr>RejectScore := RejectScore (h_th h)\<rparr> else th)\<rparr>"

definition prompt :: "Order \<Rightarrow> string" where
  "prompt ord =
     ''You are a pre-trade risk reviewer. Reply with ONLY an integer 0-100 risk score for this order: '' @
     ''symbol='' @ o_symbol ord @ '' side='' @ o_side ord @ '' type='' @ o_orderType ord @
     '' tif='' @ o_tif ord @ '' qty='' @ Quantity_String (o_quantity ord) @
     '' limit='' @ Money_String (o_limitPrice ord) @ ''.''"

definition modelScore :: "ChatCompleter \<Rightarrow> Order \<Rightarrow> int64 option" where
  "modelScore complete ord =
     (case complete (prompt ord) of
        Inl _ \<Rightarrow> None
      | Inr out \<Rightarrow>
          (case Atoi (TrimSpace out) of
             Inl _ \<Rightarrow> None
           | Inr n \<Rightarrow> if n <s 0 \<or> 100 <s n then None else Some n))"

definition LLM_Check :: "LLMAnalyzer \<Rightarrow> Order \<Rightarrow> RiskDecision result" where
  "LLM_Check l ord =
     (let (base, reason) = assess (l_heuristic l) ord;
          (score, reason) =
            (case l_model l of
               None \<Rightarrow> (base, reason)
             | Some complete \<Rightarrow>
                 (case modelScore complete ord of
                    None \<Rightarrow> (base, reason)
                  | Some raised \<Rightarrow>
                      if base <s raised
                      then (raised, if reason = [] then ''model-elevated risk'' else reason)
                      else (base, reason)));
          approved = score <s RejectScore (l_th l);
          reason = (if approved then []
                    else if reason = [] then ''risk score above threshold'' else reason)
      in Inr \<lparr>Approved = approved, Reason = reason, Score = score\<rparr>)"

subsection \<open>Lemmas\<close>

interpretation heur: risk_gate "Heuristic_Check h" "RejectScore (h_th h)" for h
  by unfold_locales (auto simp: Heuristic_Check_def Let_def is_ok_iff split: prod.splits if_splits)

interpretation llm: risk_gate "LLM_Check l" "RejectScore (l_th l)" for l
  by unfold_locales (auto simp: LLM_Check_def Let_def is_ok_iff split: prod.splits option.splits if_splits)

text \<open>The two hard limits, over the integers, and the score they lead to.\<close>

definition quantity_breach :: "Thresholds \<Rightarrow> Order \<Rightarrow> bool" where
  "quantity_breach th ord \<longleftrightarrow>
     0 < sint (MaxQuantity th) \<and> sint (MaxQuantity th) < sint (o_quantity ord)"

definition notional :: "Order \<Rightarrow> int" where
  "notional ord = round_half_away (sint (o_limitPrice ord) * sint (o_quantity ord)) 1000"

definition notional_breach :: "Thresholds \<Rightarrow> Order \<Rightarrow> bool" where
  "notional_breach th ord \<longleftrightarrow>
     o_orderType ord = OrderTypeLimit \<and> 0 < sint (MaxNotional th) \<and> in_i64 (notional ord) \<and>
     sint (MaxNotional th) < notional ord"

definition risk_points :: "Thresholds \<Rightarrow> Order \<Rightarrow> int" where
  "risk_points th ord =
     (if o_orderType ord = OrderTypeMarket then 15 else 0) +
     (if quantity_breach th ord then 100 else 0) + (if notional_breach th ord then 100 else 0) +
     (if o_tif ord \<in> {TIFFOK, TIFIOC} then 5 else 0)"

lemma case_prod_if: "(case (if c then p else q) of (x, y) \<Rightarrow> f x y) = (if c then case_prod f p else case_prod f q)"
  by simp

lemma notional_test:
  "(case MulQuantity (o_limitPrice ord) (o_quantity ord) of
      Inr n \<Rightarrow> if m <s n then x else y | Inl _ \<Rightarrow> y) =
   (if in_i64 (notional ord) \<and> sint m < notional ord then x else y)"
  by (simp add: MulQuantity_eq notional_def [symmetric] go_arith Let_def)

lemma assess_score: "sint (fst (assess h ord)) = min 100 (risk_points (h_th h) ord)"
proof -
  have q: "0 <s MaxQuantity (h_th h) \<and> MaxQuantity (h_th h) <s o_quantity ord \<longleftrightarrow> quantity_breach (h_th h) ord"
    by (simp add: quantity_breach_def go_arith)
  have n: "(if o_orderType ord = OrderTypeLimit \<and> 0 <s MaxNotional (h_th h)
      then (if in_i64 (notional ord) \<and> sint (MaxNotional (h_th h)) < notional ord then x else y) else y) =
      (if notional_breach (h_th h) ord then x else y)" for x y :: "int64 \<times> string list"
    by (simp add: notional_breach_def go_arith)
  have m: "notional_breach (h_th h) ord \<Longrightarrow> o_orderType ord \<noteq> OrderTypeMarket"
    by (auto simp: notional_breach_def)
  show ?thesis
    unfolding assess_def notional_test Let_def q n case_prod_if risk_points_def
    by (cases "o_orderType ord = OrderTypeMarket"; cases "quantity_breach (h_th h) ord";
        cases "notional_breach (h_th h) ord"; cases "o_tif ord = TIFFOK \<or> o_tif ord = TIFIOC")
      (use m in \<open>simp_all add: go_arith\<close>)
qed

lemma risk_points_RejectScore [simp]: "risk_points (th\<lparr>RejectScore := s\<rparr>) ord = risk_points th ord"
  by (simp add: risk_points_def quantity_breach_def notional_breach_def)

lemma risk_points_nonneg: "0 \<le> risk_points th ord"
  by (simp add: risk_points_def)

lemma Heuristic_Check_eq:
  "\<exists>d. Heuristic_Check h ord = Inr d \<and> sint (Score d) = min 100 (risk_points (h_th h) ord) \<and>
     (Approved d \<longleftrightarrow> min 100 (risk_points (h_th h) ord) < sint (RejectScore (h_th h)))"
  using assess_score [of h ord] by (auto simp: Heuristic_Check_def Let_def go_arith split: prod.splits)

lemma modelScore_Some: "modelScore complete ord = Some n \<Longrightarrow> 0 \<le> sint n \<and> sint n \<le> 100"
  by (auto simp: modelScore_def go_arith split: sum.splits if_splits)

text \<open>The score the model contributes: never less than what the heuristic found.\<close>

definition llm_score :: "LLMAnalyzer \<Rightarrow> Order \<Rightarrow> int" where
  "llm_score l ord =
     (let base = sint (fst (assess (l_heuristic l) ord)) in
      case l_model l of
        None \<Rightarrow> base
      | Some complete \<Rightarrow>
          (case modelScore complete ord of None \<Rightarrow> base | Some n \<Rightarrow> max base (sint n)))"

lemma LLM_Check_eq:
  "\<exists>d. LLM_Check l ord = Inr d \<and> sint (Score d) = llm_score l ord \<and>
     (Approved d \<longleftrightarrow> llm_score l ord < sint (RejectScore (l_th l)))"
  by (auto simp: LLM_Check_def llm_score_def Let_def go_arith split: prod.splits option.splits)

lemma llm_score_bounds:
  "sint (fst (assess (l_heuristic l) ord)) \<le> llm_score l ord" "llm_score l ord \<le> 100"
  using modelScore_Some [of _ ord] assess_score [of "l_heuristic l" ord]
  by (auto simp: llm_score_def Let_def split: option.split)

text \<open>
  The specification of the model's say, over its answer: an opinion is an answer that reads, spaces
  around it aside, as an integer between 0 and 100.
\<close>

definition opinion :: "string result \<Rightarrow> int option" where
  "opinion answer =
     (case answer of
        Inl _ \<Rightarrow> None
      | Inr out \<Rightarrow>
          (case Atoi (TrimSpace out) of
             Inl _ \<Rightarrow> None
           | Inr n \<Rightarrow> if sint n \<in> {0..100} then Some (sint n) else None))"

lemma modelScore_opinion: "map_option sint (modelScore complete ord) = opinion (complete (prompt ord))"
  by (auto simp: modelScore_def opinion_def go_arith split: sum.split)

lemma opinion_simps [simp]: "opinion (Inl e) = None" "Atoi (TrimSpace out) = Inl e \<Longrightarrow> opinion (Inr out) = None"
  "Atoi (TrimSpace out) = Inr n \<Longrightarrow> sint n \<notin> {0..100} \<Longrightarrow> opinion (Inr out) = None"
  "Atoi (TrimSpace out) = Inr n \<Longrightarrow> sint n \<in> {0..100} \<Longrightarrow> opinion (Inr out) = Some (sint n)"
  by (simp_all add: opinion_def)

lemma llm_score_opinion:
  "llm_score l ord =
     (let base = sint (fst (assess (l_heuristic l) ord)) in
      case Option.bind (l_model l) (\<lambda>complete. opinion (complete (prompt ord))) of None \<Rightarrow> base | Some n \<Rightarrow> max base n)"
proof (cases "l_model l")
  case (Some complete)
  then show ?thesis
    using modelScore_opinion [of complete ord, symmetric] by (cases "modelScore complete ord") (simp_all add: llm_score_def Let_def)
qed (simp add: llm_score_def)

lemma LLM_silent:
  assumes "case l_model l of None \<Rightarrow> True | Some complete \<Rightarrow> modelScore complete ord = None"
    and "RejectScore (l_th l) = RejectScore (h_th (l_heuristic l))"
  shows "LLM_Check l ord = Heuristic_Check (l_heuristic l) ord"
  using assms by (auto simp: LLM_Check_def Heuristic_Check_def Let_def split: option.splits prod.splits)

subsection \<open>Properties\<close>

text \<open>
  C38. What the heuristic analyser decides, for every order and all thresholds: it never fails;
  its score is the sum of the points of the rules that apply, capped at 100, so it lies between 0
  and 100; the order is approved exactly if the score is below the reject score (80 when the
  configured one is not positive); and a reason is given exactly for rejections. In particular an
  order that breaches the quantity limit, or a limit order whose representable notional breaches
  the notional limit, scores 100.
\<close>

theorem heuristic_decision:
  "let h = NewHeuristicAnalyzer th; pts = risk_points th ord;
       reject = (if sint (RejectScore th) \<le> 0 then 80 else sint (RejectScore th))
   in \<exists>d. Heuristic_Check h ord = Inr d \<and> sint (Score d) = min 100 pts \<and> 0 \<le> sint (Score d) \<and>
     (Approved d \<longleftrightarrow> min 100 pts < reject) \<and> (Reason d = [] \<longleftrightarrow> Approved d) \<and>
     (sint (Score d) = 100 \<longleftrightarrow> quantity_breach th ord \<or> notional_breach th ord)"
proof -
  let ?h = "NewHeuristicAnalyzer th"
  have p: "risk_points (h_th ?h) ord = risk_points th ord"
    by (simp add: NewHeuristicAnalyzer_def)
  have r: "sint (RejectScore (h_th ?h)) = (if sint (RejectScore th) \<le> 0 then 80 else sint (RejectScore th))"
    by (simp add: NewHeuristicAnalyzer_def go_arith)
  have "min 100 (risk_points th ord) = 100 \<longleftrightarrow> quantity_breach th ord \<or> notional_breach th ord"
    by (cases "quantity_breach th ord"; cases "notional_breach th ord") (simp_all add: risk_points_def)
  with Heuristic_Check_eq [of ?h ord, unfolded p r] heur.reason_iff [of ?h ord]
    risk_points_nonneg [of th ord]
  show ?thesis unfolding Let_def by fastforce
qed

text \<open>
  A notional that does not fit an \<open>int64\<close> is not counted as a breach: \<open>assess\<close> ignores the
  overflow error of \<open>MulQuantity\<close>. With the default thresholds a limit order for 100000 shares at
  922337203685477.5807 dollars is approved with score 0, though its notional exceeds the limit of
  one million dollars by many orders of magnitude.
\<close>

theorem overflowing_notional_approved:
  "bind_result (NewOrder ''ord-2'' ''acct-1'' ''AAPL'' SideBuy OrderTypeLimit TIFDay
       9223372036854775807 100000000 5)
     (Heuristic_Check (NewHeuristicAnalyzer DefaultThresholds)) =
   Inr \<lparr>Approved = True, Reason = [], Score = 0\<rparr>"
  by code_simp

text \<open>
  C39. The model is advisory. When the analyser is built with the thresholds of its heuristic (or
  with none), then whatever the model answers, the score is at least the heuristic's and at most
  100, and an order the heuristic rejects stays rejected. A missing model, a model that fails, and
  an answer that is no integer or one outside 0 to 100 leave exactly the heuristic's decision; an
  integer between 0 and 100 makes the score the larger of the two, and the order is approved if that
  is below the reject score.
\<close>

theorem model_only_raises:
  assumes "sint (RejectScore th) \<le> 0 \<or> RejectScore th = RejectScore (h_th h)"
  shows "let l = NewLLMAnalyzer h model th in
    \<exists>d e. Heuristic_Check h ord = Inr d \<and> LLM_Check l ord = Inr e \<and>
      sint (Score d) \<le> sint (Score e) \<and> sint (Score e) \<le> 100 \<and>
      (Approved e \<longrightarrow> Approved d) \<and>
      (case model of
         None \<Rightarrow> e = d
       | Some complete \<Rightarrow>
           (case complete (prompt ord) of
              Inl _ \<Rightarrow> e = d
            | Inr out \<Rightarrow>
                (case Atoi (TrimSpace out) of
                   Inl _ \<Rightarrow> e = d
                 | Inr n \<Rightarrow>
                     if 0 \<le> sint n \<and> sint n \<le> 100
                     then sint (Score e) = max (sint (Score d)) (sint n) \<and>
                       (Approved e \<longleftrightarrow> max (sint (Score d)) (sint n) < sint (RejectScore (h_th h)))
                     else e = d)))"
proof -
  let ?l = "NewLLMAnalyzer h model th"
  let ?says = "Option.bind model (\<lambda>complete. opinion (complete (prompt ord)))"
  have l: "l_heuristic ?l = h" "l_model ?l = model" "RejectScore (l_th ?l) = RejectScore (h_th h)"
    using assms by (auto simp: NewLLMAnalyzer_def go_arith)
  obtain d where d: "Heuristic_Check h ord = Inr d" "sint (Score d) = min 100 (risk_points (h_th h) ord)"
    "Approved d \<longleftrightarrow> min 100 (risk_points (h_th h) ord) < sint (RejectScore (h_th h))"
    using Heuristic_Check_eq by blast
  obtain e where e: "LLM_Check ?l ord = Inr e" "sint (Score e) = llm_score ?l ord"
    "Approved e \<longleftrightarrow> llm_score ?l ord < sint (RejectScore (h_th h))"
    using LLM_Check_eq [of ?l ord] unfolding l by blast
  have s: "sint (Score d) \<le> llm_score ?l ord" "llm_score ?l ord \<le> 100"
    using llm_score_bounds [of ?l ord] unfolding l assess_score d(2) by auto
  have "e = d" if "?says = None"
  proof -
    have "case model of None \<Rightarrow> True | Some complete \<Rightarrow> modelScore complete ord = None"
      using that modelScore_opinion [of _ ord] by (auto split: option.split) (metis option.map_disc_iff)
    then show ?thesis using LLM_silent [where l = ?l and ord = ord] d(1) e(1) unfolding l by simp
  qed
  moreover have "llm_score ?l ord = max (sint (Score d)) n" if "?says = Some n" for n
    using that unfolding llm_score_opinion l by (simp add: assess_score d(2) Let_def)
  ultimately show ?thesis
    unfolding Let_def using s d(1) e(1) d(3) [folded d(2)] e(2,3)
    by (intro exI [of _ d] exI [of _ e]) (auto split: option.split sum.split)
qed

theorem model_only_raises_witness:
  "\<exists>d e. Heuristic_Check (NewHeuristicAnalyzer DefaultThresholds) sample_order = Inr d \<and>
     LLM_Check (NewLLMAnalyzer (NewHeuristicAnalyzer DefaultThresholds) (Some (\<lambda>p. Inr '' 95 '')) DefaultThresholds)
       sample_order = Inr e \<and> Approved d \<and> \<not> Approved e \<and> sint (Score d) \<le> sint (Score e)"
proof -
  let ?h = "NewHeuristicAnalyzer DefaultThresholds"
  let ?l = "NewLLMAnalyzer ?h (Some (\<lambda>p. Inr '' 95 '')) DefaultThresholds"
  have "map_sum id Approved (Heuristic_Check ?h sample_order) = Inr True"
    "map_sum id Approved (LLM_Check ?l sample_order) = Inr False" by code_simp+
  moreover have "RejectScore DefaultThresholds = RejectScore (h_th ?h)" by code_simp
  ultimately show ?thesis
    using model_only_raises [of DefaultThresholds ?h "Some (\<lambda>p. Inr '' 95 '')" sample_order]
    unfolding Let_def by auto
qed

text \<open>
  The heuristic is a floor for the score, not for the decision: an analyser whose own reject
  score is higher than the heuristic's approves an order that the heuristic rejects, without the
  model saying anything.
\<close>

theorem llm_threshold_overrides_heuristic:
  "let h = NewHeuristicAnalyzer DefaultThresholds;
       l = NewLLMAnalyzer h None (DefaultThresholds\<lparr>RejectScore := 101\<rparr>);
       ord = sample_order\<lparr>o_quantity := 200000000\<rparr>
   in map_sum id Approved (Heuristic_Check h ord) = Inr False \<and>
      map_sum id Approved (LLM_Check l ord) = Inr True"
  unfolding Let_def by (intro conjI; code_simp)

end
