(* ===== verification/Circuit_Breaker.thy ===== *)
theory Circuit_Breaker
  imports Command_Machine
begin

section \<open>The circuit breaker (internal/resilience/circuitbreaker.go)\<close>

text \<open>
  The breaker's struct is a record; its clock is read at most once per method, so every method
  takes the time it reads. \<open>onStateChange\<close> is \<open>None\<close> for a nil callback and otherwise the list
  of calls the callback has received. A method holds the mutex from its first to its last access,
  so concurrent callers interleave whole methods: \<open>breaker_step\<close> is the step relation of any
  number of callers between \<open>allow\<close> and \<open>record\<close>. \<open>Execute\<close> is the sequence of the two around
  an operation, a function on the state \<open>'s\<close> of whatever the operation touches.
\<close>

datatype State = StateClosed | StateOpen | StateHalfOpen

fun State_String :: "State \<Rightarrow> string" where
  "State_String StateClosed = ''closed''"
| "State_String StateOpen = ''open''"
| "State_String StateHalfOpen = ''half-open''"

record CircuitBreaker =
  cb_state :: State
  failures :: int64
  failureThreshold :: int64
  successThreshold :: int64
  halfOpenSuccess :: int64
  cooldown :: Duration
  openedAt :: Time
  onStateChange :: "(State \<times> State) list option"

record BreakerConfig =
  FailureThreshold :: int64
  SuccessThreshold :: int64
  Cooldown :: Duration
  OnStateChange :: "(State \<times> State) list option"

text \<open>The zero \<open>time.Time\<close> of the field \<open>openedAt\<close> is 1 January of year 1.\<close>

definition zero_time :: Time where
  "zero_time = - 62135596800000000000"

definition NewCircuitBreaker :: "BreakerConfig \<Rightarrow> CircuitBreaker" where
  "NewCircuitBreaker cfg =
     \<lparr>cb_state = StateClosed,
      failures = 0,
      failureThreshold = (if FailureThreshold cfg <s 1 then 5 else FailureThreshold cfg),
      successThreshold = (if SuccessThreshold cfg <s 1 then 1 else SuccessThreshold cfg),
      halfOpenSuccess = 0,
      cooldown = (if Cooldown cfg \<le>s 0 then 5 * Second else Cooldown cfg),
      openedAt = zero_time,
      onStateChange = OnStateChange cfg\<rparr>"

definition cb_transition :: "State \<Rightarrow> CircuitBreaker \<Rightarrow> CircuitBreaker" where
  "cb_transition to cb =
     (if cb_state cb = to then cb
      else (let from = cb_state cb in
            cb\<lparr>cb_state := to,
               onStateChange := map_option (\<lambda>calls. calls @ [(from, to)]) (onStateChange cb)\<rparr>))"

definition refresh :: "Time \<Rightarrow> CircuitBreaker \<Rightarrow> CircuitBreaker" where
  "refresh now cb =
     (if cb_state cb = StateOpen \<and> cooldown cb \<le>s time_Sub now (openedAt cb)
      then (cb_transition StateHalfOpen cb)\<lparr>halfOpenSuccess := 0\<rparr>
      else cb)"

definition cb_State :: "Time \<Rightarrow> CircuitBreaker \<Rightarrow> State \<times> CircuitBreaker" where
  "cb_State now cb = (let cb = refresh now cb in (cb_state cb, cb))"

definition allow :: "Time \<Rightarrow> CircuitBreaker \<Rightarrow> bool \<times> CircuitBreaker" where
  "allow now cb = (let cb = refresh now cb in (cb_state cb \<noteq> StateOpen, cb))"

definition trip :: "Time \<Rightarrow> CircuitBreaker \<Rightarrow> CircuitBreaker" where
  "trip now cb = (cb_transition StateOpen cb)\<lparr>openedAt := now, failures := 0\<rparr>"

definition record_outcome :: "bool \<Rightarrow> Time \<Rightarrow> CircuitBreaker \<Rightarrow> CircuitBreaker" where
  "record_outcome failed now cb =
     (if failed then
        (let cb = cb\<lparr>failures := failures cb + 1\<rparr> in
         case cb_state cb of
           StateHalfOpen \<Rightarrow> trip now cb
         | StateClosed \<Rightarrow> if failureThreshold cb \<le>s failures cb then trip now cb else cb
         | StateOpen \<Rightarrow> cb)
      else
        (case cb_state cb of
           StateHalfOpen \<Rightarrow>
             (let cb = cb\<lparr>halfOpenSuccess := halfOpenSuccess cb + 1\<rparr> in
              if successThreshold cb \<le>s halfOpenSuccess cb
              then (cb_transition StateClosed cb)\<lparr>failures := 0\<rparr> else cb)
         | StateClosed \<Rightarrow> cb\<lparr>failures := 0\<rparr>
         | StateOpen \<Rightarrow> cb))"

type_synonym ('s, 'a) Operation = "'s \<Rightarrow> 'a result \<times> 's"

definition Execute ::
  "Time \<Rightarrow> Time \<Rightarrow> ('s, 'a) Operation \<Rightarrow> CircuitBreaker \<Rightarrow> 's \<Rightarrow> 'a result \<times> CircuitBreaker \<times> 's" where
  "Execute t_allow t_record op cb s =
     (let (ok, cb) = allow t_allow cb in
      if \<not> ok then (Inl ErrCircuitOpen, cb, s)
      else (let (res, s) = op s;
                cb = record_outcome (\<not> is_ok res) t_record cb
            in (res, cb, s)))"

subsection \<open>Callers in flight\<close>

text \<open>
  The breaker with the number of calls that were admitted and have not been recorded yet. A
  caller is admitted or refused by \<open>allow\<close>, an admitted one finishes with \<open>record\<close>, and \<open>State\<close>
  may be read at any time.
\<close>

inductive breaker_step :: "CircuitBreaker \<times> nat \<Rightarrow> CircuitBreaker \<times> nat \<Rightarrow> bool" where
  Admit: "allow t cb = (True, cb') \<Longrightarrow> breaker_step (cb, n) (cb', Suc n)"
| Refuse: "allow t cb = (False, cb') \<Longrightarrow> breaker_step (cb, n) (cb', n)"
| Finish: "breaker_step (cb, Suc n) (record_outcome failed t cb, n)"
| Observe: "cb_State t cb = (s, cb') \<Longrightarrow> breaker_step (cb, n) (cb', n)"

inductive breaker_reach :: "BreakerConfig \<Rightarrow> CircuitBreaker \<times> nat \<Rightarrow> bool" for cfg where
  start: "breaker_reach cfg (NewCircuitBreaker cfg, 0)"
| step: "breaker_reach cfg s \<Longrightarrow> breaker_step s s' \<Longrightarrow> breaker_reach cfg s'"

inductive_cases breaker_stepE: "breaker_step (cb, n) s'"

subsection \<open>Invariant\<close>

text \<open>
  The configuration is positive and never changes; a closed breaker has counted fewer failures
  than its threshold, a half-open one fewer successes than its threshold.
\<close>

definition breaker_inv :: "BreakerConfig \<Rightarrow> CircuitBreaker \<Rightarrow> bool" where
  "breaker_inv cfg cb \<longleftrightarrow>
     failureThreshold cb = failureThreshold (NewCircuitBreaker cfg) \<and>
     successThreshold cb = successThreshold (NewCircuitBreaker cfg) \<and>
     cooldown cb = cooldown (NewCircuitBreaker cfg) \<and>
     0 < sint (failureThreshold cb) \<and> 0 < sint (successThreshold cb) \<and> 0 < sint (cooldown cb) \<and>
     (cb_state cb = StateClosed \<longrightarrow> 0 \<le> sint (failures cb) \<and> sint (failures cb) < sint (failureThreshold cb)) \<and>
     (cb_state cb = StateHalfOpen \<longrightarrow>
        0 \<le> sint (halfOpenSuccess cb) \<and> sint (halfOpenSuccess cb) < sint (successThreshold cb))"

lemmas breaker_defs = cb_transition_def refresh_def cb_State_def allow_def trip_def record_outcome_def Let_def

lemma NewCircuitBreaker_inv: "breaker_inv cfg (NewCircuitBreaker cfg)"
  by (simp add: breaker_inv_def NewCircuitBreaker_def go_arith Second_def)

lemma refresh_inv: "breaker_inv cfg cb \<Longrightarrow> breaker_inv cfg (refresh t cb)"
  by (auto simp: breaker_inv_def breaker_defs)

lemma sint_succ: "sint (x :: int64) < sint (y :: int64) \<Longrightarrow> sint (x + 1) = sint x + 1"
  using sint_bounds [of x] sint_bounds [of y] sint_add_in [of x 1] by (simp add: in_i64_iff)

lemma record_inv:
  assumes "breaker_inv cfg cb"
  shows "breaker_inv cfg (record_outcome failed t cb)"
proof (cases "cb_state cb")
  case StateClosed
  with assms have "sint (failures cb + 1) = sint (failures cb) + 1"
    by (intro sint_succ [where y = "failureThreshold cb"]) (clarsimp simp: breaker_inv_def)
  with assms StateClosed show ?thesis by (clarsimp simp: breaker_inv_def breaker_defs go_arith)
next
  case StateHalfOpen
  with assms have "sint (halfOpenSuccess cb + 1) = sint (halfOpenSuccess cb) + 1"
    by (intro sint_succ [where y = "successThreshold cb"]) (clarsimp simp: breaker_inv_def)
  with assms StateHalfOpen show ?thesis by (clarsimp simp: breaker_inv_def breaker_defs go_arith)
qed (use assms in \<open>clarsimp simp: breaker_inv_def breaker_defs\<close>)

lemma breaker_step_inv: "breaker_step s s' \<Longrightarrow> breaker_inv cfg (fst s) \<Longrightarrow> breaker_inv cfg (fst s')"
  by (induction rule: breaker_step.induct) (auto simp: allow_def cb_State_def Let_def refresh_inv record_inv)

lemma breaker_reach_inv: "breaker_reach cfg s \<Longrightarrow> breaker_inv cfg (fst s)"
  by (induction rule: breaker_reach.induct) (simp_all add: NewCircuitBreaker_inv breaker_step_inv)


text \<open>The calls of the observer: a path of legal changes from \<open>StateClosed\<close> to the current state.\<close>

definition legal_change :: "State \<Rightarrow> State \<Rightarrow> bool" where
  "legal_change a b \<longleftrightarrow>
     (a, b) \<in> {(StateClosed, StateOpen), (StateOpen, StateHalfOpen), (StateHalfOpen, StateOpen),
        (StateHalfOpen, StateClosed)}"

fun change_path :: "State \<Rightarrow> (State \<times> State) list \<Rightarrow> State \<Rightarrow> bool" where
  "change_path a [] b \<longleftrightarrow> a = b"
| "change_path a ((x, y) # cs) b \<longleftrightarrow> a = x \<and> legal_change x y \<and> change_path y cs b"

lemma change_path_snoc [simp]:
  "change_path a (cs @ [(x, y)]) b \<longleftrightarrow> change_path a cs x \<and> legal_change x y \<and> y = b"
  by (induction cs arbitrary: a) auto

definition observed :: "CircuitBreaker \<Rightarrow> bool" where
  "observed cb \<longleftrightarrow> (\<exists>cs. onStateChange cb = Some cs \<and> change_path StateClosed cs (cb_state cb))"

lemma observed_methods:
  "observed cb \<Longrightarrow> observed (refresh t cb)" "observed cb \<Longrightarrow> observed (record_outcome failed t cb)"
  by (auto simp: observed_def breaker_defs legal_change_def split: State.split)

lemma breaker_reach_observed:
  "breaker_reach cfg s \<Longrightarrow> OnStateChange cfg = Some [] \<Longrightarrow> observed (fst s)"
proof (induction rule: breaker_reach.induct)
  case start
  then show ?case by (simp add: observed_def NewCircuitBreaker_def)
next
  case (step s s')
  from step(2) step.IH [OF step.prems] show ?case
    by (induction rule: breaker_step.induct) (auto simp: allow_def cb_State_def Let_def observed_methods)
qed

subsection \<open>Sequential calls\<close>

text \<open>A caller that executes one operation after the other; only the results matter here.\<close>

fun execs :: "(Time \<times> Time \<times> 'a result) list \<Rightarrow> CircuitBreaker \<Rightarrow> CircuitBreaker" where
  "execs [] cb = cb"
| "execs ((t, u, r) # cs) cb = execs cs (fst (snd (Execute t u (\<lambda>s. (r, s)) cb ())))"

lemma execs_append [simp]: "execs (cs @ ds) cb = execs ds (execs cs cb)"
  by (induction cs cb rule: execs.induct) auto

lemma Execute_steps: "breaker_reach cfg (cb, n) \<Longrightarrow> breaker_reach cfg (fst (snd (Execute t u op cb s)), n)"
proof -
  assume r: "breaker_reach cfg (cb, n)"
  obtain ok cb' where a: "allow t cb = (ok, cb')" by fastforce
  obtain res s' where o: "op s = (res, s')" by fastforce
  show ?thesis
  proof (cases ok)
    case True
    with a have "allow t cb = (True, cb')" by simp
    from breaker_reach.step [OF r Admit [OF this]] have "breaker_reach cfg (cb', Suc n)" .
    then have "breaker_reach cfg (record_outcome (\<not> is_ok res) u cb', n)" by (rule breaker_reach.step) (rule Finish)
    then show ?thesis using a True by (simp add: Execute_def o)
  next
    case False
    with a have "allow t cb = (False, cb')" by simp
    from breaker_reach.step [OF r Refuse [OF this]] have "breaker_reach cfg (cb', n)" .
    then show ?thesis using a False by (simp add: Execute_def)
  qed
qed

lemma execs_reach: "breaker_reach cfg (cb, n) \<Longrightarrow> breaker_reach cfg (execs cs cb, n)"
  by (induction cs cb rule: execs.induct) (simp_all add: Execute_steps)

lemma breaker_execs_inv: "breaker_inv cfg (execs cs (NewCircuitBreaker cfg))"
  using breaker_reach_inv [OF execs_reach [OF breaker_reach.start [of cfg], of cs]] by simp

text \<open>Whether a run of outcomes contains enough failures in a row, \<open>f\<close> of them seen before.\<close>

fun enough_failures :: "int \<Rightarrow> int \<Rightarrow> 'a result list \<Rightarrow> bool" where
  "enough_failures k f [] \<longleftrightarrow> False"
| "enough_failures k f (r # rs) \<longleftrightarrow>
     (if is_ok r then enough_failures k 0 rs else k \<le> f + 1 \<or> enough_failures k (f + 1) rs)"

definition failure_window :: "nat \<Rightarrow> 'a result list \<Rightarrow> bool" where
  "failure_window k rs \<longleftrightarrow> (\<exists>us vs ws. rs = us @ vs @ ws \<and> length vs = k \<and> (\<forall>r \<in> set vs. \<not> is_ok r))"

definition failure_prefix :: "nat \<Rightarrow> 'a result list \<Rightarrow> bool" where
  "failure_prefix k rs \<longleftrightarrow> k \<le> length rs \<and> (\<forall>r \<in> set (take k rs). \<not> is_ok r)"

lemma failure_prefix_simps [simp]:
  "failure_prefix 0 rs" "\<not> failure_prefix (Suc k) []"
  "failure_prefix (Suc k) (r # rs) \<longleftrightarrow> \<not> is_ok r \<and> failure_prefix k rs"
  by (auto simp: failure_prefix_def)

lemma failure_window_Cons:
  "failure_window k (r # rs) \<longleftrightarrow> failure_prefix k (r # rs) \<or> failure_window k rs"
proof
  assume "failure_window k (r # rs)"
  then obtain us vs ws where w: "r # rs = us @ vs @ ws" "length vs = k" "\<forall>r \<in> set vs. \<not> is_ok r"
    by (auto simp: failure_window_def)
  show "failure_prefix k (r # rs) \<or> failure_window k rs"
  proof (cases us)
    case Nil
    with w show ?thesis by (auto simp: failure_prefix_def)
  next
    case (Cons u us')
    with w show ?thesis by (auto simp: failure_window_def)
  qed
next
  assume "failure_prefix k (r # rs) \<or> failure_window k rs"
  then show "failure_window k (r # rs)"
  proof
    assume "failure_prefix k (r # rs)"
    then show ?thesis unfolding failure_window_def failure_prefix_def
      by (intro exI [of _ "[]"] exI [of _ "take k (r # rs)"] exI [of _ "drop k (r # rs)"]) auto
  next
    assume "failure_window k rs"
    then show ?thesis unfolding failure_window_def by (metis append_Cons)
  qed
qed

lemma failure_prefix_mono: "failure_prefix k rs \<Longrightarrow> j \<le> k \<Longrightarrow> failure_prefix j rs"
  by (auto simp: failure_prefix_def dest: set_take_subset_set_take [THEN subsetD])

lemma enough_failures_iff:
  "f < k \<Longrightarrow> enough_failures (int k) (int f) rs \<longleftrightarrow> failure_prefix (k - f) rs \<or> failure_window k rs"
proof (induction rs arbitrary: f)
  case Nil
  then show ?case by (cases "k - f") (auto simp: failure_window_def)
next
  case (Cons r rs)
  obtain d where d: "k - f = Suc d" using Cons.prems by (cases "k - f") auto
  show ?case
  proof (cases "is_ok r")
    case True
    have "\<not> failure_prefix k (r # rs)" using True Cons.prems by (cases k) auto
    moreover have "failure_prefix k rs \<Longrightarrow> failure_window k rs"
      by (cases rs) (use Cons.prems in \<open>auto simp: failure_window_Cons failure_prefix_def\<close>)
    ultimately show ?thesis using True d Cons.IH [of 0] Cons.prems by (auto simp: failure_window_Cons)
  next
    case False
    show ?thesis
    proof (cases "Suc f = k")
      case True
      then show ?thesis using False d by auto
    next
      case nk: False
      have "int f + 1 = int (Suc f)" "\<not> int k \<le> int (Suc f)" using nk Cons.prems by auto
      then have "enough_failures (int k) (int f) (r # rs) \<longleftrightarrow> enough_failures (int k) (int (Suc f)) rs"
        using False by (simp only: enough_failures.simps if_False simp_thms)
      moreover have "enough_failures (int k) (int (Suc f)) rs \<longleftrightarrow> failure_prefix d rs \<or> failure_window k rs"
      proof -
        have "k - Suc f = d" "Suc f < k" using d nk Cons.prems by auto
        then show ?thesis using Cons.IH [of "Suc f"] by simp
      qed
      moreover have "failure_prefix (k - f) (r # rs) \<longleftrightarrow> failure_prefix d rs" using False d by simp
      moreover have "failure_prefix k (r # rs) \<Longrightarrow> failure_prefix (k - f) (r # rs)"
        by (rule failure_prefix_mono [of k]) simp_all
      ultimately show ?thesis unfolding failure_window_Cons by blast
    qed
  qed
qed


lemma Execute_closed:
  "cb_state cb = StateClosed \<Longrightarrow>
   fst (snd (Execute t u (\<lambda>s. (r, s)) cb ())) = record_outcome (\<not> is_ok r) u cb"
  by (simp add: Execute_def allow_def refresh_def)

text \<open>From a closed breaker: some prefix of the calls opens it exactly if there are enough failures.\<close>

lemma opens_iff_enough:
  assumes "breaker_inv cfg cb" "cb_state cb = StateClosed"
  shows "(\<exists>m. cb_state (execs (take m cs) cb) = StateOpen) \<longleftrightarrow>
     enough_failures (sint (failureThreshold cb)) (sint (failures cb)) (map (snd \<circ> snd) cs)"
  using assms
proof (induction cs arbitrary: cb)
  case Nil
  then show ?case by simp
next
  case (Cons c cs)
  obtain t u r where c: "c = (t, u, r)" by (cases c)
  let ?cb = "record_outcome (\<not> is_ok r) u cb"
  have s: "sint (failures cb + 1) = sint (failures cb) + 1"
    using Cons.prems by (intro sint_succ [where y = "failureThreshold cb"]) (clarsimp simp: breaker_inv_def)
  have iv: "breaker_inv cfg ?cb" using Cons.prems(1) by (rule record_inv)
  have first: "(\<exists>m. cb_state (execs (take m (c # cs)) cb) = StateOpen) \<longleftrightarrow>
      (\<exists>m. cb_state (execs (take m cs) ?cb) = StateOpen)"
  proof
    assume "\<exists>m. cb_state (execs (take m (c # cs)) cb) = StateOpen"
    then obtain m where "cb_state (execs (take m (c # cs)) cb) = StateOpen" by blast
    then show "\<exists>m. cb_state (execs (take m cs) ?cb) = StateOpen"
      using Cons.prems(2) by (cases m) (auto simp: c Execute_closed)
  next
    assume "\<exists>m. cb_state (execs (take m cs) ?cb) = StateOpen"
    then obtain m where "cb_state (execs (take m cs) ?cb) = StateOpen" by blast
    then show "\<exists>m. cb_state (execs (take m (c # cs)) cb) = StateOpen"
      using Cons.prems(2) by (intro exI [of _ "Suc m"]) (simp add: c Execute_closed)
  qed
  show ?case
  proof (cases "is_ok r")
    case True
    then have "?cb = cb\<lparr>failures := 0\<rparr>" using Cons.prems(2) by (simp add: record_outcome_def)
    then show ?thesis using Cons.IH [OF iv] Cons.prems(2) True unfolding first by (simp add: c)
  next
    case False
    show ?thesis
    proof (cases "sint (failureThreshold cb) \<le> sint (failures cb) + 1")
      case True
      then have "cb_state (execs (take 0 cs) ?cb) = StateOpen"
        using Cons.prems(2) False s by (simp add: breaker_defs go_arith)
      then have "\<exists>m. cb_state (execs (take m cs) ?cb) = StateOpen" by blast
      then show ?thesis using True False unfolding first by (simp add: c)
    next
      case low: False
      then have "?cb = cb\<lparr>failures := failures cb + 1\<rparr>"
        using Cons.prems(2) False s by (simp add: record_outcome_def go_arith)
      then show ?thesis using Cons.IH [OF iv] Cons.prems(2) False low s unfolding first by (simp add: c)
    qed
  qed
qed

subsection \<open>Cool-down and recovery\<close>

lemma refresh_cooling:
  "0 < sint (cooldown cb) \<Longrightarrow> t - openedAt cb < sint (cooldown cb) \<Longrightarrow> refresh t cb = cb"
  using sint_bounds [of "cooldown cb"] by (simp add: refresh_def go_arith sint_time_Sub max_def)

lemma refresh_cooled:
  "cb_state cb = StateOpen \<Longrightarrow> sint (cooldown cb) \<le> t - openedAt cb \<Longrightarrow>
   refresh t cb = (cb_transition StateHalfOpen cb)\<lparr>halfOpenSuccess := 0\<rparr>"
  using sint_bounds [of "cooldown cb"] by (simp add: refresh_def go_arith sint_time_Sub)

lemma half_open_successes:
  assumes "breaker_inv cfg cb" "cb_state cb = StateHalfOpen" "\<forall>c \<in> set cs. is_ok (snd (snd c))"
    and "int (length cs) = sint (successThreshold cb) - sint (halfOpenSuccess cb)"
  shows "cb_state (execs cs cb) = StateClosed \<and> failures (execs cs cb) = 0"
  using assms
proof (induction cs arbitrary: cb)
  case Nil
  then show ?case by (clarsimp simp: breaker_inv_def)
next
  case (Cons c cs)
  obtain t u r where c: "c = (t, u, r)" by (cases c)
  let ?cb = "record_outcome False u cb"
  have s: "sint (halfOpenSuccess cb + 1) = sint (halfOpenSuccess cb) + 1"
    using Cons.prems by (intro sint_succ [where y = "successThreshold cb"]) (clarsimp simp: breaker_inv_def)
  have e: "execs (c # cs) cb = execs cs ?cb"
    using Cons.prems(2,3) by (simp add: c Execute_def allow_def refresh_def)
  show ?case
  proof (cases cs)
    case Nil
    then show ?thesis using Cons.prems(2,4) s unfolding e by (simp add: breaker_defs go_arith)
  next
    case (Cons d ds)
    then have l: "sint (halfOpenSuccess cb) + 1 < sint (successThreshold cb)" using Cons.prems(4) by simp
    then have cb: "?cb = cb\<lparr>halfOpenSuccess := halfOpenSuccess cb + 1\<rparr>"
      using Cons.prems(2) s by (simp add: record_outcome_def go_arith)
    have "cb_state (execs cs ?cb) = StateClosed \<and> failures (execs cs ?cb) = 0"
      using Cons.prems record_inv [OF Cons.prems(1), of False u] s
      by (intro Cons.IH) (simp_all add: cb)
    then show ?thesis unfolding e .
  qed
qed


lemma New_sel [simp]:
  "cb_state (NewCircuitBreaker cfg) = StateClosed" "failures (NewCircuitBreaker cfg) = 0"
  by (simp_all add: NewCircuitBreaker_def)

lemma breaker_inv_pos:
  "breaker_inv cfg cb \<Longrightarrow> 0 < sint (cooldown cb)" "breaker_inv cfg cb \<Longrightarrow> 0 < sint (successThreshold cb)"
  "breaker_inv cfg cb \<Longrightarrow> 0 < sint (failureThreshold cb)"
  unfolding breaker_inv_def by blast+

lemma trips_iff:
  "(\<exists>m. cb_state (execs (take m cs) (NewCircuitBreaker cfg)) = StateOpen) \<longleftrightarrow>
   failure_window (nat (sint (failureThreshold (NewCircuitBreaker cfg)))) (map (snd \<circ> snd) cs)"
proof -
  let ?cb = "NewCircuitBreaker cfg" and ?rs = "map (snd \<circ> snd) cs"
  let ?k = "nat (sint (failureThreshold ?cb))"
  have k: "0 < ?k" "int ?k = sint (failureThreshold ?cb)"
    using breaker_inv_pos [OF NewCircuitBreaker_inv [of cfg]] by auto
  have "failure_prefix ?k ?rs \<Longrightarrow> failure_window ?k ?rs"
    using k(1) by (cases ?rs) (auto simp: failure_window_Cons failure_prefix_def)
  then show ?thesis
    using opens_iff_enough [OF NewCircuitBreaker_inv [of cfg] New_sel(1), of cs]
      enough_failures_iff [OF k(1), of ?rs] k(2) by auto
qed

subsection \<open>Properties\<close>

text \<open>
  C34. The breaker's invariant under concurrency: however any number of callers interleave, the
  configured limits stay positive and as configured, a closed breaker has seen fewer failures in a
  row than its threshold and a half-open one fewer successes than its threshold (so both counters
  never wrap around), and the observer has been told exactly a path of legal state changes, closed
  to open, open to half-open, half-open to open or closed, that leads to the current state.
\<close>

theorem breaker_invariant:
  assumes "breaker_reach cfg (cb, n)"
  shows "breaker_inv cfg cb \<and> (OnStateChange cfg = Some [] \<longrightarrow> observed cb)"
  using breaker_reach_inv [OF assms] breaker_reach_observed [OF assms] by simp

definition sample_cfg :: BreakerConfig where
  "sample_cfg = \<lparr>FailureThreshold = 2, SuccessThreshold = 1, Cooldown = Second, OnStateChange = Some []\<rparr>"

definition boom :: "unit result" where
  "boom = Inl (ErrText ''boom'')"

theorem breaker_invariant_witness:
  "observed (execs [(1, 2, boom), (3, 4, boom), (2000000000, 2000000001, Inr ())] (NewCircuitBreaker sample_cfg))"
proof -
  have "OnStateChange sample_cfg = Some []" by (simp add: sample_cfg_def)
  with breaker_invariant [OF execs_reach [OF breaker_reach.start [of sample_cfg]]] show ?thesis by blast
qed

text \<open>
  C33. The breaker trips exactly on consecutive failures: a new breaker is opened at some point
  of a sequence of calls if and only if the results contain as many failures in a row as the
  failure threshold (5 if it was not configured).
\<close>

theorem trips_iff_consecutive_failures:
  "(\<exists>m. cb_state (execs (take m cs) (NewCircuitBreaker cfg)) = StateOpen) \<longleftrightarrow>
   failure_window (nat (if sint (FailureThreshold cfg) < 1 then 5 else sint (FailureThreshold cfg))) (map (snd \<circ> snd) cs)"
  unfolding trips_iff by (simp add: NewCircuitBreaker_def go_arith)

text \<open>
  While it is open the breaker fails fast: until the cool-down has elapsed, every call
  returns \<open>ErrCircuitOpen\<close>, the operation is not run (what it would touch is unchanged) and the
  breaker stays as it is. Once the cool-down has elapsed the operation is run, and if it fails
  the breaker is open again from that moment.
\<close>

theorem open_fails_fast_then_probes:
  assumes "breaker_inv cfg cb" "cb_state cb = StateOpen"
  shows "let (res, cb', s') = Execute t u op cb s in
    if t - openedAt cb < sint (cooldown cb) then res = Inl ErrCircuitOpen \<and> cb' = cb \<and> s' = s
    else (res, s') = op s \<and> (\<not> is_ok res \<longrightarrow> cb_state cb' = StateOpen \<and> openedAt cb' = u)"
proof (cases "t - openedAt cb < sint (cooldown cb)")
  case True
  then show ?thesis
    using refresh_cooling [OF breaker_inv_pos(1) [OF assms(1)]] assms(2)
    by (simp add: Execute_def allow_def)
next
  case False
  then have "refresh t cb = (cb_transition StateHalfOpen cb)\<lparr>halfOpenSuccess := 0\<rparr>"
    using assms(2) by (intro refresh_cooled) auto
  with False assms(2) show ?thesis
    by (auto simp: Execute_def allow_def cb_transition_def record_outcome_def trip_def Let_def split: prod.split)
qed

definition sample_open :: CircuitBreaker where
  "sample_open = execs [(1, 2, boom), (3, 4, boom)] (NewCircuitBreaker sample_cfg)"

lemma sample_open:
  "breaker_inv sample_cfg sample_open" "cb_state sample_open = StateOpen" "openedAt sample_open = 4"
  "cooldown sample_open = Second" "sint (successThreshold sample_open) = 1"
proof -
  show "breaker_inv sample_cfg sample_open"
    unfolding sample_open_def by (rule breaker_execs_inv)
qed code_simp+

theorem open_fails_fast_then_probes_witness:
  "fst (Execute 1000000003 9 (\<lambda>s. (Inr s, s + 1)) sample_open (0 :: int)) = Inl ErrCircuitOpen \<and>
   fst (Execute 1000000004 9 (\<lambda>s. (Inr s, s + 1)) sample_open (0 :: int)) = Inr 0"
  using open_fails_fast_then_probes [OF sample_open(1,2), of 1000000003 9 "\<lambda>s. (Inr s, s + 1)" "0 :: int"]
    open_fails_fast_then_probes [OF sample_open(1,2), of 1000000004 9 "\<lambda>s. (Inr s, s + 1)" "0 :: int"]
  by (simp add: sample_open Second_def split: prod.splits)

text \<open>
  Recovery: an open breaker whose cool-down has elapsed closes, with no failures on record,
  after as many successful calls as the success threshold.
\<close>

theorem breaker_recovers:
  assumes "breaker_inv cfg cb" "cb_state cb = StateOpen"
    and "sint (cooldown cb) \<le> t - openedAt cb"
    and "int (length cs) = sint (successThreshold cb)" "\<forall>c \<in> set cs. is_ok (snd (snd c))"
    and "cs = (t, u, r) # cs'"
  shows "cb_state (execs cs cb) = StateClosed \<and> failures (execs cs cb) = 0"
proof -
  let ?cb = "refresh t cb"
  have h: "?cb = (cb_transition StateHalfOpen cb)\<lparr>halfOpenSuccess := 0\<rparr>"
    using assms(2,3) by (rule refresh_cooled)
  have "execs cs cb = execs cs ?cb"
    using assms(2) by (simp add: assms(6) Execute_def allow_def h) (simp add: refresh_def cb_transition_def)
  moreover have "cb_state (execs cs ?cb) = StateClosed \<and> failures (execs cs ?cb) = 0"
    using assms(2,4,5) refresh_inv [OF assms(1), of t]
    by (intro half_open_successes [of cfg]) (auto simp: h cb_transition_def)
  ultimately show ?thesis by simp
qed

theorem breaker_recovers_witness:
  "cb_state (execs [(1000000004, 1000000005, Inr ())] sample_open) = StateClosed"
  using breaker_recovers [OF sample_open(1,2), of 1000000004 "[(1000000004, 1000000005, Inr ())]"
      1000000005 "Inr ()" "[]"]
  by (simp add: sample_open Second_def)

text \<open>
  A half-open breaker reserves nothing: for every configuration and every number \<open>n\<close> the
  breaker can be half-open with \<open>n\<close> admitted calls in flight at once.
\<close>

theorem half_open_probes_unbounded:
  "\<exists>cb. breaker_reach cfg (cb, n) \<and> cb_state cb = StateHalfOpen"
proof (induction n)
  case 0
  let ?k = "nat (sint (failureThreshold (NewCircuitBreaker cfg)))"
  let ?cs = "replicate ?k (0 :: Time, 0 :: Time, boom)"
  have "failure_window ?k (map (snd \<circ> snd) ?cs)"
    unfolding failure_window_def
    by (rule exI [of _ "[]"], rule exI [of _ "map (snd \<circ> snd) ?cs"], rule exI [of _ "[]"])
      (simp add: boom_def)
  then obtain m where m: "cb_state (execs (take m ?cs) (NewCircuitBreaker cfg)) = StateOpen"
    using trips_iff [of ?cs cfg] by blast
  let ?cb = "execs (take m ?cs) (NewCircuitBreaker cfg)"
  have r: "breaker_reach cfg (?cb, 0)" by (rule execs_reach [OF breaker_reach.start])
  let ?t = "openedAt ?cb + sint (cooldown ?cb)"
  have "cb_state (refresh ?t ?cb) = StateHalfOpen"
    using m by (simp add: refresh_cooled cb_transition_def)
  moreover have "breaker_step (?cb, 0) (refresh ?t ?cb, 0)"
    by (rule Observe [of ?t]) (simp add: cb_State_def Let_def)
  ultimately show ?case using breaker_reach.step [OF r] by blast
next
  case (Suc n)
  then obtain cb where cb: "breaker_reach cfg (cb, n)" "cb_state cb = StateHalfOpen" by blast
  then have "breaker_step (cb, n) (cb, Suc n)"
    by (intro Admit [of 0]) (simp add: allow_def refresh_def)
  with cb show ?case using breaker_reach.step by blast
qed

end
