(* ===== verification/Limiter.thy ===== *)
theory Limiter
  imports Go_Float Circuit_Breaker
begin

section \<open>Rate limiter, bulkhead and timeout (internal/resilience/limiter.go)\<close>

text \<open>
  The token bucket over the model of \<open>float64\<close>; its clock is read once per call, so \<open>Allow\<close> takes
  the time it reads. The bulkhead's channel of slots is the number of tokens in it and its
  capacity; a call holds a slot while its operation runs, so concurrent calls are steps of
  \<open>bulkhead_step\<close>. \<open>WithTimeout\<close> races the operation against the deadline: which of them the
  \<open>select\<close> sees first is the argument \<open>timed_out\<close>; the operation runs to its end in its own
  goroutine in either case, so its effects are kept; that they come before the next step of the caller
  is an assumption, and so is that an abandoned operation does not panic, which would end the process.
\<close>

subsection \<open>Token bucket\<close>

record RateLimiter =
  capacity :: float64
  tokens :: float64
  refillRate :: float64
  last_refill :: Time

definition newRateLimiterWithClock :: "float64 \<Rightarrow> int64 \<Rightarrow> Time \<Rightarrow> RateLimiter" where
  "newRateLimiterWithClock refillPerSec cap now =
     (let cap = (if cap <s 1 then 1 else cap);
          refillPerSec = (if f_le refillPerSec (Fin 0) then Fin 1 else refillPerSec)
      in \<lparr>capacity = f_of_int64 cap, tokens = f_of_int64 cap, refillRate = refillPerSec,
          last_refill = now\<rparr>)"

definition NewRateLimiter :: "float64 \<Rightarrow> int64 \<Rightarrow> Time \<Rightarrow> RateLimiter" where
  "NewRateLimiter refillPerSec cap now = newRateLimiterWithClock refillPerSec cap now"

definition refill :: "Time \<Rightarrow> RateLimiter \<Rightarrow> RateLimiter" where
  "refill now r =
     (let elapsed = Seconds (time_Sub now (last_refill r)) in
      if f_le elapsed (Fin 0) then r
      else (let toks = f_add (tokens r) (f_mul elapsed (refillRate r));
                toks = (if f_less (capacity r) toks then capacity r else toks)
            in r\<lparr>tokens := toks, last_refill := now\<rparr>))"

definition Allow :: "Time \<Rightarrow> RateLimiter \<Rightarrow> bool \<times> RateLimiter" where
  "Allow now r =
     (let r = refill now r in
      if f_le (Fin 1) (tokens r) then (True, r\<lparr>tokens := f_sub (tokens r) (Fin 1)\<rparr>)
      else (False, r))"

definition Guard :: "Time \<Rightarrow> ('s, 'a) Operation \<Rightarrow> RateLimiter \<Rightarrow> 's \<Rightarrow> 'a result \<times> RateLimiter \<times> 's" where
  "Guard now op r s =
     (let (ok, r) = Allow now r in
      if \<not> ok then (Inl ErrRateLimited, r, s)
      else (let (res, s) = op s in (res, r, s)))"

subsection \<open>Bulkhead\<close>

record Bulkhead =
  slots :: nat
  slots_cap :: nat

definition NewBulkhead :: "int64 \<Rightarrow> Bulkhead" where
  "NewBulkhead maxConcurrent =
     (let n = (if maxConcurrent <s 1 then 1 else maxConcurrent) in
      \<lparr>slots = 0, slots_cap = nat (sint n)\<rparr>)"

text \<open>
  The \<open>select\<close> of \<open>RunBulkhead\<close>: a free slot and a cancelled context are both ready cases, of
  which the runtime picks one (\<open>pick_ctx\<close>); the default is taken only if neither is ready.
\<close>

datatype bulkhead_choice = TakeSlot | CtxDone error | Full

definition bulkhead_select :: "bool \<Rightarrow> error option \<Rightarrow> Bulkhead \<Rightarrow> bulkhead_choice" where
  "bulkhead_select pick_ctx ctx b =
     (case ctx of
        Some e \<Rightarrow> if slots b < slots_cap b \<and> \<not> pick_ctx then TakeSlot else CtxDone e
      | None \<Rightarrow> if slots b < slots_cap b then TakeSlot else Full)"

definition acquire :: "Bulkhead \<Rightarrow> Bulkhead" where
  "acquire b = b\<lparr>slots := slots b + 1\<rparr>"

definition release :: "Bulkhead \<Rightarrow> Bulkhead" where
  "release b = b\<lparr>slots := slots b - 1\<rparr>"

definition RunBulkhead ::
  "bool \<Rightarrow> error option \<Rightarrow> ('s, 'a) Operation \<Rightarrow> Bulkhead \<Rightarrow> 's \<Rightarrow> 'a result \<times> Bulkhead \<times> 's" where
  "RunBulkhead pick_ctx ctx op b s =
     (case bulkhead_select pick_ctx ctx b of
        TakeSlot \<Rightarrow> (let b = acquire b; (res, s) = op s in (res, release b, s))
      | CtxDone e \<Rightarrow> (Inl e, b, s)
      | Full \<Rightarrow> (Inl ErrBulkheadFull, b, s))"

text \<open>Concurrent callers: the bulkhead with the number of operations that are running.\<close>

inductive bulkhead_step :: "Bulkhead \<times> nat \<Rightarrow> Bulkhead \<times> nat \<Rightarrow> bool" where
  Enter: "bulkhead_select p ctx b = TakeSlot \<Longrightarrow> bulkhead_step (b, n) (acquire b, Suc n)"
| Leave: "bulkhead_step (b, Suc n) (release b, n)"

inductive bulkhead_reach :: "int64 \<Rightarrow> Bulkhead \<times> nat \<Rightarrow> bool" for k where
  start: "bulkhead_reach k (NewBulkhead k, 0)"
| step: "bulkhead_reach k s \<Longrightarrow> bulkhead_step s s' \<Longrightarrow> bulkhead_reach k s'"

inductive_cases bulkhead_stepE: "bulkhead_step (b, n) s'"

subsection \<open>Timeout\<close>

definition WithTimeout :: "error option \<Rightarrow> ('s, 'a) Operation \<Rightarrow> 's \<Rightarrow> 'a result \<times> 's" where
  "WithTimeout timed_out op s =
     (let (res, s) = op s in
      case timed_out of
        Some e \<Rightarrow> (Inl e, s)
      | None \<Rightarrow> (res, s))"

subsection \<open>The bucket's invariant\<close>


text \<open>Finiteness and lower bounds of the conversions.\<close>

lemma fl_finite: "\<bar>x\<bar> < pow2 1023 \<Longrightarrow> \<exists>v. fl x = Fin v"
proof (cases "x = 0")
  case False
  assume "\<bar>x\<bar> < pow2 1023"
  then have "ulp_exp x \<le> 970" using ilog2_less [of "\<bar>x\<bar>" 1023] False by (simp add: ulp_exp_def)
  then show ?thesis using False by (simp add: fl_def Let_def)
qed (simp add: fl_def)

lemma fl_not_NaN [simp]: "fl x \<noteq> NaN"
  by (simp add: fl_def Let_def)

lemma fl_ge_pow2:
  assumes "pow2 k \<le> x" "- 1022 \<le> k"
  shows "fl x = PInf \<or> (\<exists>v. fl x = Fin v \<and> pow2 k \<le> v)"
proof -
  have x: "0 < x" using assms(1) pow2_pos(1) [of k] by linarith
  let ?l = "ilog2 x" and ?e = "ulp_exp x"
  have "pow2 k < pow2 (?l + 1)" using assms(1) ilog2_spec(2) [OF x] by linarith
  then have l: "k \<le> ?l" using pow2_less by fastforce
  have e: "?e \<le> ?l" using l assms(2) x by (simp add: ulp_exp_def)
  have "of_int (2 ^ nat (?l - ?e)) * pow2 ?e \<le> x"
    using ilog2_spec(1) [OF x] pow2_split [OF e] by simp
  then have "of_int (2 ^ nat (?l - ?e)) \<le> x / pow2 ?e" by (simp only: le_divide_eq pow2_pos if_True)
  then have "2 ^ nat (?l - ?e) \<le> round_even (x / pow2 ?e)" by (rule round_even_ge)
  then have "pow2 ?l \<le> of_int (round_even (x / pow2 ?e)) * pow2 ?e"
    unfolding pow2_split [OF e] by (intro mult_right_mono) (simp_all only: of_int_le_iff pow2_pos)
  then have "pow2 k \<le> of_int (round_even (x / pow2 ?e)) * pow2 ?e" using pow2_mono [OF l] by linarith
  with x show ?thesis by (auto simp: fl_def Let_def)
qed

lemma fl_ge_one: "1 \<le> x \<Longrightarrow> fl x = PInf \<or> (\<exists>v. fl x = Fin v \<and> 1 \<le> v)"
  using fl_ge_pow2 [of 0 x] by (simp add: pow2_def)

lemma f_of_int64_Fin: obtains v where "f_of_int64 n = Fin v" "representable v"
proof -
  have "\<bar>of_int (sint n) :: rat\<bar> \<le> of_int (2 ^ 63)"
    using sint_bounds [of n] by (simp only: of_int_abs [symmetric] of_int_le_iff) auto
  also have "\<dots> < pow2 1023" using pow2_mono [of 64 1023] by (simp add: pow2_def)
  finally obtain v where "fl (of_int (sint n)) = Fin v" using fl_finite by blast
  then show ?thesis using that [of v] fl_representable by (auto simp: f_of_int64_def)
qed

lemma f_of_int64_pos:
  assumes "1 \<le> sint n"
  obtains v where "f_of_int64 n = Fin v" "representable v" "1 \<le> v"
proof -
  obtain v where v: "f_of_int64 n = Fin v" "representable v" by (rule f_of_int64_Fin)
  moreover have "(1 :: rat) \<le> of_int (sint n)" using assms by (simp only: of_int_1_le_iff)
  then have "1 \<le> v" using fl_ge_one v unfolding f_of_int64_def by fastforce
  ultimately show ?thesis by (rule that)
qed

lemma f_add_Fin_NaN [simp]: "f_add (Fin x) y = NaN \<longleftrightarrow> y = NaN"
  by (cases y) simp_all

lemma Seconds_not_NaN: "Seconds d \<noteq> NaN"
proof -
  obtain u where "f_of_int64 (go_div d Second) = Fin u" by (rule f_of_int64_Fin)
  moreover obtain v where "f_of_int64 (go_mod d Second) = Fin v" by (rule f_of_int64_Fin)
  ultimately show ?thesis by (simp add: Seconds_def)
qed

definition f_positive :: "float64 \<Rightarrow> bool" where
  "f_positive f \<longleftrightarrow> f_less (Fin 0) f"

lemma f_positive_cases: "f_positive f \<longleftrightarrow> f = PInf \<or> (\<exists>x. f = Fin x \<and> 0 < x)"
  by (cases f) (simp_all add: f_positive_def)

lemma not_f_le_zero: "\<not> f_le f (Fin 0) \<Longrightarrow> f \<noteq> NaN \<Longrightarrow> f_positive f"
  by (cases f) (auto simp: f_positive_cases)

text \<open>A nonnegative finite value or infinity, closed under the operations of \<open>refill\<close>.\<close>

lemma f_mul_positive:
  assumes "f_positive a" "f_positive b"
  shows "f_mul a b = PInf \<or> (\<exists>v. f_mul a b = Fin v \<and> 0 \<le> v)"
proof (cases "a = PInf \<or> b = PInf")
  case True
  then show ?thesis using assms by (auto simp: f_positive_cases f_inf_def)
next
  case False
  then obtain x y where "a = Fin x" "b = Fin y" "0 < x" "0 < y" using assms by (auto simp: f_positive_cases)
  then show ?thesis using fl_nonneg [of "x * y"] by simp
qed

lemma f_add_nonneg:
  assumes "0 \<le> t" "b = PInf \<or> (\<exists>v. b = Fin v \<and> 0 \<le> v)"
  shows "f_add (Fin t) b = PInf \<or> (\<exists>v. f_add (Fin t) b = Fin v \<and> representable v \<and> 0 \<le> v)"
proof (cases "b = PInf")
  case False
  then obtain v where v: "b = Fin v" "0 \<le> v" using assms(2) by blast
  then show ?thesis using fl_nonneg [of "t + v"] fl_representable [of "t + v"] assms(1) by auto
qed simp


lemma clipped_tokens:
  assumes "representable c" "1 \<le> c" "f = PInf \<or> (\<exists>v. f = Fin v \<and> representable v \<and> 0 \<le> v)"
  shows "\<exists>t. (if f_less (Fin c) f then Fin c else f) = Fin t \<and> representable t \<and> 0 \<le> t \<and> t \<le> c"
  using assms by auto

text \<open>The bucket with a rate that is a number: finite tokens between zero and the capacity.\<close>

definition bucket :: "rat \<Rightarrow> rat \<Rightarrow> RateLimiter \<Rightarrow> bool" where
  "bucket c t r \<longleftrightarrow> capacity r = Fin c \<and> tokens r = Fin t \<and> representable c \<and> 1 \<le> c \<and>
     representable t \<and> 0 \<le> t \<and> t \<le> c \<and> f_positive (refillRate r)"

lemma refill_bucket:
  assumes "bucket c t r"
  shows "\<exists>t'. bucket c t' (refill now r)"
proof (cases "f_le (Seconds (time_Sub now (last_refill r))) (Fin 0)")
  case True
  then show ?thesis using assms by (auto simp: refill_def)
next
  case False
  let ?el = "Seconds (time_Sub now (last_refill r))"
  let ?new = "f_add (tokens r) (f_mul ?el (refillRate r))"
  have b: "tokens r = Fin t" "0 \<le> t" "capacity r = Fin c" "representable c" "1 \<le> c" "f_positive (refillRate r)"
    using assms by (simp_all add: bucket_def)
  have "f_positive ?el" using False Seconds_not_NaN by (rule not_f_le_zero)
  then have "f_mul ?el (refillRate r) = PInf \<or> (\<exists>v. f_mul ?el (refillRate r) = Fin v \<and> 0 \<le> v)"
    using b(6) by (rule f_mul_positive)
  then have "?new = PInf \<or> (\<exists>v. ?new = Fin v \<and> representable v \<and> 0 \<le> v)"
    unfolding b(1) by (rule f_add_nonneg [OF b(2)])
  from clipped_tokens [OF b(4,5) this] obtain t'
    where "(if f_less (Fin c) ?new then Fin c else ?new) = Fin t'" "representable t'" "0 \<le> t'" "t' \<le> c" by blast
  then have "bucket c t' (refill now r)"
    using False assms by (auto simp: refill_def Let_def bucket_def split: if_splits)
  then show ?thesis by blast
qed

lemma fl_minus_one_bounds:
  assumes "representable t" "1 \<le> t"
  obtains u where "fl (t - 1) = Fin u" "representable u" "0 \<le> u" "u \<le> t"
proof -
  obtain u where "fl (t - 1) = Fin u" "0 \<le> u" "u \<le> t"
    by (rule fl_le_representable [of "t - 1" t]) (use assms in auto)
  then show ?thesis using that fl_representable by blast
qed

lemma Allow_bucket:
  assumes "bucket c t r"
  shows "\<exists>t'. bucket c t' (snd (Allow now r))"
proof -
  obtain u where u: "bucket c u (refill now r)" using refill_bucket [OF assms] by blast
  show ?thesis
  proof (cases "1 \<le> u")
    case True
    then obtain v where "fl (u - 1) = Fin v" "representable v" "0 \<le> v" "v \<le> u"
      using fl_minus_one_bounds u unfolding bucket_def by blast
    then have "bucket c v (snd (Allow now r))"
      using u True by (simp add: Allow_def Let_def bucket_def f_sub_def)
    then show ?thesis by blast
  next
    case False
    then have "bucket c u (snd (Allow now r))" using u by (simp add: Allow_def Let_def bucket_def)
    then show ?thesis by blast
  qed
qed

lemma new_bucket:
  assumes "rate \<noteq> NaN"
  shows "\<exists>c. bucket c c (newRateLimiterWithClock rate cap now)"
proof -
  let ?n = "if cap <s 1 then 1 else cap"
  have "1 \<le> sint ?n" by (simp add: go_arith)
  then obtain c where c: "f_of_int64 ?n = Fin c" "representable c" "1 \<le> c" by (rule f_of_int64_pos)
  have "f_positive (if f_le rate (Fin 0) then Fin 1 else rate)"
    using assms not_f_le_zero by (simp add: f_positive_cases)
  then have "bucket c c (newRateLimiterWithClock rate cap now)"
    using c by (simp add: newRateLimiterWithClock_def Let_def bucket_def)
  then show ?thesis by blast
qed

text \<open>A sequence of calls at the given times, with their answers.\<close>

fun allows :: "Time list \<Rightarrow> RateLimiter \<Rightarrow> bool list \<times> RateLimiter" where
  "allows [] r = ([], r)"
| "allows (t # ts) r =
     (let (ok, r) = Allow t r; (oks, r) = allows ts r in (ok # oks, r))"

lemma allows_bucket: "bucket c t r \<Longrightarrow> \<exists>t'. bucket c t' (snd (allows ts r))"
proof (induction ts arbitrary: r t)
  case (Cons a ts)
  obtain u where "bucket c u (snd (Allow a r))" using Allow_bucket [OF Cons.prems] by blast
  from Cons.IH [OF this] show ?case by (simp add: Let_def case_prod_unfold)
qed auto


subsection \<open>Bursts, refills and the bulkhead\<close>

lemma Seconds_0 [simp]: "Seconds 0 = Fin 0"
  by code_simp

lemma refill_same_instant: "refill (last_refill r) r = r"
  by (simp add: refill_def time_Sub_def)

lemma burst_run:
  assumes "bucket c (of_nat n) r" "n < 9007199254740992"
  shows "fst (allows (replicate m (last_refill r)) r) = replicate (min n m) True @ replicate (m - n) False"
  using assms
proof (induction m arbitrary: n r)
  case (Suc m)
  have t: "tokens r = Fin (of_nat n)" using Suc.prems(1) by (simp add: bucket_def)
  show ?case
  proof (cases n)
    case 0
    have "Allow (last_refill r) r = (False, r)"
      by (simp add: Allow_def refill_same_instant t 0)
    then show ?thesis using Suc.IH [OF Suc.prems] by (simp add: Let_def case_prod_unfold 0)
  next
    case (Suc k)
    let ?r = "r\<lparr>tokens := Fin (of_nat k)\<rparr>"
    have "fl (of_nat n - 1) = Fin (of_nat k)"
      using fl_minus_one [of "of_nat n"] Suc.prems by (simp add: bucket_def Suc)
    then have a: "Allow (last_refill r) r = (True, ?r)"
      by (simp add: Allow_def refill_same_instant t Suc f_sub_def)
    have "representable (of_int (int k))" using Suc.prems(2) Suc by (intro representable_int) simp
    then have "bucket c (of_nat k) ?r" using Suc.prems(1) by (simp add: bucket_def Suc)
    from Suc.IH [OF this] Suc.prems(2) show ?thesis
      by (simp add: a Let_def case_prod_unfold Suc)
  qed
qed simp

lemma bulkhead_counts:
  "bulkhead_reach k s \<Longrightarrow> slots (fst s) = snd s \<and> slots_cap (fst s) = slots_cap (NewBulkhead k) \<and>
     snd s \<le> slots_cap (fst s)"
proof (induction rule: bulkhead_reach.induct)
  case start
  then show ?case by (simp add: NewBulkhead_def Let_def)
next
  case (step s s')
  from step(2) step.IH show ?case
    by (induction rule: bulkhead_step.induct)
      (auto simp: acquire_def release_def bulkhead_select_def split: option.splits if_splits)
qed


text \<open>At least a value: infinite, or finite and not smaller.\<close>

definition f_ge :: "rat \<Rightarrow> float64 \<Rightarrow> bool" where
  "f_ge a f \<longleftrightarrow> f = PInf \<or> (\<exists>v. f = Fin v \<and> a \<le> v)"

lemma f_ge_iff_le: "f_ge a f \<longleftrightarrow> f_le (Fin a) f"
  by (cases f) (auto simp: f_ge_def)

lemma f_add_ge:
  assumes "f_ge x a" "f_ge y b" "pow2 k \<le> x + y" "- 1022 \<le> k"
  shows "f_ge (pow2 k) (f_add a b)"
proof (cases "a = PInf \<or> b = PInf")
  case True
  then show ?thesis using assms(1,2) by (auto simp: f_ge_def)
next
  case False
  then obtain v w where v: "a = Fin v" "x \<le> v" "b = Fin w" "y \<le> w" using assms(1,2) by (auto simp: f_ge_def)
  then have "pow2 k \<le> v + w" using assms(3) by linarith
  from fl_ge_pow2 [OF this assms(4)] show ?thesis by (simp add: v f_ge_def)
qed

lemma f_mul_ge_one:
  assumes "f_ge 1 a" "f_ge 1 b"
  shows "f_ge 1 (f_mul a b)"
proof (cases "a = PInf \<or> b = PInf")
  case True
  then show ?thesis using assms by (auto simp: f_ge_def f_inf_def)
next
  case False
  then obtain v w where v: "a = Fin v" "1 \<le> v" "b = Fin w" "1 \<le> w" using assms by (auto simp: f_ge_def)
  then have "1 * 1 \<le> v * w" by (intro mult_mono) auto
  then show ?thesis using fl_ge_one [of "v * w"] by (simp add: v f_ge_def)
qed

lemma Seconds_parts:
  assumes "0 \<le> sint d"
  obtains u w where "f_of_int64 (go_div d Second) = Fin u" "0 \<le> u" "10 ^ 9 \<le> sint d \<longrightarrow> 1 \<le> u"
    "f_ge w (f_div_fin (f_of_int64 (go_mod d Second)) 1000000000)" "0 \<le> w"
    "0 < sint d \<and> sint d < 10 ^ 9 \<longrightarrow> pow2 (- 30) \<le> w"
proof -
  have q: "sint (go_div d Second) = sint d div 10 ^ 9" "sint (go_mod d Second) = sint d mod 10 ^ 9"
    using assms by (simp_all add: sint_go_div_nonneg sint_go_mod_nonneg Second_def)
  obtain u where u: "f_of_int64 (go_div d Second) = Fin u" by (rule f_of_int64_Fin)
  obtain v where v: "f_of_int64 (go_mod d Second) = Fin v" by (rule f_of_int64_Fin)
  have r: "(0 :: rat) \<le> of_int (sint d div 10 ^ 9)" "(0 :: rat) \<le> of_int (sint d mod 10 ^ 9)"
    using assms by (simp_all only: of_int_0_le_iff) (simp_all add: pos_imp_zdiv_nonneg_iff)
  have "0 \<le> u" "0 \<le> v"
    using fl_nonneg [OF r(1)] fl_nonneg [OF r(2)] u v unfolding f_of_int64_def q by auto
  moreover have "1 \<le> u" if "10 ^ 9 \<le> sint d"
  proof -
    have "1 \<le> sint (go_div d Second)" unfolding q using that zdiv_mono1 [OF that, of "10 ^ 9"] by simp
    then show ?thesis using u by (metis f_of_int64_pos float64.inject)
  qed
  moreover have "f_ge (if 0 < sint d \<and> sint d < 10 ^ 9 then pow2 (- 30) else 0)
      (f_div_fin (f_of_int64 (go_mod d Second)) 1000000000)"
  proof (cases "0 < sint d \<and> sint d < 10 ^ 9")
    case True
    then have "1 \<le> sint (go_mod d Second)" unfolding q by simp
    then have "1 \<le> v" using v by (metis f_of_int64_pos float64.inject)
    then have "pow2 (- 30) \<le> v / 1000000000" by (simp add: pow2_def)
    then show ?thesis using True fl_ge_pow2 [of "- 30" "v / 1000000000"] by (simp add: v f_ge_def)
  next
    case False
    then show ?thesis using fl_nonneg [of "v / 1000000000"] \<open>0 \<le> v\<close> by (auto simp: v f_ge_def)
  qed
  ultimately show ?thesis using u
    by (intro that [of u "if 0 < sint d \<and> sint d < 10 ^ 9 then pow2 (- 30) else 0"]) auto
qed

lemma Seconds_ge_one:
  assumes "10 ^ 9 \<le> sint d"
  shows "f_ge 1 (Seconds d)"
proof -
  have "0 \<le> sint d" using assms by simp
  then obtain u w where u: "f_of_int64 (go_div d Second) = Fin u" "1 \<le> u"
    "f_ge w (f_div_fin (f_of_int64 (go_mod d Second)) 1000000000)" "0 \<le> w"
    using assms by (elim Seconds_parts) blast
  have "f_ge (pow2 0) (Seconds d)"
    unfolding Seconds_def by (rule f_add_ge [of u _ w]) (use u in \<open>auto simp: f_ge_def pow2_def\<close>)
  then show ?thesis by (simp add: pow2_def)
qed

lemma Seconds_positive:
  assumes "0 < sint d"
  shows "\<not> f_le (Seconds d) (Fin 0)"
proof -
  obtain u w where u: "f_of_int64 (go_div d Second) = Fin u" "0 \<le> u" "10 ^ 9 \<le> sint d \<longrightarrow> 1 \<le> u"
    "f_ge w (f_div_fin (f_of_int64 (go_mod d Second)) 1000000000)" "0 \<le> w"
    "0 < sint d \<and> sint d < 10 ^ 9 \<longrightarrow> pow2 (- 30) \<le> w"
    using Seconds_parts [OF less_imp_le [OF assms]] by blast
  have "pow2 (- 30) \<le> 1" by (simp add: pow2_def)
  then have "pow2 (- 30) \<le> u + w" using u assms by (cases "10 ^ 9 \<le> sint d") auto
  then have "f_ge (pow2 (- 30)) (Seconds d)"
    unfolding Seconds_def by (rule f_add_ge [rotated 2]) (use u in \<open>auto simp: f_ge_def\<close>)
  then show ?thesis using less_le_trans [OF pow2_pos(1) [of "- 30"]] by (fastforce simp: f_ge_def)
qed


lemma not_f_less_NaN [simp]: "\<not> f_less x NaN"
  by (cases x) simp_all

lemma Allow_NaN:
  "tokens r = NaN \<Longrightarrow> refillRate r = NaN \<Longrightarrow>
   \<exists>r'. Allow t r = (False, r') \<and> tokens r' = NaN \<and> refillRate r' = NaN"
  by (auto simp: Allow_def refill_def Let_def)

lemma allows_NaN:
  "tokens r = NaN \<Longrightarrow> refillRate r = NaN \<Longrightarrow> fst (allows ts r) = replicate (length ts) False"
proof (induction ts arbitrary: r)
  case (Cons t ts)
  obtain r' where "Allow t r = (False, r')" "tokens r' = NaN" "refillRate r' = NaN"
    using Allow_NaN [OF Cons.prems] by blast
  with Cons.IH show ?case by (simp add: Let_def case_prod_unfold)
qed simp

subsection \<open>Properties\<close>

text \<open>
  C40. The bucket never overflows or goes negative: for every refill rate that is a number, after
  any calls at any times (also when the clock goes backwards), the tokens are a finite number
  between zero and the capacity, whatever the rounding of the floating-point operations.
\<close>

theorem tokens_within_capacity:
  assumes "rate \<noteq> NaN"
  shows "\<exists>c t. let r = snd (allows ts (newRateLimiterWithClock rate cap now)) in
    capacity r = Fin c \<and> tokens r = Fin t \<and> 1 \<le> c \<and> 0 \<le> t \<and> t \<le> c"
proof -
  obtain c where "bucket c c (newRateLimiterWithClock rate cap now)" using new_bucket [OF assms] by blast
  from allows_bucket [OF this] show ?thesis unfolding Let_def bucket_def by blast
qed

theorem tokens_within_capacity_witness:
  "\<exists>c t. tokens (snd (allows [1, 2, 3] (newRateLimiterWithClock (Fin 10) 2 0))) = Fin t \<and> 0 \<le> t \<and> t \<le> c"
  using tokens_within_capacity [of "Fin 10" "[1, 2, 3]" 2 0] unfolding Let_def by blast

text \<open>
  A burst admits exactly the capacity: of any number of calls at the instant the limiter was
  created, the first \<open>cap\<close> are admitted and the others refused (for a capacity below 2 to the
  power 53, up to which \<open>float64\<close> counts exactly).
\<close>

theorem burst_admits_capacity:
  assumes "rate \<noteq> NaN" "1 \<le> sint cap" "sint cap < 2 ^ 53"
  shows "fst (allows (replicate m now) (newRateLimiterWithClock rate cap now)) =
    replicate (min (nat (sint cap)) m) True @ replicate (m - nat (sint cap)) False"
proof -
  let ?r = "newRateLimiterWithClock rate cap now"
  obtain c where c: "bucket c c ?r" using new_bucket [OF assms(1)] by blast
  have "representable (of_int (sint cap))" using assms by (intro representable_int) simp
  then have "tokens ?r = Fin (of_int (sint cap))"
    using assms(2) by (simp add: newRateLimiterWithClock_def Let_def go_arith f_of_int64_def representable_def)
  then have "c = of_int (sint cap)" using c by (simp only: bucket_def float64.inject)
  also have "\<dots> = of_nat (nat (sint cap))" using assms(2) by (simp only: of_nat_nat)
  finally have "bucket c (of_nat (nat (sint cap))) ?r" using c by simp
  moreover have "nat (sint cap) < 9007199254740992" using assms by simp
  moreover have "last_refill ?r = now" by (simp add: newRateLimiterWithClock_def Let_def)
  ultimately show ?thesis using burst_run [of c "nat (sint cap)" ?r m] by simp
qed

theorem burst_admits_capacity_witness:
  "fst (allows (replicate 4 7) (newRateLimiterWithClock (Fin 10) 2 7)) = [True, True, False, False]"
  using burst_admits_capacity [of "Fin 10" 2 4 7] by (simp add: numeral_eq_Suc)

text \<open>
  No starvation: with a rate of at least one token per second, a call that comes at least
  one second after the last refill is admitted.
\<close>

theorem refilled_call_admitted:
  assumes "f_le (Fin 1) rate" "10 ^ 9 \<le> sint (time_Sub t (last_refill r))"
    and "r = snd (allows ts (newRateLimiterWithClock rate cap now))"
  shows "fst (Allow t r)"
proof -
  have rate: "rate \<noteq> NaN" "f_ge 1 rate" using assms(1) by (auto simp: f_ge_iff_le)
  obtain c0 where "bucket c0 c0 (newRateLimiterWithClock rate cap now)" using new_bucket [OF rate(1)] by blast
  from allows_bucket [OF this] obtain c k where b: "bucket c k r" unfolding assms(3) by blast
  have "refillRate (snd (Allow t r)) = refillRate r" for t r
    by (simp add: Allow_def refill_def Let_def)
  then have "refillRate (snd (allows ts r)) = refillRate r" for ts r
    by (induction ts arbitrary: r) (simp_all add: Let_def case_prod_unfold)
  then have "refillRate r = rate"
    using assms(1) by (cases rate) (auto simp: assms(3) newRateLimiterWithClock_def Let_def)
  then have "f_ge 1 (f_mul (Seconds (time_Sub t (last_refill r))) (refillRate r))"
    using Seconds_ge_one [OF assms(2)] rate(2) by (intro f_mul_ge_one) simp_all
  moreover have "f_ge 0 (tokens r)" using b by (auto simp: bucket_def f_ge_def)
  ultimately have "f_ge (pow2 0) (f_add (tokens r) (f_mul (Seconds (time_Sub t (last_refill r))) (refillRate r)))"
    by (intro f_add_ge [of 0 _ 1]) (simp_all add: pow2_def)
  then have "f_le (Fin 1) (f_add (tokens r) (f_mul (Seconds (time_Sub t (last_refill r))) (refillRate r)))"
    by (simp add: f_ge_iff_le pow2_def)
  moreover have "\<not> f_le (Seconds (time_Sub t (last_refill r))) (Fin 0)"
    using assms(2) by (intro Seconds_positive) simp
  moreover have "capacity r = Fin c" "1 \<le> c" using b by (simp_all add: bucket_def)
  ultimately show ?thesis by (simp add: Allow_def refill_def Let_def)
qed

theorem refilled_call_admitted_witness:
  "fst (Allow 1000000001 (snd (allows [1, 1] (newRateLimiterWithClock (Fin 1) 1 1))))"
proof -
  let ?r = "snd (allows [1, 1] (newRateLimiterWithClock (Fin 1) 1 1))"
  have "last_refill ?r = 1" by code_simp
  then show ?thesis
    using refilled_call_admitted [of "Fin 1" 1000000001 ?r "[1, 1]" 1 1] by (simp add: sint_time_Sub)
qed

text \<open>
  A refill rate that is not a number passes the constructor's check and locks the limiter:
  from the first call after its creation on, every call is refused.
\<close>

theorem nan_rate_refuses_all:
  assumes "now < t"
  shows "fst (allows (t # ts) (newRateLimiterWithClock NaN cap now)) = replicate (Suc (length ts)) False"
proof -
  let ?r = "newRateLimiterWithClock NaN cap now"
  have "0 < sint (time_Sub t now)" using assms by (simp add: sint_time_Sub)
  from Seconds_positive [OF this] have "\<not> f_le (Seconds (time_Sub t now)) (Fin 0)" .
  moreover have r: "last_refill ?r = now" "refillRate ?r = NaN"
    by (simp_all add: newRateLimiterWithClock_def Let_def)
  moreover obtain c where "tokens ?r = Fin c"
    using f_of_int64_Fin by (metis newRateLimiterWithClock_def RateLimiter.select_convs(2))
  moreover have "f_mul x NaN = NaN" for x by (cases x) simp_all
  ultimately have "refill t ?r = ?r\<lparr>tokens := NaN, last_refill := t\<rparr>"
    by (simp add: refill_def Let_def)
  then have "Allow t ?r = (False, ?r\<lparr>tokens := NaN, last_refill := t\<rparr>)" by (simp add: Allow_def)
  then show ?thesis
    using allows_NaN [of "?r\<lparr>tokens := NaN, last_refill := t\<rparr>" ts] r by (simp add: Let_def case_prod_unfold)
qed

theorem nan_rate_refuses_all_witness:
  "fst (allows [6, 7] (newRateLimiterWithClock NaN 20 5)) = [False, False]"
  using nan_rate_refuses_all [of 5 6 "[7]" 20] by (simp add: numeral_eq_Suc)

text \<open>
  The bulkhead isolates: however callers interleave, the number of operations running at once
  never exceeds the configured maximum (at least one), the occupied slots are exactly the running
  operations, and a caller without a cancelled context is let in exactly while a slot is free.
\<close>

theorem bulkhead_limits_concurrency:
  assumes "bulkhead_reach k (b, n)"
  shows "n \<le> nat (max 1 (sint k)) \<and> slots b = n \<and>
    (bulkhead_select p None b = TakeSlot \<longleftrightarrow> n < nat (max 1 (sint k))) \<and>
    (bulkhead_select p None b = Full \<longleftrightarrow> n = nat (max 1 (sint k)))"
proof -
  have "slots_cap (NewBulkhead k) = nat (max 1 (sint k))"
    by (simp add: NewBulkhead_def Let_def go_arith max_def)
  then show ?thesis using bulkhead_counts [OF assms] by (auto simp: bulkhead_select_def)
qed

theorem bulkhead_limits_concurrency_witness:
  "bulkhead_select False None (acquire (NewBulkhead 1)) = Full"
proof -
  have "bulkhead_select False None (NewBulkhead 1) = TakeSlot" by (simp add: bulkhead_select_def NewBulkhead_def)
  from bulkhead_reach.step [OF bulkhead_reach.start Enter [OF this]]
  have "bulkhead_reach 1 (acquire (NewBulkhead 1), 1)" by simp
  from bulkhead_limits_concurrency [OF this, of False] show ?thesis by simp
qed

end
