(* ===== verification/Retry_Policy.thy ===== *)
theory Retry_Policy
  imports Limiter
begin

section \<open>Retry with exponential backoff (internal/resilience/retry.go)\<close>

text \<open>
  The loop of \<open>Retry\<close> over an operation that changes a state \<open>'s\<close>. What the context and the
  random source answer is the environment: \<open>ctx_err i\<close> is \<open>ctx.Err()\<close> at the start of attempt
  \<open>i\<close>, \<open>ctx_done i\<close> the error of a context that ends while attempt \<open>i\<close> waits for its timer
  (\<open>None\<close> if the timer fires first), \<open>jitter i\<close> the number \<open>rng.Float64()\<close> returns. The result
  carries the delays that were waited for. \<open>zero\<close> is the zero value of the result type.
\<close>

record RetryPolicy =
  MaxAttempts :: int64
  BaseDelay :: Duration
  MaxDelay :: Duration
  Retryable :: "(error \<Rightarrow> bool) option"

definition NewRetryPolicy :: "int64 \<Rightarrow> Duration \<Rightarrow> Duration \<Rightarrow> RetryPolicy" where
  "NewRetryPolicy maxAttempts base maxDelay =
     \<lparr>MaxAttempts = (if maxAttempts <s 1 then 1 else maxAttempts), BaseDelay = base,
      MaxDelay = maxDelay, Retryable = None\<rparr>"

text \<open>\<open>math.Pow(2, float64(n))\<close>\<close>

definition math_Pow2 :: "int64 \<Rightarrow> float64" where
  "math_Pow2 n =
     (if 1024 \<le> sint n then PInf else if sint n < - 1074 then Fin 0 else Fin (pow2 (sint n)))"

definition backoff :: "RetryPolicy \<Rightarrow> int64 \<Rightarrow> rat \<Rightarrow> Duration" where
  "backoff p attempt j =
     (let exp = f_mul (f_of_int64 (BaseDelay p)) (math_Pow2 attempt);
          exp = (if f_less (f_of_int64 (MaxDelay p)) exp then f_of_int64 (MaxDelay p) else exp)
      in f_to_int64 (f_mul exp (Fin j)))"

record retry_env =
  ctx_err :: "int64 \<Rightarrow> error option"
  ctx_done :: "int64 \<Rightarrow> error option"
  jitter :: "int64 \<Rightarrow> rat"

definition refused :: "RetryPolicy \<Rightarrow> error \<Rightarrow> bool" where
  "refused p err = (case Retryable p of None \<Rightarrow> False | Some f \<Rightarrow> \<not> f err)"

definition exhausted :: "'a \<Rightarrow> error option \<Rightarrow> 'a result" where
  "exhausted zero lastErr = (case lastErr of None \<Rightarrow> Inr zero | Some e \<Rightarrow> Inl e)"

function Retry_loop ::
  "RetryPolicy \<Rightarrow> retry_env \<Rightarrow> ('s, 'a) Operation \<Rightarrow> 'a \<Rightarrow> int64 \<Rightarrow> error option \<Rightarrow> 's \<Rightarrow>
   'a result \<times> Duration list \<times> 's" where
  "Retry_loop p env op zero attempt lastErr s =
     (if attempt <s MaxAttempts p then
        (case ctx_err env attempt of
           Some e \<Rightarrow> (Inl e, [], s)
         | None \<Rightarrow>
             (case op s of
                (Inr v, s) \<Rightarrow> (Inr v, [], s)
              | (Inl err, s) \<Rightarrow>
                  if refused p err then (Inl err, [], s)
                  else if attempt = MaxAttempts p - 1 then (exhausted zero (Some err), [], s)
                  else
                    (let delay = backoff p attempt (jitter env attempt) in
                     case ctx_done env attempt of
                       Some e \<Rightarrow> (Inl e, [delay], s)
                     | None \<Rightarrow>
                         (let (r, ds, s) = Retry_loop p env op zero (attempt + 1) (Some err) s
                          in (r, delay # ds, s)))))
      else (exhausted zero lastErr, [], s))"
  by pat_completeness auto

termination
proof (relation "measure (\<lambda>(p, env, op, zero, attempt, lastErr, s). nat (sint (MaxAttempts p) - sint attempt))")
  fix p :: RetryPolicy and attempt :: int64
  assume "attempt <s MaxAttempts p"
  then have "sint attempt < sint (MaxAttempts p)" by (simp add: go_arith)
  with sint_succ [OF this]
  have "nat (sint (MaxAttempts p) - sint (attempt + 1)) < nat (sint (MaxAttempts p) - sint attempt)" by simp
  then show "\<And>env op zero lastErr s s'.
      ((p, env, op, zero, attempt + 1, lastErr, s'), p, env, op, zero, attempt, lastErr', s)
      \<in> measure (\<lambda>(p, env, op, zero, attempt, lastErr, s). nat (sint (MaxAttempts p) - sint attempt))" for lastErr'
    by simp
qed (rule wf_measure)

declare Retry_loop.simps [simp del]

definition Retry ::
  "RetryPolicy \<Rightarrow> retry_env \<Rightarrow> ('s, 'a) Operation \<Rightarrow> 'a \<Rightarrow> 's \<Rightarrow> 'a result \<times> Duration list \<times> 's" where
  "Retry p env op zero s = Retry_loop p env op zero 0 None s"


subsection \<open>The attempts\<close>

text \<open>The states and results of an operation that is called over and over.\<close>

fun op_state :: "('s, 'a) Operation \<Rightarrow> 's \<Rightarrow> nat \<Rightarrow> 's" where
  "op_state op s 0 = s"
| "op_state op s (Suc i) = snd (op (op_state op s i))"


lemma op_state_shift: "op_state op (snd (op s)) i = op_state op s (Suc i)"
  by (induction i) simp_all


definition stops :: "RetryPolicy \<Rightarrow> 'a result \<Rightarrow> bool" where
  "stops p r = (case r of Inl e \<Rightarrow> refused p e | Inr _ \<Rightarrow> True)"




text \<open>Whatever the environment does, the number of calls and of waits is bounded.\<close>

lemma Retry_loop_bounded:
  "\<exists>n. int n \<le> max 0 (sint (MaxAttempts p) - sint a) \<and>
     (case Retry_loop p env op zero a lastErr s of (r, ds, s') \<Rightarrow> s' = op_state op s n \<and> length ds \<le> n)"
proof (induction p env op zero a lastErr s rule: Retry_loop.induct)
  case (1 p env op zero a lastErr s)
  consider "\<not> a <s MaxAttempts p \<or> ctx_err env a \<noteq> None"
    | "a <s MaxAttempts p" "ctx_err env a = None" "stops p (fst (op s)) \<or> a = MaxAttempts p - 1"
    | e where "a <s MaxAttempts p" "ctx_err env a = None" "fst (op s) = Inl e" "\<not> refused p e"
        "a \<noteq> MaxAttempts p - 1"
    by (cases "fst (op s)") (auto simp: stops_def)
  then show ?case
  proof cases
    case 1
    then show ?thesis by (intro exI [of _ 0]) (auto simp: Retry_loop.simps [of p env op zero a])
  next
    case 2
    then show ?thesis
      by (intro exI [of _ "Suc 0"], subst Retry_loop.simps)
        (auto simp: go_arith stops_def split: prod.splits sum.splits)
  next
    case (3 e)
    obtain s' where o: "op s = (Inl e, s')" using 3(3) by (cases "op s") auto
    have a1: "sint (a + 1) = sint a + 1" using 3(1) sint_succ [of a "MaxAttempts p"] by (simp add: go_arith)
    show ?thesis
    proof (cases "ctx_done env a")
      case (Some x)
      with 3 o show ?thesis
        by (intro exI [of _ "Suc 0"]) (auto simp: Retry_loop.simps [of p env op zero a] go_arith)
    next
      case None
      from "1.IH" [OF 3(1) 3(2) o [symmetric] refl 3(4) 3(5) refl None] obtain n where
        n: "int n \<le> max 0 (sint (MaxAttempts p) - sint (a + 1))"
        "case Retry_loop p env op zero (a + 1) (Some e) s' of (r, ds, t) \<Rightarrow> t = op_state op s' n \<and> length ds \<le> n"
        by auto
      with 3 o None a1 op_state_shift [of op s n] show ?thesis
        by (intro exI [of _ "Suc n"])
          (auto simp: Retry_loop.simps [of p env op zero a lastErr s] go_arith split: prod.splits)
    qed
  qed
qed

text \<open>
  What a retry does to the state of its operation: it passes through failed attempts, and ends there
  or with one successful attempt.
\<close>

definition failed_attempt :: "('s, 'a) Operation \<Rightarrow> 's \<Rightarrow> 's \<Rightarrow> bool" where
  "failed_attempt op s t \<longleftrightarrow> \<not> is_ok (fst (op s)) \<and> t = snd (op s)"

lemma Retry_loop_state:
  "\<exists>t. (failed_attempt op)\<^sup>*\<^sup>* s t \<and>
     (snd (snd (Retry_loop p renv op zero a lastErr s)) = t \<or>
      is_ok (fst (op t)) \<and> snd (snd (Retry_loop p renv op zero a lastErr s)) = snd (op t))"
proof (induction p renv op zero a lastErr s rule: Retry_loop.induct)
  case (1 p renv op zero a lastErr s)
  show ?case
  proof (cases "a <s MaxAttempts p \<and> ctx_err renv a = None")
    case go: True
    show ?thesis
    proof (cases "fst (op s)")
      case (Inr v)
      then have "snd (snd (Retry_loop p renv op zero a lastErr s)) = snd (op s)"
        using go by (subst Retry_loop.simps) (simp add: case_prod_unfold)
      then show ?thesis using Inr by (intro exI [of _ s]) simp
    next
      case (Inl err)
      then have f: "failed_attempt op s (snd (op s))" by (simp add: failed_attempt_def)
      show ?thesis
      proof (cases "refused p err \<or> a = MaxAttempts p - 1 \<or> ctx_done renv a \<noteq> None")
        case True
        then have "snd (snd (Retry_loop p renv op zero a lastErr s)) = snd (op s)"
          using go Inl by (subst Retry_loop.simps) (auto simp: case_prod_unfold Let_def split: option.split)
        then show ?thesis using f by blast
      next
        case False
        then have e: "snd (snd (Retry_loop p renv op zero a lastErr s)) =
            snd (snd (Retry_loop p renv op zero (a + 1) (Some err) (snd (op s))))"
          using go Inl by (subst Retry_loop.simps) (simp add: case_prod_unfold Let_def)
        have o: "(Inl err, snd (op s)) = op s" using Inl by (metis prod.collapse)
        have g: "a <s MaxAttempts p" "ctx_err renv a = None" "\<not> refused p err" "a \<noteq> MaxAttempts p - 1" "ctx_done renv a = None"
          using go False by auto
        from "1.IH" [OF g(1,2) o refl g(3,4) refl g(5)] obtain t where "(failed_attempt op)\<^sup>*\<^sup>* (snd (op s)) t"
          "snd (snd (Retry_loop p renv op zero (a + 1) (Some err) (snd (op s)))) = t \<or>
           is_ok (fst (op t)) \<and> snd (snd (Retry_loop p renv op zero (a + 1) (Some err) (snd (op s)))) = snd (op t)"
          by auto
        then show ?thesis unfolding e using converse_rtranclp_into_rtranclp [of "failed_attempt op", OF f] by blast
      qed
    qed
  next
    case False
    then have "snd (snd (Retry_loop p renv op zero a lastErr s)) = s"
      by (subst Retry_loop.simps) (auto split: option.split)
    then show ?thesis by blast
  qed
qed


subsection \<open>The delays\<close>

lemma scaled_int_exact:
  assumes "0 \<le> b" "b < 9007199254740992" "0 \<le> k"
  shows "fl (of_int b * pow2 k) = Fin (of_int b * pow2 k) \<or> fl (of_int b * pow2 k) = PInf"
proof (cases "b = 0")
  case False
  let ?x = "of_int b * pow2 k"
  have x: "0 < ?x" using False assms(1) by simp
  have "?x < pow2 53 * pow2 k"
    using assms(2) by (intro mult_strict_right_mono) (simp_all add: pow2_def)
  then have "\<bar>?x\<bar> < pow2 (53 + k)" using x by (simp add: pow2_add)
  then have "ilog2 \<bar>?x\<bar> < 53 + k" using x by (intro ilog2_less) auto
  then have e: "ulp_exp ?x \<le> k" using assms(3) by (simp add: ulp_exp_def)
  show ?thesis
  proof (cases "ulp_exp ?x \<le> 971")
    case True
    then show ?thesis using fl_exact [OF refl e] by simp
  next
    case False
    have "?x \<noteq> 0" using x by (metis less_irrefl)
    then have "fl ?x = PInf" using x False by (simp only: fl_def Let_def if_False not_le simp_thms if_True)
    then show ?thesis by simp
  qed
qed (simp add: fl_def)

text \<open>The delay before jitter: the exact exponential, capped.\<close>

lemma capped_exponential:
  assumes "0 < sint (BaseDelay p)" "sint (BaseDelay p) < 2 ^ 53" "0 \<le> sint (MaxDelay p)" "sint (MaxDelay p) < 2 ^ 53"
    and "0 \<le> sint a"
  defines "c \<equiv> f_of_int64 (MaxDelay p)" and "e \<equiv> f_mul (f_of_int64 (BaseDelay p)) (math_Pow2 a)"
  shows "\<exists>v. (if f_less c e then c else e) = Fin v \<and> representable v \<and> 0 \<le> v \<and>
    v \<le> of_int (sint (MaxDelay p)) \<and> v \<le> of_int (sint (BaseDelay p)) * pow2 (sint a)"
proof -
  have B: "f_of_int64 (BaseDelay p) = Fin (of_int (sint (BaseDelay p)))"
    and rM: "representable (of_int (sint (MaxDelay p)))"
    and M: "c = Fin (of_int (sint (MaxDelay p)))"
    using representable_int [of "sint (BaseDelay p)"] representable_int [of "sint (MaxDelay p)"] assms(1-4)
    by (simp_all add: f_of_int64_def representable_def c_def del: of_int_sint)
  let ?x = "of_int (sint (BaseDelay p)) * pow2 (sint a)"
  have x: "0 < ?x" using assms(1) by (simp del: of_int_sint)
  have inf: "e = PInf \<and> pow2 53 \<le> ?x \<or> e = Fin ?x"
  proof (cases "1024 \<le> sint a")
    case True
    then have "e = PInf" using assms(1) by (simp add: e_def B math_Pow2_def f_inf_def del: of_int_sint)
    moreover have "1 * pow2 53 \<le> ?x"
      using True assms(1) by (intro mult_mono pow2_mono) (simp_all add: of_int_1_le_iff of_int_0_le_iff del: of_int_sint)
    ultimately show ?thesis by simp
  next
    case False
    then have e: "e = fl ?x" using assms(5) by (simp add: e_def B math_Pow2_def)
    have "pow2 53 \<le> ?x" if "fl ?x = PInf"
    proof (rule ccontr)
      assume "\<not> pow2 53 \<le> ?x"
      then have "\<bar>?x\<bar> < pow2 1023" using x pow2_mono [of 53 1023] by simp
      with fl_finite that show False by fastforce
    qed
    then show ?thesis
      using scaled_int_exact [of "sint (BaseDelay p)" "sint a"] assms(1,2,5) unfolding e by auto
  qed
  have "of_int (sint (MaxDelay p)) \<le> (of_int (2 ^ 53) :: rat)" using assms(4) by (simp only: of_int_le_iff)
  then have m: "of_int (sint (MaxDelay p)) \<le> pow2 53" by (simp add: pow2_def)
  have m0: "(0 :: rat) \<le> of_int (sint (MaxDelay p))" using assms(3) by (simp only: of_int_0_le_iff)
  from inf show ?thesis
  proof
    assume "e = PInf \<and> pow2 53 \<le> ?x"
    with m m0 rM show ?thesis
      by (intro exI [of _ "of_int (sint (MaxDelay p))"]) (simp add: M del: of_int_sint)
  next
    assume e: "e = Fin ?x"
    show ?thesis
    proof (cases "of_int (sint (MaxDelay p)) < ?x")
      case True
      with m0 rM show ?thesis
        by (intro exI [of _ "of_int (sint (MaxDelay p))"]) (simp add: M e del: of_int_sint)
    next
      case False
      have "1024 \<le> sint a \<Longrightarrow> e = PInf" using assms(1) by (simp add: e_def B math_Pow2_def f_inf_def del: of_int_sint)
      then have "fl ?x = Fin ?x" using e assms(5) by (auto simp: e_def B math_Pow2_def split: if_splits)
      with False x show ?thesis
        by (intro exI [of _ ?x]) (simp add: M e representable_def del: of_int_sint)
    qed
  qed
qed


lemma in_i64_upto: "0 \<le> z \<Longrightarrow> z \<le> sint (m :: int64) \<Longrightarrow> in_i64 z"
  using sint_bounds(2) [of m] by (simp add: in_i64_iff)

subsection \<open>Properties\<close>


definition sample_env :: retry_env where
  "sample_env = \<lparr>ctx_err = (\<lambda>_. None), ctx_done = (\<lambda>_. None), jitter = (\<lambda>_. 1 / 2)\<rparr>"


text \<open>
  C36. Retrying is bounded whatever the context, the operation and the errors do: the operation is
  called at most \<open>MaxAttempts\<close> times (the final state is the one that number of calls leaves), there
  are no more waits than calls, and a context that has ended before the first attempt means that
  the operation is not called at all and its error is returned.
\<close>

theorem retry_attempts_bounded:
  "case Retry p env op zero s of (r, ds, s') \<Rightarrow>
     (\<exists>n. int n \<le> max 0 (sint (MaxAttempts p)) \<and> s' = op_state op s n \<and> length ds \<le> n) \<and>
     (0 < sint (MaxAttempts p) \<and> ctx_err env 0 = Some e \<longrightarrow> r = Inl e \<and> s' = s)"
proof -
  obtain r ds s' where r: "Retry p env op zero s = (r, ds, s')" by (cases "Retry p env op zero s")
  have "r = Inl e \<and> s' = s" if "0 < sint (MaxAttempts p)" "ctx_err env 0 = Some e"
    using r that unfolding Retry_def by (subst (asm) Retry_loop.simps) (simp add: go_arith)
  moreover have "\<exists>n. int n \<le> max 0 (sint (MaxAttempts p)) \<and> s' = op_state op s n \<and> length ds \<le> n"
    using Retry_loop_bounded [where a = 0 and lastErr = None and p = p and env = env and op = op and zero = zero and s = s] r unfolding Retry_def by auto
  ultimately show ?thesis unfolding r by simp
qed

theorem retry_attempts_bounded_witness:
  "case Retry (NewRetryPolicy 3 Millisecond Second) (sample_env\<lparr>ctx_err := \<lambda>_. Some Canceled\<rparr>)
      (\<lambda>s :: int. (Inr s, s + 1)) 0 7 of (r, ds, s') \<Rightarrow> r = Inl Canceled \<and> s' = 7"
  using retry_attempts_bounded [where p = "NewRetryPolicy 3 Millisecond Second" and e = Canceled
      and env = "sample_env\<lparr>ctx_err := \<lambda>_. Some Canceled\<rparr>" and op = "\<lambda>s :: int. (Inr s, s + 1)"
      and zero = 0 and s = 7]
  by (auto simp: NewRetryPolicy_def go_arith)

text \<open>
  C37. Backoff bounds: for delays below 2 to the power 53 nanoseconds (104 days), a positive base
  delay and a jitter in \<open>[0, 1)\<close>, the delay before the next attempt is never negative and exceeds
  neither the configured maximum nor the base delay doubled once per attempt, for every attempt
  number, the rounding of \<open>float64\<close> and the overflow of the power included.
\<close>

theorem backoff_within_bounds:
  assumes "0 < sint (BaseDelay p)" "sint (BaseDelay p) < 2 ^ 53" "0 \<le> sint (MaxDelay p)" "sint (MaxDelay p) < 2 ^ 53"
    and "0 \<le> sint a" "0 \<le> j" "j < 1"
  shows "0 \<le> sint (backoff p a j) \<and> sint (backoff p a j) \<le> sint (MaxDelay p) \<and>
    sint (backoff p a j) \<le> sint (BaseDelay p) * 2 ^ nat (sint a)"
proof -
  obtain v where v: "(if f_less (f_of_int64 (MaxDelay p)) (f_mul (f_of_int64 (BaseDelay p)) (math_Pow2 a))
      then f_of_int64 (MaxDelay p) else f_mul (f_of_int64 (BaseDelay p)) (math_Pow2 a)) = Fin v"
    "representable v" "0 \<le> v" "v \<le> of_int (sint (MaxDelay p))"
    "v \<le> of_int (sint (BaseDelay p)) * pow2 (sint a)"
    using capped_exponential [OF assms(1-5)] by blast
  have "v * j \<le> v * 1" using v(3) assms(7) by (intro mult_left_mono) auto
  then obtain w where w: "fl (v * j) = Fin w" "0 \<le> w" "w \<le> v"
    using fl_le_representable [of "v * j" v] v(2,3) assms(6) by auto
  have t: "0 \<le> \<lfloor>w\<rfloor>" "of_int \<lfloor>w\<rfloor> \<le> w" using w(2) by simp_all
  have v5: "v \<le> of_int (sint (BaseDelay p) * 2 ^ nat (sint a))"
    using v(5) unfolding pow2_nat [OF assms(5)] by (simp only: of_int_mult)
  have "of_int \<lfloor>w\<rfloor> \<le> (of_int (sint (MaxDelay p)) :: rat)"
    "of_int \<lfloor>w\<rfloor> \<le> (of_int (sint (BaseDelay p) * 2 ^ nat (sint a)) :: rat)"
    using t(2) w(3) v(4) v5 by linarith+
  then have b: "\<lfloor>w\<rfloor> \<le> sint (MaxDelay p)" "\<lfloor>w\<rfloor> \<le> sint (BaseDelay p) * 2 ^ nat (sint a)"
    by (simp_all only: of_int_le_iff)
  then have "in_i64 \<lfloor>w\<rfloor>"
    using t(1) in_i64_upto by blast
  then have "sint (backoff p a j) = \<lfloor>w\<rfloor>"
    unfolding backoff_def Let_def v(1) using w by (simp add: trunc_def)
  with t b show ?thesis by simp
qed

theorem backoff_within_bounds_witness:
  "sint (backoff (NewRetryPolicy 5 Millisecond Second) 20 (3 / 4)) \<le> 10 ^ 9"
  using backoff_within_bounds [of "NewRetryPolicy 5 Millisecond Second" 20 "3 / 4"]
  by (simp add: NewRetryPolicy_def Millisecond_def Second_def)

end
