(* ===== verification/Venue.thy ===== *)
theory Venue
  imports Ports
begin

section \<open>The simulated venue (internal/adapters/memory/venue.go)\<close>

text \<open>
  The venue's struct with the callback that reports executions: a \<open>Filler\<close> is a function on the
  state \<open>'c\<close> of the application it is wired to, \<open>None\<close> for nil. \<open>Route\<close> returns the new venue and
  the application state that the callback leaves.
\<close>

record 'c SimulatedVenue =
  v_autofill :: bool
  v_marketPx :: Money
  v_filler :: "'c Filler option"
  v_routed :: "string list"
  v_failCount :: int64

definition NewSimulatedVenue :: "'c SimulatedVenue" where
  "NewSimulatedVenue =
     \<lparr>v_autofill = False, v_marketPx = 0, v_filler = None, v_routed = [], v_failCount = 0\<rparr>"

definition SetAutofill :: "bool \<Rightarrow> Money \<Rightarrow> 'c Filler option \<Rightarrow> 'c SimulatedVenue \<Rightarrow> 'c SimulatedVenue" where
  "SetAutofill on marketPx filler v = v\<lparr>v_autofill := on, v_marketPx := marketPx, v_filler := filler\<rparr>"

definition FailNext :: "int64 \<Rightarrow> 'c SimulatedVenue \<Rightarrow> 'c SimulatedVenue" where
  "FailNext n v = v\<lparr>v_failCount := n\<rparr>"

definition Route :: "Order \<Rightarrow> 'c SimulatedVenue \<times> 'c \<Rightarrow> unit result \<times> 'c SimulatedVenue \<times> 'c" where
  "Route ord vc =
     (let (v, c) = vc in
      if 0 <s v_failCount v then (Inl DeadlineExceeded, v\<lparr>v_failCount := v_failCount v - 1\<rparr>, c)
      else
        (let v = v\<lparr>v_routed := v_routed v @ [o_id ord]\<rparr>;
             c = (case v_filler v of
                    Some filler \<Rightarrow>
                      if v_autofill v then
                        (let px = (if o_orderType ord = OrderTypeMarket then v_marketPx v else o_limitPrice ord)
                         in filler (o_id ord) (RemainingQuantity ord) px c)
                      else c
                  | None \<Rightarrow> c)
         in (Inr (), v, c)))"

definition RoutedCount :: "'c SimulatedVenue \<Rightarrow> nat" where
  "RoutedCount v = length (v_routed v)"

subsection \<open>What a call does\<close>

lemma Route_cases:
  obtains "0 < sint (v_failCount v)" "Route ord (v, c) = (Inl DeadlineExceeded, v\<lparr>v_failCount := v_failCount v - 1\<rparr>, c)"
  | c' where "\<not> 0 < sint (v_failCount v)" "Route ord (v, c) = (Inr (), v\<lparr>v_routed := v_routed v @ [o_id ord]\<rparr>, c')"
      "c' = c \<or> (\<exists>filler q px. v_filler v = Some filler \<and> c' = filler (o_id ord) q px c)"
proof (cases "0 < sint (v_failCount v)")
  case True
  then show ?thesis using that(1) by (simp add: Route_def go_arith)
next
  case False
  let ?c = "snd (snd (Route ord (v, c)))"
  have "Route ord (v, c) = (Inr (), v\<lparr>v_routed := v_routed v @ [o_id ord]\<rparr>, ?c)"
    using False by (simp add: Route_def go_arith Let_def)
  moreover have "?c = c \<or> (\<exists>filler q px. v_filler v = Some filler \<and> ?c = filler (o_id ord) q px c)"
    using False by (cases "v_filler v") (auto simp: Route_def go_arith Let_def)
  ultimately show ?thesis using that(2) [OF False] by blast
qed

interpretation sim: venue_port Route v_filler v_routed
proof
  fix x :: Order and v :: "'c SimulatedVenue" and c :: 'c
  show "v_filler (fst (snd (Route x (v, c)))) = v_filler v"
    by (rule Route_cases [of v x c]) simp_all
  show "v_routed (fst (snd (Route x (v, c)))) = v_routed v @ (if is_ok (fst (Route x (v, c))) then [o_id x] else [])"
    by (rule Route_cases [of v x c]) simp_all
  show "snd (snd (Route x (v, c))) = c \<or>
      (\<exists>f q px. v_filler v = Some f \<and> snd (snd (Route x (v, c))) = f (o_id x) q px c)"
    by (rule Route_cases [of v x c]) auto
qed

end
