(* ===== verification/Service.thy ===== *)
theory Service
  imports Repository Risk Retry_Policy Venue
begin

section \<open>The application service (internal/app/service.go, commands.go)\<close>

text \<open>
  The command and query handlers over the adapters. \<open>Core\<close> is the state the handlers change
  through the ports: the repository, the batches given to the publisher, the metrics, and a
  counter of the questions asked to the environment. \<open>Env\<close> holds what the environment answers,
  indexed by that counter, so the answers are arbitrary: the service's clock, the system clock of
  the rate limiter, the id generator, whether a timeout expired first, what the context and the
  random source do during a retry. The risk gate is the function \<open>Check\<close>. \<open>World\<close> adds the breaker,
  the limiter, the venue and the retry policy. The two timeouts of the configuration only decide
  when a timer fires, which is an answer of the environment. A handler is one sequential run of the Go method; log lines are not
  modelled.
\<close>

subsection \<open>Commands, views, state\<close>

record PlaceOrderCommand =
  pc_AccountID :: string
  pc_Symbol :: string
  pc_Side :: string
  pc_OrderType :: string
  pc_TIF :: string
  pc_Quantity :: string
  pc_LimitPrice :: string
  pc_IdempotencyKey :: string

record PlaceOrderResult =
  pr_OrderID :: string
  pr_Status :: string
  pr_Idempotent :: bool

record CancelOrderCommand =
  cc_OrderID :: string

record ApplyFillCommand =
  fc_OrderID :: string
  fc_Quantity :: string
  fc_Price :: string

record OrderView =
  ov_ID :: string
  ov_AccountID :: string
  ov_Symbol :: string
  ov_Side :: string
  ov_OrderType :: string
  ov_TIF :: string
  ov_LimitPrice :: string
  ov_Quantity :: string
  ov_FilledQty :: string
  ov_AvgFillPrice :: string
  ov_Status :: string
  ov_Version :: int64
  ov_CreatedAt :: Time
  ov_UpdatedAt :: Time

definition viewFromOrder :: "Order \<Rightarrow> OrderView" where
  "viewFromOrder ord =
     \<lparr>ov_ID = o_id ord, ov_AccountID = o_accountID ord, ov_Symbol = o_symbol ord,
      ov_Side = o_side ord, ov_OrderType = o_orderType ord, ov_TIF = o_tif ord,
      ov_LimitPrice = Money_String (o_limitPrice ord), ov_Quantity = Quantity_String (o_quantity ord),
      ov_FilledQty = Quantity_String (o_filledQty ord), ov_AvgFillPrice = Money_String (o_avgFillPx ord),
      ov_Status = o_status ord, ov_Version = o_version ord, ov_CreatedAt = o_createdAt ord,
      ov_UpdatedAt = o_updatedAt ord\<rparr>"

record Metrics =
  OrdersPlaced :: "string \<Rightarrow> nat"
  OrdersFilled :: nat
  OrdersCanceled :: nat
  RiskChecks :: "string \<Rightarrow> nat"
  RouteFailures :: nat
  PlaceLatency :: "float64 list"

definition zero_metrics :: Metrics where
  "zero_metrics =
     \<lparr>OrdersPlaced = (\<lambda>_. 0), OrdersFilled = 0, OrdersCanceled = 0, RiskChecks = (\<lambda>_. 0),
      RouteFailures = 0, PlaceLatency = []\<rparr>"

record Core =
  c_repo :: OrderRepository
  c_published :: "Event list list"
  c_metrics :: Metrics
  c_tick :: nat

record World =
  w_core :: Core
  w_breaker :: CircuitBreaker
  w_limiter :: RateLimiter
  w_venue :: "Core SimulatedVenue"
  w_retry :: RetryPolicy

record Env =
  Clock_Now :: "nat \<Rightarrow> Time"
  sys_now :: "nat \<Rightarrow> Time"
  NewID :: "nat \<Rightarrow> string"
  Check :: "Order \<Rightarrow> RiskDecision result"
  risk_timeout :: "nat \<Rightarrow> error option"
  route_timeout :: "nat \<Rightarrow> error option"
  route_env :: "nat \<Rightarrow> retry_env"

record Config =
  RiskTimeout :: Duration
  RouteTimeout :: Duration
  RetryAttempts :: int64
  RetryBase :: Duration
  RetryMax :: Duration
  RateLimitRPS :: float64
  RateLimitBurst :: int64
  BreakerFailures :: int64
  BreakerCooldown :: Duration

text \<open>Asking the environment once, publishing a batch, counting.\<close>

definition ask :: "(nat \<Rightarrow> 'a) \<Rightarrow> Core \<Rightarrow> 'a \<times> Core" where
  "ask f c = (f (c_tick c), c\<lparr>c_tick := Suc (c_tick c)\<rparr>)"

definition Publish :: "Event list \<Rightarrow> Core \<Rightarrow> Core" where
  "Publish events c = c\<lparr>c_published := c_published c @ [events]\<rparr>"

definition count :: "(Metrics \<Rightarrow> Metrics) \<Rightarrow> Core \<Rightarrow> Core" where
  "count f c = c\<lparr>c_metrics := f (c_metrics c)\<rparr>"

interpretation core_pub: event_publisher "\<lambda>_. True" c_published Publish
  by unfold_locales (simp_all add: Publish_def)

definition NewService :: "Config \<Rightarrow> Time \<Rightarrow> OrderRepository \<Rightarrow> Core SimulatedVenue \<Rightarrow> World" where
  "NewService cfg now repo venue =
     \<lparr>w_core = \<lparr>c_repo = repo, c_published = [], c_metrics = zero_metrics, c_tick = 0\<rparr>,
      w_breaker = NewCircuitBreaker \<lparr>FailureThreshold = BreakerFailures cfg, SuccessThreshold = 0,
        Cooldown = BreakerCooldown cfg, OnStateChange = None\<rparr>,
      w_limiter = NewRateLimiter (RateLimitRPS cfg) (RateLimitBurst cfg) now,
      w_venue = venue, w_retry = NewRetryPolicy (RetryAttempts cfg) (RetryBase cfg) (RetryMax cfg)\<rparr>"

subsection \<open>Placing an order\<close>

definition build :: "Env \<Rightarrow> PlaceOrderCommand \<Rightarrow> Core \<Rightarrow> Order result \<times> Core" where
  "build env cmd c =
     (case bind_result (ParseSymbol (pc_Symbol cmd)) (\<lambda>symbol.
           bind_result (ParseSide (pc_Side cmd)) (\<lambda>side.
           bind_result (ParseOrderType (pc_OrderType cmd)) (\<lambda>ot.
           bind_result (ParseTimeInForce (pc_TIF cmd)) (\<lambda>tif.
           bind_result (ParseQuantity (pc_Quantity cmd)) (\<lambda>qty.
           bind_result (if ot = OrderTypeLimit then ParseMoney (pc_LimitPrice cmd) else Inr 0) (\<lambda>limit.
           Inr (symbol, side, ot, tif, qty, limit))))))) of
        Inl e \<Rightarrow> (Inl e, c)
      | Inr (symbol, side, ot, tif, qty, limit) \<Rightarrow>
          (let (oid, c) = ask (NewID env) c;
               (now, c) = ask (Clock_Now env) c
           in (NewOrder oid (pc_AccountID cmd) symbol side ot tif limit qty now, c)))"

text \<open>The risk check behind the breaker and the timeout.\<close>

definition risk_check :: "Env \<Rightarrow> Order \<Rightarrow> CircuitBreaker \<Rightarrow> Core \<Rightarrow> RiskDecision result \<times> CircuitBreaker \<times> Core" where
  "risk_check env ord cb c =
     (let (t_allow, c) = ask (Clock_Now env) c;
          (expired, c) = ask (risk_timeout env) c;
          (t_record, c) = ask (Clock_Now env) c;
          (res, cb, _) = Execute t_allow t_record (WithTimeout expired (\<lambda>u. (Check env ord, u))) cb ()
      in (res, cb, c))"

definition decide :: "RiskDecision result \<Rightarrow> Time \<Rightarrow> Order \<Rightarrow> Order \<times> string" where
  "decide res now ord =
     (case res of
        Inl _ \<Rightarrow> (drop_err ord (Reject ord ''risk check unavailable'' now), ''error'')
      | Inr decision \<Rightarrow>
          if Approved decision then (drop_err ord (Accept ord now), ''approved'')
          else (drop_err ord (Reject ord (Reason decision) now), ''rejected''))"

definition route :: "Env \<Rightarrow> RetryPolicy \<Rightarrow> Order \<Rightarrow> Core SimulatedVenue \<times> Core \<Rightarrow> unit result \<times> Core SimulatedVenue \<times> Core" where
  "route env policy ord vc =
     (let (v, c) = vc;
          (renv, c) = ask (route_env env) c;
          attempt = (\<lambda>(v, c). let (expired, c) = ask (route_timeout env) c
                              in WithTimeout expired (Route ord) (v, c));
          (res, _, vc) = Retry policy renv attempt () (v, c)
      in (res, vc))"

definition bump :: "string \<Rightarrow> (string \<Rightarrow> nat) \<Rightarrow> string \<Rightarrow> nat" where
  "bump l f = f(l := Suc (f l))"

definition observe_latency :: "Env \<Rightarrow> Time \<Rightarrow> World \<Rightarrow> World" where
  "observe_latency env start w =
     (let (now, c) = ask (Clock_Now env) (w_core w)
      in w\<lparr>w_core := count (\<lambda>m. m\<lparr>PlaceLatency := PlaceLatency m @ [Seconds (time_Sub now start)]\<rparr>) c\<rparr>)"

text \<open>The body of \<open>PlaceOrder\<close> after the rate limiter and the idempotency check.\<close>

definition place_new :: "Env \<Rightarrow> PlaceOrderCommand \<Rightarrow> World \<Rightarrow> PlaceOrderResult result \<times> World" where
  "place_new env cmd w =
     (let (built, c) = build env cmd (w_core w) in
      case built of
        Inl e \<Rightarrow> (Inl e, w\<lparr>w_core := c\<rparr>)
      | Inr ord \<Rightarrow>
          (let (res, cb, c) = risk_check env ord (w_breaker w) c;
               w = w\<lparr>w_breaker := cb\<rparr>;
               (now, c) = ask (Clock_Now env) c;
               (ord, label) = decide res now ord;
               c = count (\<lambda>m. m\<lparr>RiskChecks := bump label (RiskChecks m)\<rparr>) c
           in case Save (c_repo c) ord (pc_IdempotencyKey cmd) of
                Inl e \<Rightarrow> (Inl e, w\<lparr>w_core := c\<rparr>)
              | Inr repo \<Rightarrow>
                  (let c = c\<lparr>c_repo := repo\<rparr>;
                       c = count (\<lambda>m. m\<lparr>OrdersPlaced := bump (o_status ord) (OrdersPlaced m)\<rparr>) c;
                       (events, ord) = PullEvents ord;
                       c = Publish events c;
                       (v, c) =
                         (if o_status ord = StatusAccepted
                          then (let (res, v, c) = route env (w_retry w) ord (w_venue w, c)
                                in (v, case res of Inr _ \<Rightarrow> c
                                       | Inl _ \<Rightarrow> count (\<lambda>m. m\<lparr>RouteFailures := Suc (RouteFailures m)\<rparr>) c))
                          else (w_venue w, c))
                   in (Inr \<lparr>pr_OrderID = o_id ord, pr_Status = o_status ord, pr_Idempotent = False\<rparr>,
                       w\<lparr>w_core := c, w_venue := v\<rparr>))))"

definition PlaceOrder :: "Env \<Rightarrow> PlaceOrderCommand \<Rightarrow> World \<Rightarrow> PlaceOrderResult result \<times> World" where
  "PlaceOrder env cmd w =
     (let (start, c) = ask (Clock_Now env) (w_core w);
          (t, c) = ask (sys_now env) c;
          (ok, lim) = Allow t (w_limiter w);
          w = w\<lparr>w_core := c, w_limiter := lim\<rparr>;
          (res, w) =
            (if \<not> ok then (Inl ErrRateLimited, w)
             else
               (case (if pc_IdempotencyKey cmd \<noteq> []
                      then FindByIdempotencyKey (c_repo c) (pc_IdempotencyKey cmd) else None) of
                  Some existing \<Rightarrow>
                    (Inr \<lparr>pr_OrderID = existing, pr_Status = [], pr_Idempotent = True\<rparr>, w)
                | None \<Rightarrow> place_new env cmd w))
      in (res, observe_latency env start w))"

subsection \<open>Cancelling, filling, querying\<close>

definition CancelOrder :: "Env \<Rightarrow> CancelOrderCommand \<Rightarrow> Core \<Rightarrow> unit result \<times> Core" where
  "CancelOrder env cmd c =
     (case Get (c_repo c) (cc_OrderID cmd) of
        Inl e \<Rightarrow> (Inl e, c)
      | Inr ord \<Rightarrow>
          (let expected = o_version ord;
               (now, c) = ask (Clock_Now env) c
           in case Cancel ord now of
                Inl e \<Rightarrow> (Inl e, c)
              | Inr ord \<Rightarrow>
                  (case Update (c_repo c) ord expected of
                     Inl e \<Rightarrow> (Inl e, c)
                   | Inr repo \<Rightarrow>
                       (let c = c\<lparr>c_repo := repo\<rparr>;
                            c = count (\<lambda>m. m\<lparr>OrdersCanceled := Suc (OrdersCanceled m)\<rparr>) c;
                            (events, ord) = PullEvents ord
                        in (Inr (), Publish events c)))))"

definition ApplyFill :: "Env \<Rightarrow> ApplyFillCommand \<Rightarrow> Core \<Rightarrow> unit result \<times> Core" where
  "ApplyFill env cmd c =
     (case ParseQuantity (fc_Quantity cmd) of
        Inl e \<Rightarrow> (Inl e, c)
      | Inr qty \<Rightarrow>
     (case ParseMoney (fc_Price cmd) of
        Inl e \<Rightarrow> (Inl e, c)
      | Inr px \<Rightarrow>
     (case Get (c_repo c) (fc_OrderID cmd) of
        Inl e \<Rightarrow> (Inl e, c)
      | Inr ord \<Rightarrow>
          (let expected = o_version ord;
               (now, c) = ask (Clock_Now env) c
           in case Fill ord qty px now of
                Inl e \<Rightarrow> (Inl e, c)
              | Inr ord \<Rightarrow>
                  (case Update (c_repo c) ord expected of
                     Inl e \<Rightarrow> (Inl e, c)
                   | Inr repo \<Rightarrow>
                       (let c = c\<lparr>c_repo := repo\<rparr>;
                            c = (if o_status ord = StatusFilled
                                 then count (\<lambda>m. m\<lparr>OrdersFilled := Suc (OrdersFilled m)\<rparr>) c else c);
                            (events, ord) = PullEvents ord
                        in (Inr (), Publish events c)))))))"

definition GetOrder :: "string \<Rightarrow> Core \<Rightarrow> OrderView result" where
  "GetOrder i c = bind_result (Get (c_repo c) i) (\<lambda>ord. Inr (viewFromOrder ord))"

definition ListOrders ::
  "(OrderSnapshot list \<Rightarrow> OrderSnapshot list) \<Rightarrow> int64 \<Rightarrow> Core \<Rightarrow> OrderView list result" where
  "ListOrders shuffle limit c =
     bind_result (List_orders shuffle (c_repo c) limit) (\<lambda>orders. Inr (map viewFromOrder orders))"

definition BreakerState :: "Env \<Rightarrow> World \<Rightarrow> string \<times> World" where
  "BreakerState env w =
     (let (now, c) = ask (Clock_Now env) (w_core w);
          (st, cb) = cb_State now (w_breaker w)
      in (State_String st, w\<lparr>w_core := c, w_breaker := cb\<rparr>))"

end
