(* ===== verification/Service_Log.thy ===== *)
theory Service_Log
  imports Service "HOL-Library.Sublist"
begin

section \<open>The service keeps a faithful log\<close>

text \<open>
  What the handlers of the service keep, over the contract of the repository: the stream of
  published events is the log of the stored orders, and no idempotency key is lost. The lemmas
  follow the structure of the handlers; \<open>Service_Runs\<close> states the properties for every sequence of
  calls.
\<close>

subsection \<open>The published log\<close>

text \<open>
  The events of one order in a stream, and what it means that a stream is the log of a repository:
  replaying an order's events yields exactly its stored snapshot, a stored order satisfies the
  order invariant, nothing was published of an order that is not stored, and the idempotency
  index names stored orders only.
\<close>

definition events_of :: "string \<Rightarrow> Event list \<Rightarrow> Event list" where
  "events_of i es = filter (\<lambda>e. AggregateID e = i) es"

definition entry_ok :: "Event list \<Rightarrow> string \<Rightarrow> OrderSnapshot option \<Rightarrow> bool" where
  "entry_ok es i x =
     (case x of
        None \<Rightarrow> events_of i es = []
      | Some s \<Rightarrow> s_ID s = i \<and> order_inv (RehydrateOrder s) \<and> replay (events_of i es) = Some s)"

definition log_ok :: "OrderRepository \<Rightarrow> Event list \<Rightarrow> bool" where
  "log_ok r es \<longleftrightarrow>
     repo_inv r \<and> (\<forall>i. entry_ok es i (repo_map r i)) \<and>
     (\<forall>k i. map_of (idem r) k = Some i \<longrightarrow> repo_map r i \<noteq> None)"

definition core_ok :: "Core \<Rightarrow> bool" where
  "core_ok c \<longleftrightarrow> log_ok (c_repo c) (concat (c_published c))"

lemma events_of_append [simp]: "events_of i (es @ fs) = events_of i es @ events_of i fs"
  by (simp add: events_of_def)

lemma events_of_all: "\<forall>e \<in> set es. AggregateID e = i \<Longrightarrow> events_of i es = es"
  by (simp add: events_of_def)

lemma events_of_none: "\<forall>e \<in> set es. AggregateID e = j \<Longrightarrow> i \<noteq> j \<Longrightarrow> events_of i es = []"
  by (auto simp: events_of_def filter_empty_conv)

lemma log_ok_put:
  assumes "log_ok r es" "repo_inv r'" "repo_map r' = (repo_map r)(o_id ord \<mapsto> Snapshot ord)"
    and "order_inv ord" "\<forall>e \<in> set (o_events ord). AggregateID e = o_id ord"
    and "replay (events_of (o_id ord) es @ o_events ord) = Some (Snapshot ord)"
    and "\<And>k i. map_of (idem r') k = Some i \<Longrightarrow> i = o_id ord \<or> map_of (idem r) k = Some i"
  shows "log_ok r' (es @ o_events ord)"
proof -
  have "entry_ok (es @ o_events ord) i (repo_map r' i)" for i
  proof (cases "i = o_id ord")
    case True
    have "order_inv (RehydrateOrder (Snapshot ord))"
      using assms(4) by (simp add: RehydrateOrder_def Snapshot_def order_inv_def order_static_def fill_agrees_def)
    with True assms(3,5,6) show ?thesis by (simp add: entry_ok_def events_of_all)
  next
    case False
    have "events_of i (es @ o_events ord) = events_of i es"
      using events_of_none [OF assms(5) False] by simp
    then have "entry_ok (es @ o_events ord) i x = entry_ok es i x" for x by (simp only: entry_ok_def)
    with False assms(1,3) show ?thesis by (simp add: log_ok_def)
  qed
  moreover have "repo_map r' i \<noteq> None" if "map_of (idem r') k = Some i" for k i
    using assms(7) [OF that] assms(1,3) by (auto simp: log_ok_def)
  ultimately show ?thesis using assms(2) by (simp add: log_ok_def)
qed

text \<open>A new order that was saved and published.\<close>

lemma log_ok_save:
  assumes "log_ok r es" "Save r ord k = Inr r'" "sourced ord" "\<forall>e \<in> set (o_events ord). AggregateID e = o_id ord"
  shows "log_ok r' (es @ o_events ord)"
proof -
  have iv: "repo_inv r" using assms(1) by (simp add: log_ok_def)
  note sv = mem.save_Inr [OF iv assms(2)]
  have "entry_ok es (o_id ord) None" using assms(1) sv(1) by (metis log_ok_def)
  then have "events_of (o_id ord) es = []" by (simp add: entry_ok_def)
  with assms(3) show ?thesis
    by (intro log_ok_put [OF assms(1) sv(2,3)])
      (auto simp: sourced_def assms(4) sv(4) split: if_splits)
qed

text \<open>One method on a rehydrated order: one event, which leads from the old snapshot to the new.\<close>

lemma exec_event:
  assumes "order_inv (RehydrateOrder s)" "order_exec (RehydrateOrder s) c = Inr ord"
  shows "\<exists>e. o_events ord = [e] \<and> ev_orderID e = s_ID s \<and> apply_event (Some s) e = Some (Snapshot ord)"
proof (cases c)
  case (CFill q p t)
  then have "Fill (RehydrateOrder s) q p t = Inr ord" using assms by simp
  note f = Fill_InrD [OF assms(1) this]
  from f(1) show ?thesis
    by (auto simp: f(6) filled_order_def raise_def Let_def Snapshot_def after_def RehydrateOrder_def)
qed (use assms(2) in \<open>auto simp: order_op_defs canTransitionTo_iff Snapshot_def after_def working_def RehydrateOrder_def\<close>)

lemma replay_one: "replay es = Some s \<Longrightarrow> apply_event (Some s) e = x \<Longrightarrow> replay (es @ [e]) = x"
  by (simp add: replay_snoc)

lemma log_ok_update:
  assumes "log_ok r es" "Get r i = Inr ord" "order_exec ord c = Inr ord'" "Update r ord' v = Inr r'"
  shows "log_ok r' (es @ o_events ord')" "map_of (idem r') = map_of (idem r)"
proof -
  have iv: "repo_inv r" and en: "entry_ok es i (repo_map r i)" using assms(1) by (simp_all add: log_ok_def)
  obtain s where s: "repo_map r i = Some s" "ord = RehydrateOrder s"
    using assms(2) mem.get_eq [OF iv, of i] by (auto split: option.splits)
  have e: "s_ID s = i" "order_inv ord" "replay (events_of i es) = Some s"
    using en s by (simp_all add: entry_ok_def)
  note u = mem.update_Inr [OF iv assms(4)]
  have id: "o_id ord' = i" using order_exec_step(1) [OF assms(3)] s(2) e(1) by (simp add: RehydrateOrder_def)
  obtain x where x: "o_events ord' = [x]" "ev_orderID x = i" "apply_event (Some s) x = Some (Snapshot ord')"
    using exec_event [of s c ord'] e assms(3) s(2) by auto
  show "log_ok r' (es @ o_events ord')"
    by (rule log_ok_put [OF assms(1) u(2,3) order_exec_inv [OF e(2) assms(3)]])
      (use x id u(4) replay_one [OF e(3) x(3)] in \<open>auto simp: AggregateID_def\<close>)
  show "map_of (idem r') = map_of (idem r)" by (rule u(4))
qed


subsection \<open>The handlers keep the log\<close>

text \<open>
  \<open>evolves c c'\<close>: the log property carries over, what was published stays published, and no
  idempotency key is lost or redirected. It is reflexive and transitive, and each handler
  satisfies it.
\<close>

definition keys :: "Core \<Rightarrow> string \<rightharpoonup> string" where
  "keys c = map_of (idem (c_repo c))"

definition evolves :: "Core \<Rightarrow> Core \<Rightarrow> bool" where
  "evolves c c' \<longleftrightarrow>
     (core_ok c \<longrightarrow> core_ok c' \<and> keys c \<subseteq>\<^sub>m keys c' \<and> prefix (c_published c) (c_published c'))"

lemma evolves_refl [simp]: "evolves c c"
  by (simp add: evolves_def)

lemma evolves_trans: "evolves c d \<Longrightarrow> evolves d e \<Longrightarrow> evolves c e"
  unfolding evolves_def by (blast intro: map_le_trans prefix_order.trans)

lemma evolves_same: "c_repo c' = c_repo c \<Longrightarrow> c_published c' = c_published c \<Longrightarrow> evolves c c'"
  by (simp add: evolves_def core_ok_def keys_def)

lemma ask_sel [simp]:
  "fst (ask f c) = f (c_tick c)" "c_repo (snd (ask f c)) = c_repo c"
  "c_published (snd (ask f c)) = c_published c" "c_metrics (snd (ask f c)) = c_metrics c"
  by (simp_all add: ask_def)

lemma count_sel [simp]:
  "c_repo (count f c) = c_repo c" "c_published (count f c) = c_published c" "c_tick (count f c) = c_tick c"
  by (simp_all add: count_def)

lemma Publish_sel [simp]:
  "c_repo (Publish es c) = c_repo c" "c_published (Publish es c) = c_published c @ [es]"
  by (simp_all add: Publish_def)

lemma PullEvents_sel [simp]: "fst (PullEvents ord) = o_events ord" "snd (PullEvents ord) = ord\<lparr>o_events := []\<rparr>"
  by (simp_all add: PullEvents_def)

text \<open>A successful read-modify-write of an order, followed by the publication of its events.\<close>

lemma evolves_update:
  assumes "Get (c_repo c) i = Inr ord" "order_exec ord cmd = Inr ord'" "Update (c_repo c) ord' v = Inr r'"
    and "c_repo c' = r'" "c_published c' = c_published c @ [o_events ord']"
  shows "evolves c c'"
  using log_ok_update [of "c_repo c" "concat (c_published c)", OF _ assms(1-3)] assms(4,5)
  by (auto simp: evolves_def core_ok_def keys_def)

lemma CancelOrder_evolves: "evolves c (snd (CancelOrder env cmd c))"
proof (cases "is_ok (fst (CancelOrder env cmd c))")
  case False
  then show ?thesis
    by (intro evolves_same) (auto simp: CancelOrder_def Let_def case_prod_unfold split: sum.splits)
next
  case True
  then obtain ord ord' r' where "Get (c_repo c) (cc_OrderID cmd) = Inr ord"
    "Cancel ord (Clock_Now env (c_tick c)) = Inr ord'" "Update (c_repo c) ord' (o_version ord) = Inr r'"
    by (auto simp: CancelOrder_def Let_def case_prod_unfold split: sum.splits)
  then show ?thesis
    by (intro evolves_update [of c _ ord "CCancel (Clock_Now env (c_tick c))" ord'])
      (simp_all add: CancelOrder_def Let_def case_prod_unfold)
qed

lemma ApplyFill_cases:
  assumes "is_ok (fst (ApplyFill env cmd c))"
  obtains q px ord ord' r' where "ParseQuantity (fc_Quantity cmd) = Inr q" "ParseMoney (fc_Price cmd) = Inr px"
    "Get (c_repo c) (fc_OrderID cmd) = Inr ord" "Fill ord q px (Clock_Now env (c_tick c)) = Inr ord'"
    "Update (c_repo c) ord' (o_version ord) = Inr r'"
  using assms by (auto simp: ApplyFill_def Let_def case_prod_unfold split: sum.splits)

lemma ApplyFill_evolves: "evolves c (snd (ApplyFill env cmd c))"
proof (cases "is_ok (fst (ApplyFill env cmd c))")
  case False
  then show ?thesis
    by (intro evolves_same) (auto simp: ApplyFill_def Let_def case_prod_unfold split: sum.splits)
next
  case True
  then show ?thesis
  proof (rule ApplyFill_cases)
    fix q px ord ord' r'
    assume a: "ParseQuantity (fc_Quantity cmd) = Inr q" "ParseMoney (fc_Price cmd) = Inr px"
      "Get (c_repo c) (fc_OrderID cmd) = Inr ord" "Fill ord q px (Clock_Now env (c_tick c)) = Inr ord'"
      "Update (c_repo c) ord' (o_version ord) = Inr r'"
    then show ?thesis
      by (intro evolves_update [of c _ ord "CFill q px (Clock_Now env (c_tick c))" ord'])
        (simp_all add: ApplyFill_def Let_def case_prod_unfold)
  qed
qed

subsection \<open>Routing\<close>

text \<open>
  One attempt to route an order, and the states a routed order leads through: the retry loop makes
  failed attempts and at most one successful one.
\<close>

definition attempt :: "Env \<Rightarrow> Order \<Rightarrow> Core SimulatedVenue \<times> Core \<Rightarrow> unit result \<times> Core SimulatedVenue \<times> Core" where
  "attempt env ord = (\<lambda>(v, c). let (expired, c) = ask (route_timeout env) c in WithTimeout expired (Route ord) (v, c))"

lemma attempt_state:
  "snd (attempt env ord (v, c)) = snd (Route ord (v, snd (ask (route_timeout env) c)))"
  by (simp add: attempt_def Let_def case_prod_unfold WithTimeout_def split: option.split)

lemma route_state:
  "\<exists>t. (failed_attempt (attempt env ord))\<^sup>*\<^sup>* (v, snd (ask (route_env env) c)) t \<and>
     (snd (route env p ord (v, c)) = t \<or>
      is_ok (fst (attempt env ord t)) \<and> snd (route env p ord (v, c)) = snd (attempt env ord t))"
  using Retry_loop_state [of "attempt env ord" "(v, snd (ask (route_env env) c))" p
      "fst (ask (route_env env) c)" "()" 0 None]
  unfolding route_def attempt_def [symmetric] Retry_def by (simp add: Let_def case_prod_unfold)

text \<open>
  The venue touches the state behind the ports only through its callback. \<open>core_preorder\<close> is the
  contract of a relation that may be claimed of a handler (reflexive, transitive, and satisfied by a
  question to the environment): if the callback satisfies the relation, then so does routing.
\<close>

definition filler_keeps :: "('c \<Rightarrow> 'c \<Rightarrow> bool) \<Rightarrow> 'c SimulatedVenue \<Rightarrow> bool" where
  "filler_keeps R v \<longleftrightarrow> (\<forall>f i q px c. v_filler v = Some f \<longrightarrow> R c (f i q px c))"

lemma filler_keeps_cong: "v_filler v = v_filler v' \<Longrightarrow> filler_keeps R v = filler_keeps R v'"
  by (simp add: filler_keeps_def)

locale core_preorder =
  fixes R :: "Core \<Rightarrow> Core \<Rightarrow> bool"
  assumes R_refl: "R c c"
    and R_trans: "R c d \<Longrightarrow> R d e \<Longrightarrow> R c e"
    and R_tick: "R c (c\<lparr>c_tick := Suc (c_tick c)\<rparr>)"
begin

lemma R_ask: "R c (snd (ask f c))"
  using R_tick by (simp add: ask_def)

lemma attempt_keeps:
  assumes "filler_keeps R (fst s)"
  shows "v_filler (fst (snd (attempt env ord s))) = v_filler (fst s) \<and> R (snd s) (snd (snd (attempt env ord s)))"
proof -
  obtain v c where s: "s = (v, c)" by fastforce
  let ?c = "snd (ask (route_timeout env) c)"
  have "R ?c (snd (snd (Route ord (v, ?c))))"
    using sim.route_keeps [of v R ?c ord] assms R_refl by (simp add: s filler_keeps_def)
  then show ?thesis using R_trans [OF R_ask] by (simp add: s attempt_state sim.route_filler)
qed

lemma attempts_keep:
  assumes "(failed_attempt (attempt env ord))\<^sup>*\<^sup>* s t" "filler_keeps R (fst s)"
  shows "v_filler (fst t) = v_filler (fst s) \<and> R (snd s) (snd t)"
  using assms(1)
proof (induction rule: rtranclp_induct)
  case (step t u)
  then have u: "u = snd (attempt env ord t)" by (simp add: failed_attempt_def)
  have "filler_keeps R (fst t)" using filler_keeps_cong assms(2) step.IH by blast
  from attempt_keeps [OF this, of env ord] step.IH show ?case unfolding u by (metis R_trans)
qed (simp add: R_refl)

lemma route_keeps:
  assumes "filler_keeps R v"
  shows "v_filler (fst (snd (route env p ord (v, c)))) = v_filler v" "R c (snd (snd (route env p ord (v, c))))"
proof -
  obtain t where t: "(failed_attempt (attempt env ord))\<^sup>*\<^sup>* (v, snd (ask (route_env env) c)) t"
    "snd (route env p ord (v, c)) = t \<or> snd (route env p ord (v, c)) = snd (attempt env ord t)"
    using route_state by blast
  have a: "v_filler (fst t) = v_filler v \<and> R (snd (ask (route_env env) c)) (snd t)"
    using attempts_keep [OF t(1)] assms by simp
  have b: "v_filler (fst (snd (attempt env ord t))) = v_filler v \<and> R (snd t) (snd (snd (attempt env ord t)))"
    using attempt_keeps [of t env ord] a assms filler_keeps_cong [of "fst t" v R] by simp
  show "v_filler (fst (snd (route env p ord (v, c)))) = v_filler v" using t(2) a b by metis
  show "R c (snd (snd (route env p ord (v, c))))" using t(2) a b R_trans R_ask by metis
qed

end

interpretation ev: core_preorder evolves
  by unfold_locales (auto intro: evolves_trans evolves_same)

definition venue_ok :: "Core SimulatedVenue \<Rightarrow> bool" where
  "venue_ok v \<longleftrightarrow> filler_keeps evolves v"

text \<open>
  What the venue records of a routed order: its id, at most once per attempt, and at most once
  altogether if no attempt is cut off by its timeout.
\<close>

lemma attempt_appends:
  "\<exists>k \<le> 1. v_routed (fst (snd (attempt env ord s))) = v_routed (fst s) @ replicate k (o_id ord) \<and>
     (\<not> is_ok (fst (attempt env ord s)) \<and> (\<forall>n. route_timeout env n = None) \<longrightarrow> k = 0)"
proof -
  obtain v c where s: "s = (v, c)" by fastforce
  let ?r = "Route ord (v, snd (ask (route_timeout env) c))"
  have "fst (attempt env ord s) = fst ?r" if "\<forall>n. route_timeout env n = None"
    using that by (simp add: s attempt_def WithTimeout_def Let_def case_prod_unfold)
  then show ?thesis unfolding s attempt_state sim.route_records
    by (intro exI [of _ "if is_ok (fst ?r) then 1 else 0"]) auto
qed

lemma attempts_append: "\<exists>k \<le> n. v_routed (fst (op_state (attempt env ord) s n)) = v_routed (fst s) @ replicate k (o_id ord)"
proof (induction n)
  case (Suc n)
  then obtain k where "k \<le> n" "v_routed (fst (op_state (attempt env ord) s n)) = v_routed (fst s) @ replicate k (o_id ord)"
    by blast
  moreover obtain j where "j \<le> 1" "v_routed (fst (op_state (attempt env ord) s (Suc n))) =
      v_routed (fst (op_state (attempt env ord) s n)) @ replicate j (o_id ord)"
    using attempt_appends [of env ord "op_state (attempt env ord) s n"] by auto
  ultimately show ?case by (intro exI [of _ "k + j"]) (simp add: replicate_add)
qed simp

lemma failed_attempts_append:
  assumes "(failed_attempt (attempt env ord))\<^sup>*\<^sup>* s t" "\<forall>n. route_timeout env n = None"
  shows "v_routed (fst t) = v_routed (fst s)"
  using assms(1)
proof (induction rule: rtranclp_induct)
  case (step t u)
  then show ?case using attempt_appends [of env ord t] assms(2) by (auto simp: failed_attempt_def)
qed simp

lemma route_appends:
  "\<exists>k. v_routed (fst (snd (route env p ord (v, c)))) = v_routed v @ replicate k (o_id ord) \<and>
     k \<le> nat (sint (MaxAttempts p)) \<and> ((\<forall>n. route_timeout env n = None) \<longrightarrow> k \<le> 1)"
proof -
  let ?s = "(v, snd (ask (route_env env) c))"
  let ?t = "snd (route env p ord (v, c))"
  obtain n where n: "int n \<le> max 0 (sint (MaxAttempts p))" "?t = op_state (attempt env ord) ?s n"
    using Retry_loop_bounded [where a = 0 and p = p and env = "fst (ask (route_env env) c)" and op = "attempt env ord"
        and zero = "()" and lastErr = None and s = ?s]
    unfolding route_def attempt_def [symmetric] Retry_def by (auto simp: Let_def case_prod_unfold)
  obtain k where k: "k \<le> n" "v_routed (fst ?t) = v_routed v @ replicate k (o_id ord)"
    using attempts_append [of n env ord ?s] unfolding n(2) by auto
  have "k \<le> 1" if a: "\<forall>n. route_timeout env n = None"
  proof -
    obtain t where "(failed_attempt (attempt env ord))\<^sup>*\<^sup>* ?s t" "?t = t \<or> ?t = snd (attempt env ord t)"
      using route_state by blast
    then have "\<exists>j \<le> 1. v_routed (fst ?t) = v_routed v @ replicate j (o_id ord)"
      using failed_attempts_append [OF _ a, of ord ?s t] attempt_appends [of env ord t] by (metis append_Nil2 fst_conv le0 replicate_0)
    then show ?thesis using k(2) by (metis length_replicate same_append_eq)
  qed
  moreover have "k \<le> nat (sint (MaxAttempts p))" using n(1) k(1) by linarith
  ultimately show ?thesis using k(2) by blast
qed

subsection \<open>Placing an order\<close>

lemma NewOrder_fresh:
  assumes "NewOrder oid acct symb side ot tif px q now = Inr ord"
  shows "o_id ord = oid" "o_status ord = StatusNew" "o_events ord = [OrderPlaced oid now acct symb side ot tif q px]"
    "o_accountID ord = acct"
  using assms by (auto simp: NewOrder_def raise_def)

lemma drop_err_Inr [simp]: "drop_err x (Inr y) = y"
  by (simp add: drop_err_def)

text \<open>The decision is one method of a new order, \<open>Accept\<close> or \<open>Reject\<close>, and it succeeds.\<close>

lemma decide_exec:
  assumes "o_status ord = StatusNew"
  obtains c where "order_exec ord c = Inr (fst (decide res now ord))"
    "o_status (fst (decide res now ord)) =
       (case res of Inr d \<Rightarrow> if Approved d then StatusAccepted else StatusRejected | Inl _ \<Rightarrow> StatusRejected)"
    "\<exists>e. o_events (fst (decide res now ord)) = o_events ord @ [e] \<and> ev_orderID e = o_id ord"
proof (cases res)
  case (Inl e)
  then show ?thesis using that [of "CReject ''risk check unavailable'' now"] assms
    by (auto simp: decide_def order_op_defs canTransitionTo_iff)
next
  case (Inr d)
  show ?thesis
  proof (cases "Approved d")
    case True
    then show ?thesis using that [of "CAccept now"] assms Inr
      by (auto simp: decide_def order_op_defs canTransitionTo_iff)
  next
    case False
    then show ?thesis using that [of "CReject (Reason d) now"] assms Inr
      by (auto simp: decide_def order_op_defs canTransitionTo_iff)
  qed
qed

definition own_events :: "Order \<Rightarrow> bool" where
  "own_events ord \<longleftrightarrow> (\<forall>e \<in> set (o_events ord). AggregateID e = o_id ord)"

lemma decide_new:
  assumes "NewOrder oid acct symb side ot tif px q t = Inr ord"
  shows "sourced (fst (decide res now ord))" "own_events (fst (decide res now ord))"
    "o_id (fst (decide res now ord)) = oid"
    "o_status (fst (decide res now ord)) =
       (case res of Inr d \<Rightarrow> if Approved d then StatusAccepted else StatusRejected | Inl _ \<Rightarrow> StatusRejected)"
    "order_rel ord (fst (decide res now ord))"
proof -
  note n = NewOrder_fresh [OF assms]
  obtain c where c: "order_exec ord c = Inr (fst (decide res now ord))"
    and st: "o_status (fst (decide res now ord)) =
       (case res of Inr d \<Rightarrow> if Approved d then StatusAccepted else StatusRejected | Inl _ \<Rightarrow> StatusRejected)"
    and ev: "\<exists>e. o_events (fst (decide res now ord)) = o_events ord @ [e] \<and> ev_orderID e = o_id ord"
    by (rule decide_exec [OF n(2), of res now])
  show "order_rel ord (fst (decide res now ord))" using NewOrder_inv [OF assms] c by (rule order_exec_rel)
  show "sourced (fst (decide res now ord))" using NewOrder_sourced [OF assms] c by (rule sourced_exec)
  show id: "o_id (fst (decide res now ord)) = oid" using order_exec_step(1) [OF c] n(1) by simp
  show "own_events (fst (decide res now ord))"
    using ev n(1,3) id by (auto simp: own_events_def AggregateID_def)
  show "o_status (fst (decide res now ord)) =
       (case res of Inr d \<Rightarrow> if Approved d then StatusAccepted else StatusRejected | Inl _ \<Rightarrow> StatusRejected)"
    by (rule st)
qed

text \<open>
  What a handler does besides storing, publishing and counting orders is silent: it asks the
  environment and changes other counters.
\<close>

definition counters :: "Core \<Rightarrow> (string \<Rightarrow> nat) \<times> nat \<times> nat" where
  "counters c = (OrdersPlaced (c_metrics c), OrdersFilled (c_metrics c), OrdersCanceled (c_metrics c))"

definition silent :: "Core \<Rightarrow> Core \<Rightarrow> bool" where
  "silent c c' \<longleftrightarrow> c_repo c' = c_repo c \<and> c_published c' = c_published c \<and> counters c' = counters c \<and> c_tick c \<le> c_tick c'"

lemma counters_sel [simp]:
  "counters (snd (ask f c)) = counters c" "counters (c\<lparr>c_tick := n\<rparr>) = counters c"
  "counters (Publish es c) = counters c" "counters (c\<lparr>c_repo := r\<rparr>) = counters c"
  "counters (count (\<lambda>m. m\<lparr>RiskChecks := f1 m\<rparr>) c) = counters c"
  "counters (count (\<lambda>m. m\<lparr>RouteFailures := f2 m\<rparr>) c) = counters c"
  "counters (count (\<lambda>m. m\<lparr>PlaceLatency := f3 m\<rparr>) c) = counters c"
  by (simp_all add: counters_def ask_def Publish_def count_def)

lemma tick_sel [simp]:
  "c_tick (snd (ask f c)) = Suc (c_tick c)" "c_tick (Publish es c) = c_tick c"
  by (simp_all add: ask_def Publish_def)

lemma build_result:
  "silent c (snd (build env cmd c))"
  "fst (build env cmd c) = Inr ord \<Longrightarrow> c_tick c < c_tick (snd (build env cmd c))"
  "fst (build env cmd c) = Inr ord \<Longrightarrow>
     \<exists>symb side ot tif px q. NewOrder (NewID env (c_tick c)) (pc_AccountID cmd) symb side ot tif px q
       (Clock_Now env (Suc (c_tick c))) = Inr ord"
  by (auto simp: silent_def build_def Let_def case_prod_unfold ask_sel(1) split: sum.splits) blast

text \<open>
  What a command asks for, and what the risk check answers when it starts at a moment: nothing gets
  past a breaker that is open and has not cooled down; a timeout that expires comes before any
  answer of the gate; otherwise the answer is the gate's.
\<close>

definition requested :: "PlaceOrderCommand \<Rightarrow> Order \<Rightarrow> bool" where
  "requested cmd ord \<longleftrightarrow>
     o_accountID ord = pc_AccountID cmd \<and> ParseSymbol (pc_Symbol cmd) = Inr (o_symbol ord) \<and>
     ParseSide (pc_Side cmd) = Inr (o_side ord) \<and> ParseOrderType (pc_OrderType cmd) = Inr (o_orderType ord) \<and>
     ParseTimeInForce (pc_TIF cmd) = Inr (o_tif ord) \<and> ParseQuantity (pc_Quantity cmd) = Inr (o_quantity ord) \<and>
     (if o_orderType ord = OrderTypeLimit then ParseMoney (pc_LimitPrice cmd) = Inr (o_limitPrice ord)
      else o_limitPrice ord = 0)"

definition verdict :: "Env \<Rightarrow> nat \<Rightarrow> CircuitBreaker \<Rightarrow> Order \<Rightarrow> RiskDecision result" where
  "verdict env tick cb ord =
     (if cb_state cb = StateOpen \<and> \<not> cooldown cb \<le>s time_Sub (Clock_Now env tick) (openedAt cb)
      then Inl ErrCircuitOpen
      else (case risk_timeout env (tick + 1) of Some e \<Rightarrow> Inl e | None \<Rightarrow> Check env ord))"

lemma NewOrder_fields:
  assumes "NewOrder oid acct symb side ot tif px q now = Inr ord"
  shows "o_accountID ord = acct" "o_symbol ord = symb" "o_side ord = side" "o_orderType ord = ot" "o_tif ord = tif"
    "o_limitPrice ord = px" "o_quantity ord = q"
  using assms by (auto simp: NewOrder_def raise_def)

lemma build_requested:
  assumes "fst (build env cmd c) = Inr ord"
  shows "requested cmd ord"
proof -
  obtain symb side ot tif q px where n: "NewOrder (NewID env (c_tick c)) (pc_AccountID cmd) symb side ot tif px q
      (Clock_Now env (Suc (c_tick c))) = Inr ord"
    and p: "ParseSymbol (pc_Symbol cmd) = Inr symb" "ParseSide (pc_Side cmd) = Inr side"
      "ParseOrderType (pc_OrderType cmd) = Inr ot" "ParseTimeInForce (pc_TIF cmd) = Inr tif"
      "ParseQuantity (pc_Quantity cmd) = Inr q"
      "(if ot = OrderTypeLimit then ParseMoney (pc_LimitPrice cmd) else Inr 0) = Inr px"
    using assms unfolding build_def Let_def by (clarsimp simp: case_prod_unfold split: sum.splits)
  from p show ?thesis unfolding requested_def NewOrder_fields [OF n] by (simp split: if_splits)
qed

lemma build_tick: "fst (build env cmd c) = Inr ord \<Longrightarrow> c_tick (snd (build env cmd c)) = c_tick c + 2"
  by (auto simp: build_def Let_def case_prod_unfold split: sum.splits)

lemma risk_check_result:
  "silent c (snd (snd (risk_check env ord cb c)))"
  "fst (risk_check env ord cb c) = verdict env (c_tick c) cb ord"
  by (auto simp: silent_def risk_check_def verdict_def Execute_def allow_def refresh_def cb_transition_def WithTimeout_def
      Let_def case_prod_unfold split: option.split)

text \<open>
  The outcomes of \<open>place_new\<close>, with the states in between: the command is not valid, the decided order
  is not saved, or it is saved, published and counted, which leads to \<open>c\<close>, and then routed if it was
  accepted, which leads to \<open>c'\<close>.
\<close>

lemma place_new_cases:
  obtains (invalid) e where "fst (build env cmd (w_core w)) = Inl e" "fst (place_new env cmd w) = Inl e"
      "silent (w_core w) (w_core (snd (place_new env cmd w)))" "w_venue (snd (place_new env cmd w)) = w_venue w"
      "w_retry (snd (place_new env cmd w)) = w_retry w"
  | (unsaved) e symb side ot tif px q ord0 res now where
      "NewOrder (NewID env (c_tick (w_core w))) (pc_AccountID cmd) symb side ot tif px q
         (Clock_Now env (Suc (c_tick (w_core w)))) = Inr ord0"
      "Save (c_repo (w_core w)) (fst (decide res now ord0)) (pc_IdempotencyKey cmd) = Inl e"
      "fst (build env cmd (w_core w)) = Inr ord0" "fst (place_new env cmd w) = Inl e"
      "silent (w_core w) (w_core (snd (place_new env cmd w)))" "w_venue (snd (place_new env cmd w)) = w_venue w"
      "w_retry (snd (place_new env cmd w)) = w_retry w"
  | (saved) symb side ot tif px q ord0 res now ord c c' where
      "NewOrder (NewID env (c_tick (w_core w))) (pc_AccountID cmd) symb side ot tif px q
         (Clock_Now env (Suc (c_tick (w_core w)))) = Inr ord0"
      "ord = fst (decide res now ord0)" "res = verdict env (c_tick (w_core w) + 2) (w_breaker w) ord0"
      "fst (build env cmd (w_core w)) = Inr ord0"
      "fst (place_new env cmd w) = Inr \<lparr>pr_OrderID = o_id ord, pr_Status = o_status ord, pr_Idempotent = False\<rparr>"
      "Save (c_repo (w_core w)) ord (pc_IdempotencyKey cmd) = Inr (c_repo c)" "c_tick (w_core w) < c_tick c"
      "c_published c = c_published (w_core w) @ [o_events ord]"
      "counters c = (bump (o_status ord) (OrdersPlaced (c_metrics (w_core w))), OrdersFilled (c_metrics (w_core w)),
         OrdersCanceled (c_metrics (w_core w)))"
      "(w_venue (snd (place_new env cmd w)), c') =
         (if o_status ord = StatusAccepted then snd (route env (w_retry w) (ord\<lparr>o_events := []\<rparr>) (w_venue w, c))
          else (w_venue w, c))"
      "silent c' (w_core (snd (place_new env cmd w)))" "w_retry (snd (place_new env cmd w)) = w_retry w"
proof (cases "fst (build env cmd (w_core w))")
  case (Inl e)
  then show ?thesis
    by (intro invalid [of e]) (simp_all add: place_new_def Let_def case_prod_unfold build_result(1))
next
  case (Inr ord0)
  let ?c0 = "snd (build env cmd (w_core w))"
  let ?rc = "risk_check env ord0 (w_breaker w) ?c0"
  let ?c1 = "snd (snd ?rc)"
  let ?now = "Clock_Now env (c_tick ?c1)"
  let ?dec = "decide (fst ?rc) ?now ord0"
  let ?ord = "fst ?dec"
  let ?c2 = "count (\<lambda>m. m\<lparr>RiskChecks := bump (snd ?dec) (RiskChecks m)\<rparr>) (snd (ask (Clock_Now env) ?c1))"
  obtain symb side ot tif px q where N: "NewOrder (NewID env (c_tick (w_core w))) (pc_AccountID cmd) symb side ot tif px q
     (Clock_Now env (Suc (c_tick (w_core w)))) = Inr ord0" using build_result(3) [OF Inr] by blast
  have same: "silent (w_core w) ?c2" "c_tick (w_core w) < c_tick ?c2"
    using build_result(1) [of "w_core w" env cmd] build_result(2) [OF Inr] risk_check_result(1) [of ?c0 env ord0 "w_breaker w"]
    by (auto simp: silent_def)
  have repo: "c_repo ?c1 = c_repo (w_core w)" using same(1) by (simp add: silent_def)
  show ?thesis
  proof (cases "Save (c_repo (w_core w)) ?ord (pc_IdempotencyKey cmd)")
    case (Inl e)
    then have "place_new env cmd w = (Inl e, w\<lparr>w_breaker := fst (snd ?rc), w_core := ?c2\<rparr>)"
      using Inr repo by (simp add: place_new_def Let_def case_prod_unfold)
    then show ?thesis using same(1) by (intro unsaved [OF N Inl Inr]) simp_all
  next
    case sv: (Inr repo)
    let ?c3 = "Publish (o_events ?ord)
      (count (\<lambda>m. m\<lparr>OrdersPlaced := bump (o_status ?ord) (OrdersPlaced m)\<rparr>) (?c2\<lparr>c_repo := repo\<rparr>))"
    let ?r = "route env (w_retry w) (?ord\<lparr>o_events := []\<rparr>) (w_venue w, ?c3)"
    let ?c4 = "if o_status ?ord = StatusAccepted then snd (snd ?r) else ?c3"
    have p: "fst (place_new env cmd w) = Inr \<lparr>pr_OrderID = o_id ?ord, pr_Status = o_status ?ord, pr_Idempotent = False\<rparr>"
      "w_venue (snd (place_new env cmd w)) = (if o_status ?ord = StatusAccepted then fst (snd ?r) else w_venue w)"
      "w_core (snd (place_new env cmd w)) = (if o_status ?ord = StatusAccepted \<and> \<not> is_ok (fst ?r)
         then count (\<lambda>m. m\<lparr>RouteFailures := Suc (RouteFailures m)\<rparr>) ?c4 else ?c4)"
      "w_retry (snd (place_new env cmd w)) = w_retry w"
      using Inr sv repo by (auto simp: place_new_def Let_def case_prod_unfold split: sum.split)
    show ?thesis
    proof (rule saved [OF N refl _ Inr p(1), of ?c3 ?c4])
      show "Save (c_repo (w_core w)) ?ord (pc_IdempotencyKey cmd) = Inr (c_repo ?c3)" using sv by simp
      show "c_tick (w_core w) < c_tick ?c3" using same(2) by simp
      show "c_published ?c3 = c_published (w_core w) @ [o_events ?ord]" using same(1) by (simp add: silent_def)
      show "counters ?c3 = (bump (o_status ?ord) (OrdersPlaced (c_metrics (w_core w))), OrdersFilled (c_metrics (w_core w)),
         OrdersCanceled (c_metrics (w_core w)))"
        using same(1) by (simp add: silent_def counters_def count_def Publish_def)
      show "(w_venue (snd (place_new env cmd w)), ?c4) =
          (if o_status ?ord = StatusAccepted then snd ?r else (w_venue w, ?c3))" unfolding p(2) by simp
      show "silent ?c4 (w_core (snd (place_new env cmd w)))" unfolding p(3) by (simp add: silent_def)
      show "fst ?rc = verdict env (c_tick (w_core w) + 2) (w_breaker w) ord0"
        unfolding risk_check_result(2) build_tick [OF Inr] ..
    qed (fact p(4))
  qed
qed

text \<open>
  The two outcomes of \<open>place_new\<close>: an error, with the stored orders, the published events and the
  venue as before, or a decided order that was saved, published and, if accepted, routed.
\<close>

definition placed :: "Env \<Rightarrow> PlaceOrderCommand \<Rightarrow> World \<Rightarrow> Order \<Rightarrow> PlaceOrderResult \<Rightarrow> World \<Rightarrow> bool" where
  "placed env cmd w ord r w' \<longleftrightarrow>
     sourced ord \<and> own_events ord \<and>
     r = \<lparr>pr_OrderID = o_id ord, pr_Status = o_status ord, pr_Idempotent = False\<rparr> \<and>
     o_status ord \<in> {StatusAccepted, StatusRejected} \<and>
     (o_status ord = StatusAccepted \<longrightarrow>
        (\<exists>d. Check env (as_placed ord) = Inr d \<and> Approved d)) \<and>
     (\<exists>c1 c2. Save (c_repo (w_core w)) ord (pc_IdempotencyKey cmd) = Inr (c_repo c1) \<and>
        c_published c1 = c_published (w_core w) @ [o_events ord] \<and>
        (if o_status ord = StatusAccepted
         then snd (route env (w_retry w) (ord\<lparr>o_events := []\<rparr>) (w_venue w, c1)) = (w_venue w', c2)
         else w_venue w' = w_venue w \<and> c2 = c1) \<and>
        c_repo (w_core w') = c_repo c2 \<and> c_published (w_core w') = c_published c2)"

text \<open>The decision on a new order, from the verdict: its status, and the reason that is published.\<close>

definition decided :: "RiskDecision result \<Rightarrow> Order \<Rightarrow> bool" where
  "decided v ord \<longleftrightarrow>
     (if \<exists>d. v = Inr d \<and> Approved d then o_status ord = StatusAccepted
      else o_status ord = StatusRejected \<and>
        (\<exists>t. OrderRejected (o_id ord) t (case v of Inr d \<Rightarrow> Reason d | Inl _ \<Rightarrow> ''risk check unavailable'') \<in> set (o_events ord)))"

lemma decide_decided:
  assumes "o_status ord = StatusNew"
  shows "decided v (fst (decide v now ord))"
  using assms by (auto simp: decided_def decide_def order_op_defs canTransitionTo_iff split: sum.split)

lemma verdict_Inr: "verdict env tick cb ord = Inr d \<Longrightarrow> Check env ord = Inr d"
  by (auto simp: verdict_def split: if_splits option.splits)

lemma place_new_outcome:
  "case place_new env cmd w of
     (Inl e, w') \<Rightarrow> c_repo (w_core w') = c_repo (w_core w) \<and> c_published (w_core w') = c_published (w_core w) \<and>
       w_venue w' = w_venue w
   | (Inr r, w') \<Rightarrow> \<exists>ord. placed env cmd w ord r w' \<and> requested cmd ord \<and>
       decided (verdict env (c_tick (w_core w) + 2) (w_breaker w) (as_placed ord)) ord"
proof (cases rule: place_new_cases [of env cmd w])
  case (saved symb side ot tif px q ord0 res now ord c c')
  let ?w' = "snd (place_new env cmd w)"
  note d = decide_new [OF saved(1), of res now, folded saved(2)]
  have a: "as_placed ord = ord0" using order_rel_as_placed [OF d(5)] NewOrder_as_placed [OF saved(1)] by simp
  have q: "requested cmd ord" using build_requested [OF saved(4)] d(5) by (simp add: requested_def order_rel_def)
  have v: "decided (verdict env (c_tick (w_core w) + 2) (w_breaker w) (as_placed ord)) ord"
    unfolding a saved(3) [symmetric] unfolding saved(2) by (rule decide_decided [OF NewOrder_fresh(2) [OF saved(1)]])
  have "\<exists>d. Check env (as_placed ord) = Inr d \<and> Approved d" if "o_status ord = StatusAccepted"
    using that v verdict_Inr by (fastforce simp: decided_def split: if_splits)
  moreover have "o_status ord \<in> {StatusAccepted, StatusRejected}" using d(4) by (auto split: sum.splits)
  moreover have "if o_status ord = StatusAccepted
      then snd (route env (w_retry w) (ord\<lparr>o_events := []\<rparr>) (w_venue w, c)) = (w_venue ?w', c')
      else w_venue ?w' = w_venue w \<and> c' = c" using saved(10) by (simp split: if_splits)
  ultimately have "placed env cmd w ord \<lparr>pr_OrderID = o_id ord, pr_Status = o_status ord, pr_Idempotent = False\<rparr> ?w'"
    using d(1,2) saved(6,8,11) unfolding placed_def silent_def by blast
  then show ?thesis using saved(5) q v by (auto simp: case_prod_unfold)
qed (simp_all add: case_prod_unfold silent_def)

end
