(* ===== verification/Service_Runs.thy ===== *)
theory Service_Runs
  imports Service_Log
begin

section \<open>Sequences of service calls\<close>

text \<open>
  The service as a machine over its commands, and what holds after any sequence of them: the log of
  published events is faithful, a key is applied once, nothing unapproved is routed, and the
  handlers of single orders refine the methods of the aggregate. The machine is an instance of
  \<open>related_machine\<close>; the properties rest on the facts of that interpretation.
\<close>

subsection \<open>A placement keeps the log\<close>

text \<open>
  One placement, from the outcome of \<open>place_new\<close>: the order is saved under a fresh key, published,
  and routed only if it was accepted, so that what the venue sees is an approved, stored order.
\<close>

definition fresh_key :: "PlaceOrderCommand \<Rightarrow> Core \<Rightarrow> bool" where
  "fresh_key cmd c \<longleftrightarrow> pc_IdempotencyKey cmd = [] \<or> FindByIdempotencyKey (c_repo c) (pc_IdempotencyKey cmd) = None"

lemma core_ok_repo: "core_ok c \<Longrightarrow> repo_inv (c_repo c)"
  by (simp add: core_ok_def log_ok_def)

text \<open>What the log says about reads.\<close>

lemma core_ok_Get:
  assumes "core_ok c"
  shows "Get (c_repo c) i = Inr ord \<Longrightarrow> o_id ord = i \<and> order_inv ord \<and>
      replay (events_of i (concat (c_published c))) = Some (Snapshot ord)"
    "Get (c_repo c) i = Inl e \<Longrightarrow> e = ErrNotFound \<and> events_of i (concat (c_published c)) = []"
proof -
  have e: "entry_ok (concat (c_published c)) i (repo_map (c_repo c) i)" using assms by (simp add: core_ok_def log_ok_def)
  note g = mem.get_eq [OF core_ok_repo [OF assms], of i]
  show "o_id ord = i \<and> order_inv ord \<and> replay (events_of i (concat (c_published c))) = Some (Snapshot ord)"
    if "Get (c_repo c) i = Inr ord"
    using that Get_stored [OF core_ok_repo [OF assms] that] e by (simp add: entry_ok_def)
  show "e = ErrNotFound \<and> events_of i (concat (c_published c)) = []" if "Get (c_repo c) i = Inl e"
    using that e g by (auto simp: entry_ok_def split: option.splits)
qed

lemma published_stored:
  assumes "core_ok c" "e \<in> set (concat (c_published c))"
  shows "\<exists>ord. Get (c_repo c) (AggregateID e) = Inr ord"
proof (cases "Get (c_repo c) (AggregateID e)")
  case (Inl x)
  then have "events_of (AggregateID e) (concat (c_published c)) = []" by (rule core_ok_Get(2) [OF assms(1), THEN conjunct2])
  then show ?thesis using assms(2) unfolding events_of_def filter_empty_conv by blast
qed simp

text \<open>An order stays as it was placed while the log grows.\<close>

lemma stored_as_placed:
  assumes "core_ok c" "core_ok c'" "prefix (c_published c) (c_published c')" "Get (c_repo c) i = Inr ord"
  shows "\<exists>ord'. Get (c_repo c') i = Inr ord' \<and> as_placed ord' = as_placed ord"
proof -
  let ?es = "\<lambda>c. events_of i (concat (c_published c))"
  note g = core_ok_Get(1) [OF assms(1,4)]
  obtain fs where f: "?es c' = ?es c @ fs" using assms(3) by (auto simp: prefix_def)
  have "?es c \<noteq> []" using g by auto
  then obtain ord' where o: "Get (c_repo c') i = Inr ord'"
    using core_ok_Get(2) [OF assms(2), of i] f by (cases "Get (c_repo c') i") auto
  have "replay (?es c @ fs) = Some (Snapshot ord')" using core_ok_Get(1) [OF assms(2) o] f by simp
  with replay_as_placed [of "?es c"] g o show ?thesis by fastforce
qed

lemma FindByIdempotencyKey_keys: "core_ok c \<Longrightarrow> FindByIdempotencyKey (c_repo c) k = keys c k"
  using mem.find_eq [OF core_ok_repo] by (simp add: keys_def)

lemma saved_evolves:
  assumes "Save (c_repo c) ord (pc_IdempotencyKey cmd) = Inr (c_repo c')"
    and "c_published c' = c_published c @ [o_events ord]" "sourced ord" "own_events ord" "fresh_key cmd c"
  shows "evolves c c'"
proof -
  have "core_ok c' \<and> keys c \<subseteq>\<^sub>m keys c'" if ok: "core_ok c"
  proof
    show "core_ok c'"
      using log_ok_save [OF _ assms(1), of "concat (c_published c)"] ok assms(2-4)
      by (simp add: core_ok_def own_events_def)
    show "keys c \<subseteq>\<^sub>m keys c'"
      using mem.save_Inr(4) [OF core_ok_repo [OF ok] assms(1)] assms(5) FindByIdempotencyKey_keys [OF ok]
      by (auto simp: keys_def fresh_key_def map_le_def split: if_splits)
  qed
  with assms(2) show ?thesis by (simp add: evolves_def)
qed

lemma placed_evolves:
  assumes "placed env cmd w ord r w'" "fresh_key cmd (w_core w)" "venue_ok (w_venue w)"
  shows "evolves (w_core w) (w_core w')" "venue_ok (w_venue w')"
    "\<exists>k. v_routed (w_venue w') = v_routed (w_venue w) @ replicate k (o_id ord) \<and>
       k \<le> nat (sint (MaxAttempts (w_retry w))) \<and> ((\<forall>n. route_timeout env n = None) \<longrightarrow> k \<le> 1)"
    "o_status ord \<noteq> StatusAccepted \<Longrightarrow> w_venue w' = w_venue w \<and>
       Save (c_repo (w_core w)) ord (pc_IdempotencyKey cmd) = Inr (c_repo (w_core w'))"
    "\<exists>c1. evolves c1 (w_core w') \<and> Save (c_repo (w_core w)) ord (pc_IdempotencyKey cmd) = Inr (c_repo c1) \<and>
       c_published c1 = c_published (w_core w) @ [o_events ord] \<and> evolves (w_core w) c1"
proof -
  obtain c1 c2 where s: "Save (c_repo (w_core w)) ord (pc_IdempotencyKey cmd) = Inr (c_repo c1)"
    "c_published c1 = c_published (w_core w) @ [o_events ord]"
    and v: "if o_status ord = StatusAccepted
         then snd (route env (w_retry w) (ord\<lparr>o_events := []\<rparr>) (w_venue w, c1)) = (w_venue w', c2)
         else w_venue w' = w_venue w \<and> c2 = c1"
    and c2: "c_repo (w_core w') = c_repo c2" "c_published (w_core w') = c_published c2"
    using assms(1) unfolding placed_def by blast
  have a: "evolves (w_core w) c1"
    using saved_evolves [OF s] assms(1,2) by (simp add: placed_def)
  have b: "evolves c1 c2 \<and> venue_ok (w_venue w') \<and>
      (\<exists>k. v_routed (w_venue w') = v_routed (w_venue w) @ replicate k (o_id ord) \<and>
        k \<le> nat (sint (MaxAttempts (w_retry w))) \<and> ((\<forall>n. route_timeout env n = None) \<longrightarrow> k \<le> 1))"
  proof (cases "o_status ord = StatusAccepted")
    case True
    let ?r = "route env (w_retry w) (ord\<lparr>o_events := []\<rparr>) (w_venue w, c1)"
    have k: "filler_keeps evolves (w_venue w)" using assms(3) by (simp add: venue_ok_def)
    note rk = ev.route_keeps [OF k, where env = env and p = "w_retry w" and ord = "ord\<lparr>o_events := []\<rparr>" and c = c1]
    have e: "snd ?r = (w_venue w', c2)" using v True by simp
    have "evolves c1 c2" "v_filler (w_venue w') = v_filler (w_venue w)" using rk by (simp_all add: e)
    moreover from this(2) have "venue_ok (w_venue w')" using k filler_keeps_cong unfolding venue_ok_def by blast
    moreover note route_appends [where env = env and p = "w_retry w" and ord = "ord\<lparr>o_events := []\<rparr>" and v = "w_venue w" and c = c1]
    ultimately show ?thesis by (simp add: e)
  next
    case False
    then show ?thesis using v assms(3) by (auto intro: exI [of _ 0])
  qed
  have c: "evolves c2 (w_core w')" by (rule evolves_same) (fact c2)+
  show "evolves (w_core w) (w_core w')" using a b c evolves_trans by blast
  show "venue_ok (w_venue w')" "\<exists>k. v_routed (w_venue w') = v_routed (w_venue w) @ replicate k (o_id ord) \<and>
      k \<le> nat (sint (MaxAttempts (w_retry w))) \<and> ((\<forall>n. route_timeout env n = None) \<longrightarrow> k \<le> 1)"
    using b by blast+
  show "o_status ord \<noteq> StatusAccepted \<Longrightarrow> w_venue w' = w_venue w \<and>
       Save (c_repo (w_core w)) ord (pc_IdempotencyKey cmd) = Inr (c_repo (w_core w'))"
    using v s(1) c2(1) by simp
  show "\<exists>c1. evolves c1 (w_core w') \<and> Save (c_repo (w_core w)) ord (pc_IdempotencyKey cmd) = Inr (c_repo c1) \<and>
       c_published c1 = c_published (w_core w) @ [o_events ord] \<and> evolves (w_core w) c1"
    using s a b evolves_trans [OF _ c] by blast
qed

text \<open>
  The three ways a \<open>PlaceOrder\<close> call ends: refused (nothing stored, published or routed), answered
  from the idempotency index, or a new order.
\<close>

definition quiet :: "World \<Rightarrow> World \<Rightarrow> bool" where
  "quiet w w' \<longleftrightarrow> c_repo (w_core w') = c_repo (w_core w) \<and> c_published (w_core w') = c_published (w_core w) \<and>
     w_venue w' = w_venue w"

lemma quiet_evolves: "quiet w w' \<Longrightarrow> evolves (w_core w) (w_core w')"
  by (auto simp: quiet_def intro: evolves_same)

lemma quiet_trans: "quiet u v \<Longrightarrow> quiet v w \<Longrightarrow> quiet u w"
  by (simp add: quiet_def)

lemma observe_latency_sel [simp]:
  "c_repo (w_core (observe_latency env t w)) = c_repo (w_core w)"
  "c_published (w_core (observe_latency env t w)) = c_published (w_core w)"
  "w_venue (observe_latency env t w) = w_venue w"
  by (simp_all add: observe_latency_def Let_def case_prod_unfold)

lemma placed_frame:
  assumes "placed env cmd w ord r w'" "quiet u w" "w_retry u = w_retry w" "quiet w' x"
  shows "placed env cmd u ord r x"
proof -
  have e: "c_repo (w_core u) = c_repo (w_core w)" "c_published (w_core u) = c_published (w_core w)" "w_venue u = w_venue w"
    "c_repo (w_core x) = c_repo (w_core w')" "c_published (w_core x) = c_published (w_core w')" "w_venue x = w_venue w'"
    using assms(2,4) by (simp_all add: quiet_def)
  show ?thesis using assms(1) unfolding placed_def assms(3) e .
qed

lemma PlaceOrder_cases:
  obtains (refused) e where "fst (PlaceOrder env cmd w) = Inl e" "quiet w (snd (PlaceOrder env cmd w))"
      "e = ErrRateLimited \<or> fresh_key cmd (w_core w)"
  | (known) i where "pc_IdempotencyKey cmd \<noteq> []" "FindByIdempotencyKey (c_repo (w_core w)) (pc_IdempotencyKey cmd) = Some i"
      "fst (PlaceOrder env cmd w) = Inr \<lparr>pr_OrderID = i, pr_Status = [], pr_Idempotent = True\<rparr>"
      "quiet w (snd (PlaceOrder env cmd w))"
  | (new) ord r where "fresh_key cmd (w_core w)" "fst (PlaceOrder env cmd w) = Inr r"
      "placed env cmd w ord r (snd (PlaceOrder env cmd w))" "requested cmd ord"
      "decided (verdict env (c_tick (w_core w) + 4) (w_breaker w) (as_placed ord)) ord"
proof -
  let ?start = "Clock_Now env (c_tick (w_core w))"
  let ?c = "snd (ask (sys_now env) (snd (ask (Clock_Now env) (w_core w))))"
  let ?a = "Allow (sys_now env (c_tick (snd (ask (Clock_Now env) (w_core w))))) (w_limiter w)"
  let ?w = "w\<lparr>w_core := ?c, w_limiter := snd ?a\<rparr>"
  let ?k = "if pc_IdempotencyKey cmd \<noteq> [] then FindByIdempotencyKey (c_repo (w_core w)) (pc_IdempotencyKey cmd) else None"
  have q: "quiet w ?w" by (simp add: quiet_def)
  have o: "quiet x (observe_latency env ?start x)" for x by (simp add: quiet_def)
  consider "\<not> fst ?a" | i where "fst ?a" "?k = Some i" | "fst ?a" "?k = None" by (cases ?k) auto
  then show thesis
  proof cases
    case 1
    then have "PlaceOrder env cmd w = (Inl ErrRateLimited, observe_latency env ?start ?w)"
      by (simp add: PlaceOrder_def Let_def case_prod_unfold)
    then show ?thesis using refused quiet_trans [OF q o] by simp
  next
    case (2 i)
    then have "PlaceOrder env cmd w =
        (Inr \<lparr>pr_OrderID = i, pr_Status = [], pr_Idempotent = True\<rparr>, observe_latency env ?start ?w)"
      by (simp add: PlaceOrder_def Let_def case_prod_unfold split: if_splits)
    then show ?thesis using 2(2) known quiet_trans [OF q o] by (simp split: if_splits)
  next
    case 3
    then have p: "PlaceOrder env cmd w =
        (fst (place_new env cmd ?w), observe_latency env ?start (snd (place_new env cmd ?w)))"
      by (simp add: PlaceOrder_def Let_def case_prod_unfold split: if_splits)
    have f: "fresh_key cmd (w_core w)" using 3(2) by (auto simp: fresh_key_def split: if_splits)
    show ?thesis
    proof (cases "fst (place_new env cmd ?w)")
      case (Inl e)
      then have "quiet ?w (snd (place_new env cmd ?w))"
        using place_new_outcome [where env = env and cmd = cmd and w = ?w] by (simp add: case_prod_unfold quiet_def)
      then show ?thesis using refused p Inl f quiet_trans [OF q quiet_trans [OF _ o]] by simp
    next
      case (Inr r)
      then obtain ord where a: "placed env cmd ?w ord r (snd (place_new env cmd ?w))" "requested cmd ord"
        "decided (verdict env (c_tick (w_core ?w) + 2) (w_breaker ?w) (as_placed ord)) ord"
        using place_new_outcome [where env = env and cmd = cmd and w = ?w] by (auto simp: case_prod_unfold)
      have "placed env cmd w ord r (snd (PlaceOrder env cmd w))"
        unfolding p snd_conv by (rule placed_frame [OF a(1) q _ o]) simp
      then show ?thesis using new [OF f, of r ord] p Inr a(2,3) by (simp add: numeral_eq_Suc)
    qed
  qed
qed


subsection \<open>Sequences of calls\<close>

text \<open>
  The commands of the service as a machine: a call always returns, and its effect is the new
  world, whatever it answers. \<open>report_fill\<close> is the callback that reports an execution of the venue
  back through \<open>ApplyFill\<close>.
\<close>

datatype svc_cmd =
  SPlace PlaceOrderCommand
| SCancel CancelOrderCommand
| SFill ApplyFillCommand
| SBreaker

fun svc_step :: "Env \<Rightarrow> World \<Rightarrow> svc_cmd \<Rightarrow> World" where
  "svc_step env w (SPlace cmd) = snd (PlaceOrder env cmd w)"
| "svc_step env w (SCancel cmd) = w\<lparr>w_core := snd (CancelOrder env cmd (w_core w))\<rparr>"
| "svc_step env w (SFill cmd) = w\<lparr>w_core := snd (ApplyFill env cmd (w_core w))\<rparr>"
| "svc_step env w SBreaker = snd (BreakerState env w)"

definition svc_exec :: "Env \<Rightarrow> World \<Rightarrow> svc_cmd \<Rightarrow> World result" where
  "svc_exec env w cmd = Inr (svc_step env w cmd)"

definition report_fill :: "Env \<Rightarrow> Core Filler" where
  "report_fill env i q px c =
     snd (ApplyFill env \<lparr>fc_OrderID = i, fc_Quantity = Quantity_String q, fc_Price = Money_String px\<rparr> c)"

text \<open>
  The invariant of the world: the log is faithful, the venue's callback keeps it so, and every order
  the venue has seen is stored, was approved by the risk gate as it was placed, and was published as
  accepted. The relation between the worlds before and after a call: keys, published batches and
  routed orders are only added to.
\<close>

definition approved :: "Env \<Rightarrow> Core \<Rightarrow> string \<Rightarrow> bool" where
  "approved env c i \<longleftrightarrow>
     (\<exists>ord d. Get (c_repo c) i = Inr ord \<and> Check env (as_placed ord) = Inr d \<and> Approved d) \<and>
     (\<exists>t. OrderAccepted i t \<in> set (concat (c_published c)))"

definition world_ok :: "Env \<Rightarrow> World \<Rightarrow> bool" where
  "world_ok env w \<longleftrightarrow>
     core_ok (w_core w) \<and> venue_ok (w_venue w) \<and> (\<forall>i \<in> set (v_routed (w_venue w)). approved env (w_core w) i)"

definition world_rel :: "World \<Rightarrow> World \<Rightarrow> bool" where
  "world_rel w w' \<longleftrightarrow>
     keys (w_core w) \<subseteq>\<^sub>m keys (w_core w') \<and> prefix (c_published (w_core w)) (c_published (w_core w')) \<and>
     prefix (v_routed (w_venue w)) (v_routed (w_venue w'))"

lemma set_concat_prefix: "prefix ess fss \<Longrightarrow> set (concat ess) \<subseteq> set (concat fss)"
  by (auto simp: prefix_def)

lemma approved_mono:
  assumes "approved env c i" "core_ok c" "core_ok c'" "prefix (c_published c) (c_published c')"
  shows "approved env c' i"
proof -
  obtain ord d where "Get (c_repo c) i = Inr ord" "Check env (as_placed ord) = Inr d" "Approved d"
    using assms(1) unfolding approved_def by blast
  moreover from stored_as_placed [OF assms(2,3,4) this(1)] obtain ord'
    where "Get (c_repo c') i = Inr ord'" "as_placed ord' = as_placed ord" by blast
  ultimately show ?thesis using assms(1) set_concat_prefix [OF assms(4)] unfolding approved_def by fastforce
qed

lemma replay_accepted:
  assumes "replay es = Some s" "s_Status s = StatusAccepted"
  shows "\<exists>i t. OrderAccepted i t \<in> set es"
proof (cases es rule: rev_cases)
  case (snoc es' e)
  have "replay (es' @ [e]) = Some s" using assms(1) snoc by simp
  then obtain x where "apply_event x e = Some s"
    using replay_prefix [of es' e] replay_snoc [of es' _ e] replay_single [of e] by fastforce
  then have "\<exists>i t. e = OrderAccepted i t"
    by (cases "(x, e)" rule: apply_event.cases) (use assms(2) in \<open>auto simp: after_def split: if_splits\<close>)
  then show ?thesis using snoc by auto
qed (use assms(1) in simp)

lemma accepted_event:
  assumes "placed env cmd w ord r w'" "o_status ord = StatusAccepted"
  shows "\<exists>t. OrderAccepted (o_id ord) t \<in> set (o_events ord)"
proof -
  have "replay (o_events ord) = Some (Snapshot ord)" "\<forall>e \<in> set (o_events ord). AggregateID e = o_id ord"
    using assms(1) by (simp_all add: placed_def sourced_def own_events_def)
  with replay_accepted [of "o_events ord" "Snapshot ord"] assms(2) show ?thesis
    by (fastforce simp: AggregateID_def)
qed

lemma world_step:
  assumes "world_ok env w" "evolves (w_core w) (w_core w')" "venue_ok (w_venue w')"
    and "v_routed (w_venue w') = v_routed (w_venue w) @ xs" "\<forall>i \<in> set xs. approved env (w_core w') i"
  shows "world_ok env w' \<and> world_rel w w'"
proof -
  have c: "core_ok (w_core w)" "core_ok (w_core w')" and "keys (w_core w) \<subseteq>\<^sub>m keys (w_core w')"
    and p: "prefix (c_published (w_core w)) (c_published (w_core w'))"
    using assms(1,2) by (simp_all add: world_ok_def evolves_def)
  moreover have "\<forall>i \<in> set (v_routed (w_venue w')). approved env (w_core w') i"
    using assms(1,4,5) approved_mono [OF _ c p] by (auto simp: world_ok_def)
  ultimately show ?thesis using c assms(3,4) by (simp add: world_ok_def world_rel_def)
qed

lemma world_core_step:
  "world_ok env w \<Longrightarrow> evolves (w_core w) (w_core w') \<Longrightarrow> w_venue w' = w_venue w \<Longrightarrow> world_ok env w' \<and> world_rel w w'"
  using world_step [of env w w' "[]"] by (simp add: world_ok_def)

lemma PlaceOrder_step:
  assumes ok: "world_ok env w"
  shows "world_ok env (snd (PlaceOrder env cmd w)) \<and> world_rel w (snd (PlaceOrder env cmd w))"
proof (cases rule: PlaceOrder_cases [of env cmd w])
  case (refused e)
  then show ?thesis using world_core_step [OF ok quiet_evolves] by (simp add: quiet_def)
next
  case (known i)
  then show ?thesis using world_core_step [OF ok quiet_evolves] by (simp add: quiet_def)
next
  case (new ord r)
  let ?w' = "snd (PlaceOrder env cmd w)"
  have v: "venue_ok (w_venue w)" and c: "core_ok (w_core w)" using ok by (simp_all add: world_ok_def)
  note p = placed_evolves [OF new(3,1) v]
  obtain c1 where c1: "evolves c1 (w_core ?w')" "c_published c1 = c_published (w_core w) @ [o_events ord]"
    "evolves (w_core w) c1" and sv: "Save (c_repo (w_core w)) ord (pc_IdempotencyKey cmd) = Inr (c_repo c1)"
    using p(5) by blast
  obtain xs where xs: "set xs \<subseteq> {o_id ord}" "v_routed (w_venue ?w') = v_routed (w_venue w) @ xs"
    using p(3) by (metis set_replicate_conv_if empty_subsetI subset_refl)
  have "approved env (w_core ?w') i" if "i \<in> set xs" for i
  proof -
    have acc: "o_status ord = StatusAccepted" using p(4) that xs(2) by fastforce
    have g: "core_ok c1" "core_ok (w_core ?w')" "prefix (c_published c1) (c_published (w_core ?w'))"
      using c c1 by (simp_all add: evolves_def)
    then have "set (o_events ord) \<subseteq> set (concat (c_published (w_core ?w')))"
      using set_concat_prefix [of "c_published c1"] c1(2) by simp
    then have "\<exists>t. OrderAccepted (o_id ord) t \<in> set (concat (c_published (w_core ?w')))"
      using accepted_event [OF new(3) acc] by blast
    moreover have "\<exists>ord'. Get (c_repo (w_core ?w')) (o_id ord) = Inr ord' \<and> as_placed ord' = as_placed ord"
      using stored_as_placed [OF g mem.get_after_save [OF core_ok_repo [OF c] sv]] by simp
    moreover have "\<exists>d. Check env (as_placed ord) = Inr d \<and> Approved d" using new(3) acc unfolding placed_def by blast
    ultimately show ?thesis using that xs(1) unfolding approved_def by fastforce
  qed
  then show ?thesis using world_step [OF ok p(1,2) xs(2)] by blast
qed

lemma svc_step_ok: "world_ok env w \<Longrightarrow> world_ok env (svc_step env w cmd) \<and> world_rel w (svc_step env w cmd)"
proof (cases cmd)
  case SBreaker
  assume ok: "world_ok env w"
  show ?thesis unfolding SBreaker
    by (rule world_core_step [OF ok]) (auto simp: BreakerState_def Let_def case_prod_unfold intro: evolves_same)
qed (auto simp: PlaceOrder_step CancelOrder_evolves ApplyFill_evolves intro: world_core_step [THEN conjunct1] world_core_step [THEN conjunct2])

interpretation svc: related_machine "svc_exec env" "world_ok env" world_rel for env
proof
  show "world_ok env s \<Longrightarrow> svc_exec env s c = Inr s' \<Longrightarrow> world_ok env s'" for s c s'
    using svc_step_ok by (auto simp: svc_exec_def)
  show "world_ok env s \<Longrightarrow> svc_exec env s c = Inr s' \<Longrightarrow> world_rel s s'" for s c s'
    using svc_step_ok by (auto simp: svc_exec_def)
  show "world_rel s t \<Longrightarrow> world_rel t u \<Longrightarrow> world_rel s u" for s t u
    unfolding world_rel_def by (blast intro: map_le_trans prefix_order.trans)
qed (simp add: world_rel_def)

lemma report_fill_evolves: "evolves c (report_fill env i q px c)"
  unfolding report_fill_def by (rule ApplyFill_evolves)

definition wired :: "Env \<Rightarrow> Core SimulatedVenue \<Rightarrow> bool" where
  "wired env v \<longleftrightarrow> v_routed v = [] \<and> (v_filler v = None \<or> v_filler v = Some (report_fill env))"

lemma NewService_ok:
  assumes "NewOrderRepository m n = Some (Inr repo)" "wired env venue"
  shows "world_ok env (NewService cfg now repo venue)"
proof -
  have "repo_inv repo" "\<forall>i. repo_map repo i = None" "idem repo = []" using NewOrderRepository_inv [OF assms(1)]
    by simp_all
  then have "core_ok (w_core (NewService cfg now repo venue))"
    by (simp add: NewService_def core_ok_def log_ok_def entry_ok_def events_of_def)
  moreover have "venue_ok venue" using assms(2) report_fill_evolves by (auto simp: wired_def venue_ok_def filler_keeps_def)
  ultimately show ?thesis using assms(2) by (simp add: world_ok_def wired_def NewService_def)
qed


text \<open>The worlds that calls can lead to.\<close>

definition svc_reachable :: "Env \<Rightarrow> World \<Rightarrow> bool" where
  "svc_reachable env w \<longleftrightarrow>
     (\<exists>m n repo venue cfg now cmds. NewOrderRepository m n = Some (Inr repo) \<and> wired env venue \<and>
        w = run_cmds (svc_exec env) (NewService cfg now repo venue) cmds)"

lemma reachable_ok: "svc_reachable env w \<Longrightarrow> world_ok env w"
  unfolding svc_reachable_def using NewService_ok svc.run_inv by blast

lemma reachable_run: "svc_reachable env w \<Longrightarrow> svc_reachable env (run_cmds (svc_exec env) w cmds)"
  unfolding svc_reachable_def by (metis run_cmds_append)

lemma run_step: "run_cmds (svc_exec env) w [cmd] = svc_step env w cmd"
  by (simp add: run_cmd_def svc_exec_def)

lemma world_core: "world_ok env w \<Longrightarrow> core_ok (w_core w)"
  by (simp add: world_ok_def)

text \<open>A new placement, as its caller sees it.\<close>

lemma placement_outcome:
  assumes "world_ok env w" "PlaceOrder env cmd w = (Inr r, w')" "\<not> pr_Idempotent r"
  obtains ord where "placed env cmd w ord r w'" "fresh_key cmd (w_core w)"
    "pr_OrderID r = o_id ord" "pr_Status r = o_status ord"
    "Get (c_repo (w_core w)) (o_id ord) = Inl ErrNotFound"
    "set (o_events ord) \<subseteq> set (concat (c_published (w_core w')))" "o_events ord \<noteq> []" "own_events ord"
    "pc_IdempotencyKey cmd \<noteq> [] \<longrightarrow> keys (w_core w') (pc_IdempotencyKey cmd) = Some (o_id ord)"
    "requested cmd ord" "decided (verdict env (c_tick (w_core w) + 4) (w_breaker w) (as_placed ord)) ord"
    "\<exists>ord'. Get (c_repo (w_core w')) (o_id ord) = Inr ord' \<and> as_placed ord' = as_placed ord"
proof -
  have c: "core_ok (w_core w)" and v: "venue_ok (w_venue w)" using assms(1) by (simp_all add: world_ok_def)
  obtain ord where f: "fresh_key cmd (w_core w)" and p: "placed env cmd w ord r w'" and q: "requested cmd ord"
    and v0: "decided (verdict env (c_tick (w_core w) + 4) (w_breaker w) (as_placed ord)) ord"
    by (rule PlaceOrder_cases [of env cmd w]) (use assms(2,3) in auto)
  obtain c1 where c1: "evolves c1 (w_core w')" "evolves (w_core w) c1"
    "Save (c_repo (w_core w)) ord (pc_IdempotencyKey cmd) = Inr (c_repo c1)"
    "c_published c1 = c_published (w_core w) @ [o_events ord]"
    using placed_evolves(5) [OF p f v] by blast
  note sv = mem.save_Inr [OF core_ok_repo [OF c] c1(3)]
  have k: "keys c1 \<subseteq>\<^sub>m keys (w_core w')" "prefix (c_published c1) (c_published (w_core w'))"
    using c1(1,2) c by (simp_all add: evolves_def)
  have "o_events ord \<noteq> []" using p by (auto simp: placed_def sourced_def)
  moreover have "set (o_events ord) \<subseteq> set (concat (c_published (w_core w')))"
    using set_concat_prefix [OF k(2)] c1(4) by simp
  moreover have "Get (c_repo (w_core w)) (o_id ord) = Inl ErrNotFound"
    using mem.get_eq [OF core_ok_repo [OF c], of "o_id ord"] sv(1) by simp
  moreover have "keys (w_core w') (pc_IdempotencyKey cmd) = Some (o_id ord)" if "pc_IdempotencyKey cmd \<noteq> []"
    using sv(4) that k(1) by (simp add: keys_def map_le_def)
  moreover have "\<exists>ord'. Get (c_repo (w_core w')) (o_id ord) = Inr ord' \<and> as_placed ord' = as_placed ord"
  proof -
    have "core_ok c1" "core_ok (w_core w')" using c c1(1,2) by (simp_all add: evolves_def)
    from stored_as_placed [OF this k(2) mem.get_after_save [OF core_ok_repo [OF c] c1(3)]] show ?thesis by simp
  qed
  ultimately show thesis using that [OF p f] p q v0 by (simp add: placed_def)
qed

text \<open>A key that was used is known for good.\<close>

lemma map_le_Some: "m \<subseteq>\<^sub>m n \<Longrightarrow> m k = Some v \<Longrightarrow> n k = Some v"
  by (metis domI map_le_def)

lemma placed_key:
  assumes "world_ok env w" "PlaceOrder env cmd w = (Inr r, w')" "pc_IdempotencyKey cmd \<noteq> []"
  shows "keys (w_core w') (pc_IdempotencyKey cmd) = Some (pr_OrderID r)"
proof (cases "pr_Idempotent r")
  case False
  show ?thesis by (rule placement_outcome [OF assms(1,2) False]) (use assms(3) in simp)
next
  case True
  have c: "core_ok (w_core w)" by (rule world_core [OF assms(1)])
  show ?thesis
  proof (cases rule: PlaceOrder_cases [of env cmd w])
    case (known i)
    moreover have "keys (w_core w') = keys (w_core w)"
      using known(4) assms(2) by (simp add: quiet_def keys_def)
    ultimately show ?thesis using assms(2) FindByIdempotencyKey_keys [OF c] by simp
  qed (use True assms(2) in \<open>simp_all add: placed_def\<close>)
qed

lemma known_key:
  assumes "core_ok (w_core w)" "keys (w_core w) (pc_IdempotencyKey cmd) = Some i" "pc_IdempotencyKey cmd \<noteq> []"
  shows "quiet w (snd (PlaceOrder env cmd w))" "fst (PlaceOrder env cmd w) = Inl ErrRateLimited \<or>
      fst (PlaceOrder env cmd w) = Inr \<lparr>pr_OrderID = i, pr_Status = [], pr_Idempotent = True\<rparr>"
  by (cases rule: PlaceOrder_cases [of env cmd w];
      use assms FindByIdempotencyKey_keys [OF assms(1)] in \<open>simp add: fresh_key_def\<close>)+

subsection \<open>Properties\<close>

text \<open>
  C1. The published events are a faithful log of the write side. After any sequence of calls of the
  service on a fresh repository, with any behaviour of clock, ids, timeouts, retries, risk gate and
  with or without executions reported by the venue: replaying the published events of a stored
  order gives exactly its stored snapshot, every stored order satisfies the order invariant, and
  nothing was published about an order that is not stored.
\<close>

theorem published_log_faithful:
  assumes "svc_reachable env w"
  shows "case Get (c_repo (w_core w)) i of
      Inr ord \<Rightarrow> o_id ord = i \<and> order_inv ord \<and>
        replay (events_of i (concat (c_published (w_core w)))) = Some (Snapshot ord)
    | Inl e \<Rightarrow> e = ErrNotFound \<and> events_of i (concat (c_published (w_core w))) = []"
  using core_ok_Get [OF world_core [OF reachable_ok [OF assms]], of i] by (simp split: sum.split)

text \<open>
  C9. Retried placements are applied once. After a successful \<open>PlaceOrder\<close> with an idempotency key
  and any further calls, another \<open>PlaceOrder\<close> with the same key, whatever else it asks for, either
  is refused by the rate limiter or answers with the id of the first order, marked as idempotent;
  in both cases nothing is stored, published or routed.
\<close>

theorem idempotent_placement:
  assumes "svc_reachable env w" "pc_IdempotencyKey cmd \<noteq> []" "pc_IdempotencyKey cmd' = pc_IdempotencyKey cmd"
    and "PlaceOrder env cmd w = (Inr r, w1)" "w2 = run_cmds (svc_exec env) w1 cmds"
    and "PlaceOrder env cmd' w2 = (res, w3)"
  shows "(res = Inl ErrRateLimited \<or>
      res = Inr \<lparr>pr_OrderID = pr_OrderID r, pr_Status = [], pr_Idempotent = True\<rparr>) \<and>
    c_repo (w_core w3) = c_repo (w_core w2) \<and> c_published (w_core w3) = c_published (w_core w2) \<and>
    w_venue w3 = w_venue w2"
proof -
  have ok: "world_ok env w" by (rule reachable_ok [OF assms(1)])
  have ok1: "world_ok env w1" using PlaceOrder_step [OF ok, of cmd] assms(4) by simp
  have ok2: "world_ok env w2" unfolding assms(5) by (rule svc.run_inv [OF ok1])
  have "keys (w_core w1) \<subseteq>\<^sub>m keys (w_core w2)"
    using svc.run_rel [OF ok1, of cmds] unfolding assms(5) world_rel_def by blast
  then have k: "keys (w_core w2) (pc_IdempotencyKey cmd') = Some (pr_OrderID r)"
    using map_le_Some placed_key [OF ok assms(4,2)] unfolding assms(3) by fast
  have "pc_IdempotencyKey cmd' \<noteq> []" using assms(2,3) by simp
  note q = known_key [OF world_core [OF ok2] k this, of env]
  from q show ?thesis unfolding assms(6) by (simp add: quiet_def)
qed

text \<open>
  C10. Placement fails closed. A placement that answers with a new order has stored it under an id
  that was free, with the account, symbol, side, type, policy, quantity and limit that were asked
  for. It is accepted if and only if the verdict of the risk check on this very order, as it was
  placed, is an approval; the verdict is an error if the breaker is open and still cooling down, or
  if the risk timeout expired, and otherwise what the gate answers. In all other cases it is stored
  as rejected, with the reason of the gate or the remark that the check was unavailable in the
  published event, and the venue is not called.
\<close>

theorem placement_fails_closed:
  assumes "svc_reachable env w" "PlaceOrder env cmd w = (Inr r, w')" "\<not> pr_Idempotent r"
  shows "Get (c_repo (w_core w)) (pr_OrderID r) = Inl ErrNotFound \<and>
    (\<exists>ord. Get (c_repo (w_core w')) (pr_OrderID r) = Inr ord \<and> requested cmd ord \<and>
      (let tick = c_tick (w_core w) + 4; cb = w_breaker w;
           cooling = (cb_state cb = StateOpen \<and> \<not> cooldown cb \<le>s time_Sub (Clock_Now env tick) (openedAt cb));
           verdict = (if cooling then Inl ErrCircuitOpen
             else (case risk_timeout env (tick + 1) of Some e \<Rightarrow> Inl e | None \<Rightarrow> Check env (as_placed ord)));
           approved = (case verdict of Inr d \<Rightarrow> Approved d | Inl _ \<Rightarrow> False);
           reason = (case verdict of Inr d \<Rightarrow> Reason d | Inl _ \<Rightarrow> ''risk check unavailable'')
       in pr_Status r = (if approved then StatusAccepted else StatusRejected) \<and>
         (approved \<or> w_venue w' = w_venue w \<and> o_status ord = StatusRejected \<and>
            (\<exists>t. OrderRejected (pr_OrderID r) t reason \<in> set (concat (c_published (w_core w')))))))"
proof -
  have ok: "world_ok env w" using reachable_ok [OF assms(1)] .
  obtain ord ord' where p: "placed env cmd w ord r w'" "fresh_key cmd (w_core w)"
    and r: "pr_OrderID r = o_id ord" "pr_Status r = o_status ord"
    and free: "Get (c_repo (w_core w)) (o_id ord) = Inl ErrNotFound"
    and ev: "set (o_events ord) \<subseteq> set (concat (c_published (w_core w')))"
    and q: "requested cmd ord" "decided (verdict env (c_tick (w_core w) + 4) (w_breaker w) (as_placed ord)) ord"
    and g: "Get (c_repo (w_core w')) (o_id ord) = Inr ord'" "as_placed ord' = as_placed ord"
    by (rule placement_outcome [OF ok assms(2,3)]) blast
  have v: "venue_ok (w_venue w)" and c: "core_ok (w_core w)" using ok by (simp_all add: world_ok_def)
  have rej: "w_venue w' = w_venue w \<and> o_status ord' = StatusRejected" if "o_status ord = StatusRejected"
    using placed_evolves(4) [OF p v] that mem.get_after_save [OF core_ok_repo [OF c]] g(1) by auto
  have "requested cmd (as_placed ord') = requested cmd ord'" "requested cmd (as_placed ord) = requested cmd ord"
    by (simp_all add: requested_def as_placed_def)
  then have "requested cmd ord'" using q(1) g(2) by simp
  moreover have "let v = verdict env (c_tick (w_core w) + 4) (w_breaker w) (as_placed ord');
      approved = (case v of Inr d \<Rightarrow> Approved d | Inl _ \<Rightarrow> False);
      reason = (case v of Inr d \<Rightarrow> Reason d | Inl _ \<Rightarrow> ''risk check unavailable'')
    in o_status ord = (if approved then StatusAccepted else StatusRejected) \<and>
      (approved \<or> w_venue w' = w_venue w \<and> o_status ord' = StatusRejected \<and>
        (\<exists>t. OrderRejected (o_id ord) t reason \<in> set (concat (c_published (w_core w')))))"
    unfolding g(2) Let_def using q(2) rej by (cases "verdict env (c_tick (w_core w) + 4) (w_breaker w) (as_placed ord)")
      (auto simp: decided_def simp del: set_concat dest: subsetD [OF ev] split: if_splits)
  ultimately show ?thesis using free g(1) unfolding r Let_def verdict_def by (intro conjI exI [of _ ord']) simp_all
qed

text \<open>
  C11. Only approved orders reach the venue: every order the venue has recorded is stored, the risk
  gate approves this very order as it was placed (with its account, symbol, side, type, policy,
  quantity, limit and time), and it was published as accepted.
\<close>

theorem only_approved_orders_routed:
  assumes "svc_reachable env w" "i \<in> set (v_routed (w_venue w))"
  shows "(\<exists>ord d. Get (c_repo (w_core w)) i = Inr ord \<and> Check env (as_placed ord) = Inr d \<and> Approved d) \<and>
    (\<exists>t. OrderAccepted i t \<in> set (concat (c_published (w_core w))))"
  using reachable_ok [OF assms(1)] assms(2) unfolding world_ok_def approved_def by blast

text \<open>The specification of a command that changes one stored order by one method of the aggregate.\<close>

definition changes_order :: "string \<Rightarrow> (Order \<Rightarrow> Order result) \<Rightarrow> Core \<Rightarrow> unit result \<times> Core \<Rightarrow> bool" where
  "changes_order i f c out \<longleftrightarrow>
     (let repo = c_repo (snd out); published = c_published (snd out);
          fails = (\<lambda>e. fst out = Inl e \<and> repo = c_repo c \<and> published = c_published c)
      in case repo_map (c_repo c) i of
           None \<Rightarrow> fails ErrNotFound
         | Some s \<Rightarrow>
             (case f (RehydrateOrder s) of
                Inl e \<Rightarrow> fails e
              | Inr ord \<Rightarrow> fst out = Inr () \<and> repo_map repo = (repo_map (c_repo c))(i \<mapsto> Snapshot ord) \<and>
                  map_of (idem repo) = map_of (idem (c_repo c)) \<and> published = c_published c @ [o_events ord]))"

lemma changes_order_intro:
  assumes "core_ok c" "\<And>ord ord'. f ord = Inr ord' \<Longrightarrow> \<exists>cmd. order_exec ord cmd = Inr ord'"
    and "\<And>e. Get (c_repo c) i = Inl e \<Longrightarrow> fst out = Inl e \<and> c_repo (snd out) = c_repo c \<and> c_published (snd out) = c_published c"
    and "\<And>ord e. Get (c_repo c) i = Inr ord \<Longrightarrow> f ord = Inl e \<Longrightarrow>
      fst out = Inl e \<and> c_repo (snd out) = c_repo c \<and> c_published (snd out) = c_published c"
    and "\<And>ord ord' r. Get (c_repo c) i = Inr ord \<Longrightarrow> f ord = Inr ord' \<Longrightarrow> Update (c_repo c) ord' (o_version ord) = Inr r \<Longrightarrow>
      fst out = Inr () \<and> c_repo (snd out) = r \<and> c_published (snd out) = c_published c @ [o_events ord']"
  shows "changes_order i f c out"
proof -
  have iv: "repo_inv (c_repo c)" by (rule core_ok_repo [OF assms(1)])
  note g = mem.get_eq [OF iv, of i]
  show ?thesis
  proof (cases "repo_map (c_repo c) i")
    case None
    then show ?thesis using assms(3) g by (simp add: changes_order_def)
  next
    case (Some s)
    then have get: "Get (c_repo c) i = Inr (RehydrateOrder s)" using g by simp
    show ?thesis
    proof (cases "f (RehydrateOrder s)")
      case (Inl e)
      then show ?thesis using assms(4) [OF get] Some by (simp add: changes_order_def)
    next
      case (Inr ord)
      have id: "o_id ord = i"
        using assms(2) [OF Inr] order_exec_step(1) Get_stored(2) [OF iv get] by fastforce
      then obtain r where u: "Update (c_repo c) ord (o_version (RehydrateOrder s)) = Inr r"
        using Update_after_Get [OF iv get, of ord] Get_stored(2) [OF iv get] by auto
      note m = mem.update_Inr [OF iv u]
      show ?thesis using assms(5) [OF get Inr u] Some Inr m(3,4) id by (simp add: changes_order_def)
    qed
  qed
qed

lemma CancelOrder_changes:
  assumes "core_ok c"
  shows "changes_order (cc_OrderID cmd) (\<lambda>ord. Cancel ord (Clock_Now env (c_tick c))) c (CancelOrder env cmd c)"
  by (rule changes_order_intro [OF assms])
    (auto simp: CancelOrder_def Let_def case_prod_unfold intro: exI [of _ "CCancel (Clock_Now env (c_tick c))"])

lemma ApplyFill_changes:
  assumes "core_ok c"
  shows "case bind_result (ParseQuantity (fc_Quantity cmd)) (\<lambda>q.
          bind_result (ParseMoney (fc_Price cmd)) (\<lambda>px. Inr (q, px))) of
       Inl e \<Rightarrow> ApplyFill env cmd c = (Inl e, c)
     | Inr (q, px) \<Rightarrow>
         changes_order (fc_OrderID cmd) (\<lambda>ord. Fill ord q px (Clock_Now env (c_tick c))) c (ApplyFill env cmd c)"
proof (cases "ParseQuantity (fc_Quantity cmd)")
  case q: (Inr q)
  show ?thesis
  proof (cases "ParseMoney (fc_Price cmd)")
    case px: (Inr px)
    have "changes_order (fc_OrderID cmd) (\<lambda>ord. Fill ord q px (Clock_Now env (c_tick c))) c (ApplyFill env cmd c)"
      by (rule changes_order_intro [OF assms])
        (auto simp: ApplyFill_def q px Let_def case_prod_unfold intro: exI [of _ "CFill q px (Clock_Now env (c_tick c))"])
    then show ?thesis by (simp add: q px)
  qed (simp add: q ApplyFill_def)
qed (simp add: ApplyFill_def)

text \<open>
  C15. Cancelling and filling refine the aggregate. In every reachable world \<open>CancelOrder\<close> and
  \<open>ApplyFill\<close> answer \<open>ErrNotFound\<close> for an unknown order and otherwise behave as \<open>Cancel\<close> and \<open>Fill\<close> of
  the stored order: the error of the method is returned and nothing changes, or exactly this order
  is replaced by the result and exactly its events are published. The optimistic version check
  never fails when calls do not overlap. A fill whose quantity or price does not parse changes
  nothing.
\<close>

theorem cancel_and_fill_refine_order:
  assumes "svc_reachable env w"
  shows "changes_order (cc_OrderID ccmd) (\<lambda>ord. Cancel ord (Clock_Now env (c_tick (w_core w)))) (w_core w)
      (CancelOrder env ccmd (w_core w)) \<and>
    (case bind_result (ParseQuantity (fc_Quantity fcmd)) (\<lambda>q.
          bind_result (ParseMoney (fc_Price fcmd)) (\<lambda>px. Inr (q, px))) of
       Inl e \<Rightarrow> ApplyFill env fcmd (w_core w) = (Inl e, w_core w)
     | Inr (q, px) \<Rightarrow>
         changes_order (fc_OrderID fcmd) (\<lambda>ord. Fill ord q px (Clock_Now env (c_tick (w_core w)))) (w_core w)
           (ApplyFill env fcmd (w_core w)))"
  using CancelOrder_changes ApplyFill_changes world_core [OF reachable_ok [OF assms]] by blast

text \<open>
  C21. A command that fails has no effect: when \<open>PlaceOrder\<close>, \<open>CancelOrder\<close> or \<open>ApplyFill\<close> returns an
  error, in any state whatsoever, no order is stored or changed, no event is published, no
  idempotency key is taken, and the venue is not called.
\<close>

theorem failed_commands_have_no_effect:
  shows "(is_ok (fst (PlaceOrder env pcmd w)) \<or>
      c_repo (w_core (snd (PlaceOrder env pcmd w))) = c_repo (w_core w) \<and>
      c_published (w_core (snd (PlaceOrder env pcmd w))) = c_published (w_core w) \<and>
      w_venue (snd (PlaceOrder env pcmd w)) = w_venue w) \<and>
    (is_ok (fst (CancelOrder env ccmd c)) \<or>
      c_repo (snd (CancelOrder env ccmd c)) = c_repo c \<and>
      c_published (snd (CancelOrder env ccmd c)) = c_published c) \<and>
    (is_ok (fst (ApplyFill env fcmd c)) \<or>
      c_repo (snd (ApplyFill env fcmd c)) = c_repo c \<and>
      c_published (snd (ApplyFill env fcmd c)) = c_published c)"
proof (intro conjI)
  show "is_ok (fst (PlaceOrder env pcmd w)) \<or>
      c_repo (w_core (snd (PlaceOrder env pcmd w))) = c_repo (w_core w) \<and>
      c_published (w_core (snd (PlaceOrder env pcmd w))) = c_published (w_core w) \<and>
      w_venue (snd (PlaceOrder env pcmd w)) = w_venue w"
    by (cases rule: PlaceOrder_cases [of env pcmd w]) (simp_all add: quiet_def)
qed (auto simp: CancelOrder_def ApplyFill_def Let_def case_prod_unfold split: sum.splits)

text \<open>
  A run for the witnesses: a buy of 10 shares, placed with a key on a venue that fails once and then
  fills the order through the callback.
\<close>

definition demo_env :: Env where
  "demo_env =
     \<lparr>Clock_Now = (\<lambda>n. int n), sys_now = (\<lambda>_. 0), NewID = (\<lambda>n. ''ord-'' @ replicate n (CHR ''x'')),
      Check = Heuristic_Check (NewHeuristicAnalyzer DefaultThresholds), risk_timeout = (\<lambda>_. None),
      route_timeout = (\<lambda>_. None), route_env = (\<lambda>_. sample_env)\<rparr>"

definition demo_cfg :: Config where
  "demo_cfg =
     \<lparr>RiskTimeout = Second, RouteTimeout = Second, RetryAttempts = 3, RetryBase = Millisecond, RetryMax = Second,
      RateLimitRPS = Fin 500, RateLimitBurst = 200, BreakerFailures = 5, BreakerCooldown = Second\<rparr>"

definition demo_venue :: "Core SimulatedVenue" where
  "demo_venue = FailNext 1 (SetAutofill True 1000000 (Some (report_fill demo_env)) NewSimulatedVenue)"

definition demo_start :: World where
  "demo_start = NewService demo_cfg 0 sample_repo demo_venue"

definition demo_buy :: PlaceOrderCommand where
  "demo_buy =
     \<lparr>pc_AccountID = ''acct-1'', pc_Symbol = ''aapl'', pc_Side = ''buy'', pc_OrderType = ''limit'', pc_TIF = ''day'',
      pc_Quantity = ''10'', pc_LimitPrice = ''150.00'', pc_IdempotencyKey = ''k1''\<rparr>"

definition demo_placed :: World where
  "demo_placed = snd (PlaceOrder demo_env demo_buy demo_start)"


lemma demo_result:
  "PlaceOrder demo_env demo_buy demo_start =
     (Inr \<lparr>pr_OrderID = ''ord-xx'', pr_Status = StatusAccepted, pr_Idempotent = False\<rparr>, demo_placed)"
proof -
  have "fst (PlaceOrder demo_env demo_buy demo_start) =
      Inr \<lparr>pr_OrderID = ''ord-xx'', pr_Status = StatusAccepted, pr_Idempotent = False\<rparr>" by code_simp
  then show ?thesis unfolding demo_placed_def by (metis prod.collapse)
qed

lemma demo_routed: "v_routed (w_venue demo_placed) = [''ord-xx'']"
  by code_simp

lemma demo_stored: "map_sum id o_status (Get (c_repo (w_core demo_placed)) ''ord-xx'') = Inr StatusFilled"
  by code_simp

lemma demo_start_reachable: "svc_reachable demo_env demo_start"
proof -
  have "wired demo_env demo_venue"
    by (simp add: wired_def demo_venue_def FailNext_def SetAutofill_def NewSimulatedVenue_def)
  with sample_repo show ?thesis unfolding svc_reachable_def demo_start_def
    by (metis run_cmds.simps(1))
qed

lemma demo_placed_reachable: "svc_reachable demo_env demo_placed"
  using reachable_run [OF demo_start_reachable, of "[SPlace demo_buy]"] by (simp add: run_step demo_placed_def del: run_cmds.simps)

theorem published_log_faithful_witness:
  "\<exists>ord. Get (c_repo (w_core demo_placed)) ''ord-xx'' = Inr ord \<and> o_status ord = StatusFilled \<and>
     replay (events_of ''ord-xx'' (concat (c_published (w_core demo_placed)))) = Some (Snapshot ord) \<and>
     Get (c_repo (w_core demo_placed)) ''other'' = Inl ErrNotFound \<and>
     events_of ''other'' (concat (c_published (w_core demo_placed))) = []"
proof -
  have "map_sum id o_status (Get (c_repo (w_core demo_placed)) ''other'') = Inl ErrNotFound" by code_simp
  then show ?thesis
    using published_log_faithful [OF demo_placed_reachable, of "''ord-xx''"] demo_stored
      published_log_faithful [OF demo_placed_reachable, of "''other''"]
    by (auto split: sum.splits)
qed

theorem idempotent_placement_witness:
  "fst (PlaceOrder demo_env (demo_buy\<lparr>pc_Quantity := ''99''\<rparr>) demo_placed) \<in>
     {Inl ErrRateLimited, Inr \<lparr>pr_OrderID = ''ord-xx'', pr_Status = [], pr_Idempotent = True\<rparr>} \<and>
   c_repo (w_core (snd (PlaceOrder demo_env (demo_buy\<lparr>pc_Quantity := ''99''\<rparr>) demo_placed))) = c_repo (w_core demo_placed)"
  using idempotent_placement [OF demo_start_reachable _ _ demo_result, of "demo_buy\<lparr>pc_Quantity := ''99''\<rparr>" _ "[]",
      OF _ _ refl prod.collapse [symmetric]]
  by (simp add: demo_buy_def)

theorem placement_fails_closed_witness:
  "Get (c_repo (w_core demo_start)) ''ord-xx'' = Inl ErrNotFound \<and>
   (\<exists>ord. Get (c_repo (w_core demo_placed)) ''ord-xx'' = Inr ord \<and> requested demo_buy ord)"
  using placement_fails_closed [OF demo_start_reachable demo_result] by auto

theorem only_approved_orders_routed_witness:
  "\<exists>ord d. Get (c_repo (w_core demo_placed)) ''ord-xx'' = Inr ord \<and> Check demo_env (as_placed ord) = Inr d \<and> Approved d"
  using only_approved_orders_routed [OF demo_placed_reachable, of "''ord-xx''"] demo_routed by simp

theorem cancel_and_fill_refine_order_witness:
  "changes_order ''ord-xx'' (\<lambda>ord. Cancel ord (Clock_Now demo_env (c_tick (w_core demo_placed)))) (w_core demo_placed)
     (CancelOrder demo_env \<lparr>cc_OrderID = ''ord-xx''\<rparr> (w_core demo_placed)) \<and>
   fst (CancelOrder demo_env \<lparr>cc_OrderID = ''ord-xx''\<rparr> (w_core demo_placed)) = Inl ErrInvalidTransition"
proof
  show "changes_order ''ord-xx'' (\<lambda>ord. Cancel ord (Clock_Now demo_env (c_tick (w_core demo_placed)))) (w_core demo_placed)
     (CancelOrder demo_env \<lparr>cc_OrderID = ''ord-xx''\<rparr> (w_core demo_placed))"
    using cancel_and_fill_refine_order [OF demo_placed_reachable, of "\<lparr>cc_OrderID = ''ord-xx''\<rparr>", THEN conjunct1] by simp
  show "fst (CancelOrder demo_env \<lparr>cc_OrderID = ''ord-xx''\<rparr> (w_core demo_placed)) = Inl ErrInvalidTransition"
    by code_simp
qed

end
