(* ===== verification/Read_Model.thy ===== *)
theory Read_Model
  imports Ports "HOL-Library.Multiset"
begin

section \<open>The position read model (internal/adapters/memory/readmodel.go)\<close>

text \<open>
  The projection of the event stream into positions. The nested Go maps are association lists
  with distinct keys; a \<open>*position\<close> is reached through its map only, so updating it in place is
  replacing the entry. Additions wrap as \<open>int64\<close> additions do. The order in which \<open>Positions\<close>
  enumerates the map is the argument \<open>shuffle\<close>.
\<close>

record orderMeta =
  m_account :: string
  m_symbol :: string
  m_side :: Side

record position =
  netQty :: Quantity
  totalCost :: Money
  totalAbs :: Quantity

record PositionReadModel =
  meta :: "(string \<times> orderMeta) list"
  byAccount :: "(string \<times> (string \<times> position) list) list"

definition NewPositionReadModel :: PositionReadModel where
  "NewPositionReadModel = \<lparr>meta = [], byAccount = []\<rparr>"

definition zero_position :: position where
  "zero_position = \<lparr>netQty = 0, totalCost = 0, totalAbs = 0\<rparr>"

definition add_fill :: "Side \<Rightarrow> Quantity \<Rightarrow> Money \<Rightarrow> position \<Rightarrow> position" where
  "add_fill side qty px pos =
     (let signed = (if side = SideSell then - qty else qty);
          pos = pos\<lparr>netQty := netQty pos + signed\<rparr>
      in case MulQuantity px qty of
           Inr notional \<Rightarrow> pos\<lparr>totalCost := totalCost pos + notional, totalAbs := totalAbs pos + qty\<rparr>
         | Inl _ \<Rightarrow> pos)"

definition applyFill :: "string \<Rightarrow> Quantity \<Rightarrow> Money \<Rightarrow> PositionReadModel \<Rightarrow> PositionReadModel" where
  "applyFill orderID qty px rm =
     (case map_of (meta rm) orderID of
        None \<Rightarrow> rm
      | Some mt \<Rightarrow>
          (let bySym = (case map_of (byAccount rm) (m_account mt) of None \<Rightarrow> [] | Some b \<Rightarrow> b);
               pos = (case map_of bySym (m_symbol mt) of None \<Rightarrow> zero_position | Some p \<Rightarrow> p);
               pos = add_fill (m_side mt) qty px pos
           in rm\<lparr>byAccount :=
                AList.update (m_account mt) (AList.update (m_symbol mt) pos bySym) (byAccount rm)\<rparr>))"

fun Project :: "PositionReadModel \<Rightarrow> Event \<Rightarrow> PositionReadModel" where
  "Project rm (OrderPlaced i t acct symb side ot tif q px) =
     rm\<lparr>meta := AList.update i \<lparr>m_account = acct, m_symbol = symb, m_side = side\<rparr> (meta rm)\<rparr>"
| "Project rm (OrderPartiallyFilled i t q px c avg) = applyFill i q px rm"
| "Project rm (OrderFilled i t q px avg) = applyFill i q px rm"
| "Project rm _ = rm"

definition avg_price :: "position \<Rightarrow> Money" where
  "avg_price pos =
     (if 0 <s totalAbs pos
      then (case DivByQuantity (totalCost pos) (totalAbs pos) of Inr a \<Rightarrow> a | Inl _ \<Rightarrow> 0)
      else 0)"

definition Positions ::
  "((string \<times> position) list \<Rightarrow> (string \<times> position) list) \<Rightarrow> PositionReadModel \<Rightarrow> string \<Rightarrow>
   PositionView list result" where
  "Positions shuffle rm accountID =
     (let bySym = (case map_of (byAccount rm) accountID of None \<Rightarrow> [] | Some b \<Rightarrow> b) in
      Inr (map (\<lambda>(symb, pos).
             \<lparr>pv_AccountID = accountID, pv_Symbol = symb, pv_NetQty = Quantity_String (netQty pos),
              pv_AvgPrice = Money_String (avg_price pos)\<rparr>) (shuffle bySym)))"

subsection \<open>What the projection means\<close>

text \<open>
  A fill is attributed to the placement of its order that precedes it in the stream; the position
  of an account in a symbol is the sum of the fills attributed to it.
\<close>

fun attributed :: "(string \<rightharpoonup> orderMeta) \<Rightarrow> Event list \<Rightarrow> (orderMeta \<times> Quantity \<times> Money) list" where
  "attributed mm [] = []"
| "attributed mm (OrderPlaced i t acct symb side ot tif q px # es) =
     attributed (mm(i \<mapsto> \<lparr>m_account = acct, m_symbol = symb, m_side = side\<rparr>)) es"
| "attributed mm (OrderPartiallyFilled i t q px c avg # es) =
     (case mm i of None \<Rightarrow> attributed mm es | Some mt \<Rightarrow> (mt, q, px) # attributed mm es)"
| "attributed mm (OrderFilled i t q px avg # es) =
     (case mm i of None \<Rightarrow> attributed mm es | Some mt \<Rightarrow> (mt, q, px) # attributed mm es)"
| "attributed mm (e # es) = attributed mm es"

definition pos_of :: "PositionReadModel \<Rightarrow> string \<Rightarrow> string \<Rightarrow> position option" where
  "pos_of rm acct symb = (case map_of (byAccount rm) acct of None \<Rightarrow> None | Some b \<Rightarrow> map_of b symb)"

definition of_key :: "string \<Rightarrow> string \<Rightarrow> orderMeta \<times> Quantity \<times> Money \<Rightarrow> bool" where
  "of_key acct symb f \<longleftrightarrow> m_account (fst f) = acct \<and> m_symbol (fst f) = symb"

definition signed_qty :: "orderMeta \<times> Quantity \<times> Money \<Rightarrow> Quantity" where
  "signed_qty f = (case f of (mt, q, px) \<Rightarrow> if m_side mt = SideSell then - q else q)"

definition costed :: "orderMeta \<times> Quantity \<times> Money \<Rightarrow> Money \<times> Quantity" where
  "costed f = (case f of (mt, q, px) \<Rightarrow> case MulQuantity px q of Inl _ \<Rightarrow> (0, 0) | Inr n \<Rightarrow> (n, q))"

definition add_fills :: "(orderMeta \<times> Quantity \<times> Money) list \<Rightarrow> position option \<Rightarrow> position option" where
  "add_fills fs p =
     (if fs = [] then p
      else (let b = (case p of None \<Rightarrow> zero_position | Some x \<Rightarrow> x) in
        Some \<lparr>netQty = netQty b + sum_list (map signed_qty fs),
              totalCost = totalCost b + sum_list (map (fst \<circ> costed) fs),
              totalAbs = totalAbs b + sum_list (map (snd \<circ> costed) fs)\<rparr>))"

lemma add_fills_Cons:
  "add_fills (f # fs) p = add_fills fs (add_fills [f] p)"
  by (auto simp: add_fills_def Let_def add.assoc)

lemma add_fills_Nil: "add_fills [] p = p"
  by (simp add: add_fills_def)

lemma add_fill_eq:
  "add_fill (m_side mt) q px (case p of None \<Rightarrow> zero_position | Some x \<Rightarrow> x) = the (add_fills [(mt, q, px)] p)"
  by (auto simp: add_fill_def add_fills_def signed_qty_def costed_def Let_def split: sum.split)

lemma applyFill_pos:
  assumes "map_of (meta rm) i = Some mt"
  shows "pos_of (applyFill i q px rm) acct symb =
    add_fills (filter (of_key acct symb) [(mt, q, px)]) (pos_of rm acct symb)"
proof (cases "of_key acct symb (mt, q, px)")
  case True
  then have k: "m_account mt = acct" "m_symbol mt = symb" by (simp_all add: of_key_def)
  let ?b = "case map_of (byAccount rm) acct of None \<Rightarrow> [] | Some b \<Rightarrow> b"
  have "pos_of rm acct symb = map_of ?b symb" by (simp add: pos_of_def split: option.split)
  moreover have "pos_of (applyFill i q px rm) acct symb =
      Some (add_fill (m_side mt) q px (case map_of ?b symb of None \<Rightarrow> zero_position | Some x \<Rightarrow> x))"
    by (simp add: pos_of_def applyFill_def assms Let_def k update_conv')
  ultimately show ?thesis using True by (simp add: add_fill_eq) (simp add: add_fills_def Let_def)
next
  case False
  then show ?thesis
    by (auto simp: pos_of_def applyFill_def assms Let_def update_conv' of_key_def add_fills_def split: option.split)
qed

lemma applyFill_unknown: "map_of (meta rm) i = None \<Longrightarrow> applyFill i q px rm = rm"
  by (simp add: applyFill_def)

lemma meta_applyFill [simp]: "meta (applyFill i q px rm) = meta rm"
  by (simp add: applyFill_def Let_def split: option.split)

text \<open>One fill event, and then a whole stream.\<close>

lemma fill_event_pos:
  assumes "Project rm e = applyFill i q px rm"
    and "attributed (map_of (meta rm)) (e # es) =
      (case map_of (meta rm) i of None \<Rightarrow> attributed (map_of (meta rm)) es
       | Some mt \<Rightarrow> (mt, q, px) # attributed (map_of (meta rm)) es)"
  shows "add_fills (filter (of_key acct symb) (attributed (map_of (meta (Project rm e))) es))
      (pos_of (Project rm e) acct symb) =
    add_fills (filter (of_key acct symb) (attributed (map_of (meta rm)) (e # es))) (pos_of rm acct symb)"
proof (cases "map_of (meta rm) i")
  case None
  then show ?thesis by (simp add: assms applyFill_unknown)
next
  case (Some mt)
  let ?fs = "filter (of_key acct symb) (attributed (map_of (meta rm)) es)"
  have "add_fills ?fs (add_fills (filter (of_key acct symb) [(mt, q, px)]) p) =
      add_fills (filter (of_key acct symb) ((mt, q, px) # attributed (map_of (meta rm)) es)) p" for p
    using add_fills_Cons [of "(mt, q, px)" ?fs p] by (simp add: add_fills_Nil)
  with Some show ?thesis by (simp only: assms applyFill_pos [OF Some] meta_applyFill option.case)
qed

lemma project_stream:
  "pos_of (foldl Project rm es) acct symb =
     add_fills (filter (of_key acct symb) (attributed (map_of (meta rm)) es)) (pos_of rm acct symb)"
proof (induction es arbitrary: rm)
  case Nil
  then show ?case by (simp add: add_fills_def)
next
  case (Cons e es)
  have "add_fills (filter (of_key acct symb) (attributed (map_of (meta (Project rm e))) es))
      (pos_of (Project rm e) acct symb) =
    add_fills (filter (of_key acct symb) (attributed (map_of (meta rm)) (e # es))) (pos_of rm acct symb)"
  proof (cases e)
    case (OrderPartiallyFilled i t q px c avg)
    then show ?thesis by (intro fill_event_pos) simp_all
  next
    case (OrderFilled i t q px avg)
    then show ?thesis by (intro fill_event_pos) simp_all
  qed (simp_all add: update_conv' pos_of_def)
  with Cons.IH [of "Project rm e"] show ?case by simp
qed


text \<open>The maps keep distinct keys, so an account has one row per symbol.\<close>

definition rm_inv :: "PositionReadModel \<Rightarrow> bool" where
  "rm_inv rm \<longleftrightarrow> distinct (map fst (byAccount rm)) \<and> (\<forall>(a, b) \<in> set (byAccount rm). distinct (map fst b))"

lemma applyFill_inv: "rm_inv rm \<Longrightarrow> rm_inv (applyFill i q px rm)"
  by (auto simp: rm_inv_def applyFill_def Let_def distinct_update dest!: set_AList_update map_of_SomeD
      split: option.splits)

lemma Project_inv: "rm_inv rm \<Longrightarrow> rm_inv (Project rm e)"
  by (cases e) (simp_all add: applyFill_inv, simp add: rm_inv_def)

lemma project_stream_inv: "rm_inv rm \<Longrightarrow> rm_inv (foldl Project rm es)"
  by (induction es arbitrary: rm) (simp_all add: Project_inv)

lemma New_rm [simp]:
  "rm_inv NewPositionReadModel" "pos_of NewPositionReadModel acct symb = None" "meta NewPositionReadModel = []"
  by (simp_all add: rm_inv_def NewPositionReadModel_def pos_of_def)

subsection \<open>One order's events\<close>

text \<open>What the read model knows of an order whose events it has projected from the start.\<close>

definition booked :: "Order \<Rightarrow> bool" where
  "booked ord \<longleftrightarrow>
     (let rm = foldl Project NewPositionReadModel (o_events ord) in
      order_inv ord \<and>
      map_of (meta rm) (o_id ord) =
        Some \<lparr>m_account = o_accountID ord, m_symbol = o_symbol ord, m_side = o_side ord\<rparr> \<and>
      netQty (case pos_of rm (o_accountID ord) (o_symbol ord) of None \<Rightarrow> zero_position | Some p \<Rightarrow> p) =
        (if o_side ord = SideSell then - o_filledQty ord else o_filledQty ord))"

lemma booked_fill:
  assumes "booked ord" "Fill ord q px t = Inr ord'"
  shows "booked ord'"
proof -
  let ?rm = "foldl Project NewPositionReadModel (o_events ord)"
  let ?mt = "\<lparr>m_account = o_accountID ord, m_symbol = o_symbol ord, m_side = o_side ord\<rparr>"
  have i: "order_inv ord" and mt: "map_of (meta ?rm) (o_id ord) = Some ?mt"
    using assms(1) by (simp_all add: booked_def Let_def)
  note f = Fill_InrD [OF i assms(2)]
  have e: "foldl Project NewPositionReadModel (o_events ord') = applyFill (o_id ord) q px ?rm"
    by (simp add: f(6) filled_order_def raise_def Let_def)
  have p: "pos_of (applyFill (o_id ord) q px ?rm) (o_accountID ord) (o_symbol ord) =
      add_fills [(?mt, q, px)] (pos_of ?rm (o_accountID ord) (o_symbol ord))"
    using applyFill_pos [OF mt, of q px "o_accountID ord" "o_symbol ord"] by (simp add: of_key_def)
  have "order_inv ord'" using Fill_inv [OF i assms(2)] .
  moreover have "o_id ord' = o_id ord" "o_accountID ord' = o_accountID ord" "o_symbol ord' = o_symbol ord"
    "o_side ord' = o_side ord" "o_filledQty ord' = o_filledQty ord + q"
    by (simp_all add: f(6) filled_order_def raise_def Let_def)
  ultimately show ?thesis
    using assms(1) mt unfolding booked_def e Let_def
    by (simp add: p add_fills_def Let_def signed_qty_def)
qed

lemma booked_exec:
  assumes "booked ord" "order_exec ord c = Inr ord'"
  shows "booked ord'"
proof (cases c)
  case (CFill q px t)
  then show ?thesis using assms booked_fill by simp
qed (use assms order_exec_inv [OF _ assms(2)] in \<open>auto simp: order_op_defs booked_def Let_def\<close>)

interpretation bm: command_machine order_exec booked
  by unfold_locales (rule booked_exec)

lemma NewOrder_booked: "NewOrder oid acct symb side ot tif px q now = Inr ord \<Longrightarrow> booked ord"
  using NewOrder_inv [of oid acct symb side ot tif px q now ord]
  by (clarsimp simp: NewOrder_def raise_def booked_def Let_def NewPositionReadModel_def pos_of_def zero_position_def)

subsection \<open>Properties\<close>

text \<open>
  C28. The projection computes the positions: after any stream of events, of any orders in any
  order, the position of an account in a symbol exists exactly if a fill was attributed to it, and
  then holds the sum of the signed quantities of these fills (sells negative) and the sums of the
  notionals and quantities of those whose notional is representable, with 64-bit wrap-around; a
  fill is attributed to the placement of its order that precedes it, and dropped if there is none.
\<close>

theorem projection_sums_fills:
  "pos_of (foldl Project NewPositionReadModel es) acct symb =
     add_fills (filter (of_key acct symb) (attributed Map.empty es)) None"
  using project_stream [of NewPositionReadModel es acct symb] by simp

text \<open>The rows of \<open>Positions\<close>, and with them the contract of the port.\<close>

lemma Positions_rows:
  assumes "rm_inv rm" "mset (shuffle bs) = mset bs"
    and "bs = (case map_of (byAccount rm) acct of None \<Rightarrow> [] | Some b \<Rightarrow> b)"
  shows "\<exists>rows. Positions shuffle rm acct = Inr rows \<and>
    distinct (map pv_Symbol rows) \<and>
    (\<forall>row. row \<in> set rows \<longleftrightarrow>
      (\<exists>p. pos_of rm acct (pv_Symbol row) = Some p \<and>
        row = \<lparr>pv_AccountID = acct, pv_Symbol = pv_Symbol row, pv_NetQty = Quantity_String (netQty p),
          pv_AvgPrice = Money_String (avg_price p)\<rparr>))"
proof -
  let ?row = "\<lambda>(symb, pos). \<lparr>pv_AccountID = acct, pv_Symbol = symb, pv_NetQty = Quantity_String (netQty pos),
              pv_AvgPrice = Money_String (avg_price pos)\<rparr>"
  have d: "distinct (map fst bs)"
    using assms(1) unfolding assms(3) rm_inv_def
    by (fastforce dest: map_of_SomeD split: option.splits)
  have "mset (map fst (shuffle bs)) = mset (map fst bs)" using assms(2) by simp
  then have d': "distinct (map fst (shuffle bs))" using d mset_eq_imp_distinct_iff by blast
  have p: "pos_of rm acct s = map_of bs s" for s
    unfolding pos_of_def assms(3) by (simp split: option.split)
  have "Positions shuffle rm acct = Inr (map ?row (shuffle bs))"
    unfolding Positions_def Let_def assms(3) [symmetric] by simp
  moreover have "map pv_Symbol (map ?row (shuffle bs)) = map fst (shuffle bs)" by (simp add: case_prod_unfold)
  then have "distinct (map pv_Symbol (map ?row (shuffle bs)))" using d' by (simp only:)
  moreover have "row \<in> set (map ?row (shuffle bs)) \<longleftrightarrow>
      (\<exists>p. map_of bs (pv_Symbol row) = Some p \<and> row = ?row (pv_Symbol row, p))" for row
    using mset_eq_setD [OF assms(2)] d by (force simp: map_of_eq_Some_iff)
  ultimately show ?thesis unfolding p by (intro exI [of _ "map ?row (shuffle bs)"]) (simp del: map_map)
qed

interpretation prm: position_read_model "\<lambda>(shuffle, rm). rm_inv rm \<and> (\<forall>al. mset (shuffle al) = mset al)"
  "\<lambda>(shuffle, rm) acct symb. map_option netQty (pos_of rm acct symb)" "\<lambda>(shuffle, rm). Positions shuffle rm"
proof
  fix m :: "((string \<times> position) list \<Rightarrow> (string \<times> position) list) \<times> PositionReadModel" and acct :: string
  obtain sh rm where m: "m = (sh, rm)" by fastforce
  assume "case m of (shuffle, rm) \<Rightarrow> rm_inv rm \<and> (\<forall>al. mset (shuffle al) = mset al)"
  then obtain rows where r: "Positions sh rm acct = Inr rows" "distinct (map pv_Symbol rows)"
    "\<And>row. row \<in> set rows \<longleftrightarrow> (\<exists>p. pos_of rm acct (pv_Symbol row) = Some p \<and>
        row = \<lparr>pv_AccountID = acct, pv_Symbol = pv_Symbol row, pv_NetQty = Quantity_String (netQty p),
          pv_AvgPrice = Money_String (avg_price p)\<rparr>)"
    using Positions_rows [of rm sh _ acct, OF _ _ refl] unfolding m by auto
  have v: "pv_AccountID row = acct \<and> map_option Quantity_String (map_option netQty (pos_of rm acct (pv_Symbol row))) =
      Some (pv_NetQty row)" if "row \<in> set rows" for row
  proof -
    from r(3) [THEN iffD1, OF that]
    obtain p where p: "pos_of rm acct (pv_Symbol row) = Some p"
      and e: "row = \<lparr>pv_AccountID = acct, pv_Symbol = pv_Symbol row, pv_NetQty = Quantity_String (netQty p),
          pv_AvgPrice = Money_String (avg_price p)\<rparr>" by (elim exE conjE)
    have "pv_AccountID row = acct" "pv_NetQty row = Quantity_String (netQty p)"
      using arg_cong [OF e, of pv_AccountID] arg_cong [OF e, of pv_NetQty] by simp_all
    then show ?thesis using p by simp
  qed
  have "symb \<in> pv_Symbol ` set rows" if "pos_of rm acct symb = Some p" for symb p
    using that r(3) [of "\<lparr>pv_AccountID = acct, pv_Symbol = symb, pv_NetQty = Quantity_String (netQty p),
          pv_AvgPrice = Money_String (avg_price p)\<rparr>"] by force
  then have "pv_Symbol ` set rows = dom (\<lambda>symb. map_option netQty (pos_of rm acct symb))" using r(3) by auto
  with r(1,2) v show "\<exists>rows. (case m of (shuffle, rm) \<Rightarrow> Positions shuffle rm) acct = Inr rows \<and> distinct (map pv_Symbol rows) \<and>
      pv_Symbol ` set rows = dom ((case m of (shuffle, rm) \<Rightarrow> \<lambda>acct symb. map_option netQty (pos_of rm acct symb)) acct) \<and>
      (\<forall>row \<in> set rows. pv_AccountID row = acct \<and>
         map_option Quantity_String ((case m of (shuffle, rm) \<Rightarrow> \<lambda>acct symb. map_option netQty (pos_of rm acct symb)) acct (pv_Symbol row)) =
           Some (pv_NetQty row))"
    unfolding m by (intro exI [of _ rows]) simp
qed

text \<open>
  \<open>Positions\<close> answers with exactly one row per traded symbol of the account, in whatever order
  the map is enumerated, and each row prints the net quantity and the average price of that
  position.
\<close>

theorem positions_one_row_per_symbol:
  assumes "mset (shuffle bs) = mset bs"
    and "bs = (case map_of (byAccount (foldl Project NewPositionReadModel es)) acct of None \<Rightarrow> [] | Some b \<Rightarrow> b)"
  shows "\<exists>rows. Positions shuffle (foldl Project NewPositionReadModel es) acct = Inr rows \<and>
    distinct (map pv_Symbol rows) \<and>
    (\<forall>row. row \<in> set rows \<longleftrightarrow>
      (\<exists>p. pos_of (foldl Project NewPositionReadModel es) acct (pv_Symbol row) = Some p \<and>
        row = \<lparr>pv_AccountID = acct, pv_Symbol = pv_Symbol row, pv_NetQty = Quantity_String (netQty p),
          pv_AvgPrice = Money_String (avg_price p)\<rparr>))"
  using assms by (rule Positions_rows [OF project_stream_inv [OF New_rm(1)]])

theorem positions_one_row_per_symbol_witness:
  "\<exists>rows. Positions rev (foldl Project NewPositionReadModel
      (o_events (run_cmds order_exec sample_order [CAccept 6, CFill 4000 1500000 7]))) ''acct-1'' = Inr rows \<and>
    distinct (map pv_Symbol rows)"
  using positions_one_row_per_symbol [of rev, OF mset_rev refl] by blast

text \<open>
  The read side agrees with the write side: after any run of commands on a new order, the
  read model that has projected the order's events holds, for the order's account and symbol, a
  net quantity equal to the filled quantity of the order, negated for a sell.
\<close>

theorem read_model_agrees_with_order:
  assumes "NewOrder oid acct symb side ot tif px q now = Inr ord"
  shows "let ord' = run_cmds order_exec ord cmds;
             rm = foldl Project NewPositionReadModel (o_events ord')
    in netQty (case pos_of rm acct symb of None \<Rightarrow> zero_position | Some p \<Rightarrow> p) =
       (if side = SideSell then - o_filledQty ord' else o_filledQty ord')"
proof -
  let ?ord' = "run_cmds order_exec ord cmds"
  have "booked ?ord'" using NewOrder_booked [OF assms] by (rule bm.run_inv)
  moreover have "o_accountID ?ord' = acct" "o_symbol ?ord' = symb" "o_side ?ord' = side"
    using om.run_rel [OF NewOrder_inv [OF assms], of cmds] assms
    by (auto simp: order_rel_def NewOrder_def raise_def)
  ultimately show ?thesis by (simp add: booked_def Let_def)
qed

theorem read_model_agrees_with_order_witness:
  "netQty (case pos_of (foldl Project NewPositionReadModel
      (o_events (run_cmds order_exec sample_order [CAccept 6, CFill 4000 1500000 7]))) ''acct-1'' ''AAPL''
    of None \<Rightarrow> zero_position | Some p \<Rightarrow> p) = 4000"
proof -
  have "o_filledQty (run_cmds order_exec sample_order [CAccept 6, CFill 4000 1500000 7]) = 4000" by code_simp
  then show ?thesis
    using read_model_agrees_with_order [OF sample_order, of "[CAccept 6, CFill 4000 1500000 7]"]
    unfolding Let_def by simp
qed

end
