(* ===== verification/Event_Bus.thy ===== *)
theory Event_Bus
  imports Ports
begin

section \<open>The event bus (internal/adapters/memory/eventbus.go)\<close>

text \<open>
  The bus as a transition system, since \<open>Publish\<close> only takes the read lock: any number of
  publishers, the workers of the subscriptions, \<open>Subscribe\<close> and \<open>Close\<close> interleave. A step is one
  channel or counter operation of the code: \<open>inflight.Add\<close>, the send of an event to a
  subscriber's channel (which waits while the channel is full), a worker's receive, the end of its
  handler with \<open>inflight.Done\<close>. \<open>Subscribe\<close> and \<open>Close\<close> take the write lock, so no publisher is
  inside \<open>Publish\<close> then. Each event is tagged with the number of the \<open>Publish\<close> call that sent it,
  and \<open>sub_sent\<close>, \<open>sub_since\<close> and \<open>published\<close> record the history; no step depends on them.
  \<open>sub_handled\<close> lists the calls of the handler, in order. \<open>Wait\<close> is the condition for the method of that
  name to return.
\<close>

type_synonym tagged = "nat \<times> Event"

record subscription =
  sub_name :: string
  sub_queue :: "tagged list"
  sub_running :: "tagged option"
  sub_handled :: "tagged list"
  sub_sent :: "tagged list"
  sub_since :: nat

text \<open>A goroutine inside \<open>Publish\<close>: the sends it still has to make, as subscriber and event.\<close>

record publisher =
  pending :: "(nat \<times> Event) list"
  added :: bool
  returned :: bool

record EventBus =
  bus_subs :: "subscription list"
  inflight :: nat
  bus_closed :: bool
  bufferSize :: nat
  publishers :: "publisher list"
  published :: "Event list list"

definition NewEventBus :: EventBus where
  "NewEventBus =
     \<lparr>bus_subs = [], inflight = 0, bus_closed = False, bufferSize = 4096, publishers = [], published = []\<rparr>"

definition new_sub :: "string \<Rightarrow> nat \<Rightarrow> subscription" where
  "new_sub eventName n =
     \<lparr>sub_name = eventName, sub_queue = [], sub_running = None, sub_handled = [], sub_sent = [], sub_since = n\<rparr>"

definition Subscribe :: "string \<Rightarrow> EventBus \<Rightarrow> EventBus" where
  "Subscribe eventName b = b\<lparr>bus_subs := bus_subs b @ [new_sub eventName (length (published b))]\<rparr>"

definition SubscribeAll :: "EventBus \<Rightarrow> EventBus" where
  "SubscribeAll b = Subscribe [] b"

definition wanted :: "subscription \<Rightarrow> Event \<Rightarrow> bool" where
  "wanted sub e \<longleftrightarrow> \<not> (sub_name sub \<noteq> [] \<and> sub_name sub \<noteq> EventName e)"

text \<open>The two nested loops of \<open>Publish\<close>: for each event, the subscribers that want it.\<close>

definition sends :: "subscription list \<Rightarrow> Event list \<Rightarrow> (nat \<times> Event) list" where
  "sends subs events =
     concat (map (\<lambda>e. map (\<lambda>i. (i, e)) (filter (\<lambda>i. wanted (subs ! i) e) [0..<length subs])) events)"

definition Publish_start :: "Event list \<Rightarrow> EventBus \<Rightarrow> EventBus" where
  "Publish_start events b =
     (if bus_closed b then b
      else b\<lparr>publishers := publishers b @ [\<lparr>pending = sends (bus_subs b) events, added = False, returned = False\<rparr>],
             published := published b @ [events]\<rparr>)"

definition set_pub :: "nat \<Rightarrow> publisher \<Rightarrow> EventBus \<Rightarrow> EventBus" where
  "set_pub j p b = b\<lparr>publishers := (publishers b)[j := p]\<rparr>"

definition set_sub :: "nat \<Rightarrow> subscription \<Rightarrow> EventBus \<Rightarrow> EventBus" where
  "set_sub i s b = b\<lparr>bus_subs := (bus_subs b)[i := s]\<rparr>"

definition unlocked :: "EventBus \<Rightarrow> bool" where
  "unlocked b \<longleftrightarrow> (\<forall>p \<in> set (publishers b). returned p)"

definition Wait :: "EventBus \<Rightarrow> bool" where
  "Wait b \<longleftrightarrow> inflight b = 0"

definition Close_mark :: "EventBus \<Rightarrow> EventBus" where
  "Close_mark b = b\<lparr>bus_closed := True\<rparr>"

interpretation bus_pub: event_publisher "\<lambda>b. \<not> bus_closed b" published Publish_start
  by unfold_locales (simp_all add: Publish_start_def)

text \<open>The steps of a publisher and of a worker.\<close>

inductive work :: "EventBus \<Rightarrow> EventBus \<Rightarrow> bool" where
  Add: "j < length (publishers b) \<Longrightarrow> publishers b ! j = p \<Longrightarrow> pending p \<noteq> [] \<Longrightarrow> \<not> added p \<Longrightarrow>
     work b ((set_pub j (p\<lparr>added := True\<rparr>) b)\<lparr>inflight := inflight b + 1\<rparr>)"
| Send: "j < length (publishers b) \<Longrightarrow> publishers b ! j = p \<Longrightarrow> pending p = (i, e) # rest \<Longrightarrow> added p \<Longrightarrow>
     bus_subs b ! i = s \<Longrightarrow> length (sub_queue s) < bufferSize b \<Longrightarrow>
     work b (set_pub j (p\<lparr>pending := rest, added := False\<rparr>)
       (set_sub i (s\<lparr>sub_queue := sub_queue s @ [(j, e)], sub_sent := sub_sent s @ [(j, e)]\<rparr>) b))"
| Return: "j < length (publishers b) \<Longrightarrow> publishers b ! j = p \<Longrightarrow> pending p = [] \<Longrightarrow> \<not> returned p \<Longrightarrow>
     work b (set_pub j (p\<lparr>returned := True\<rparr>) b)"
| Receive: "i < length (bus_subs b) \<Longrightarrow> bus_subs b ! i = s \<Longrightarrow> sub_running s = None \<Longrightarrow> sub_queue s = x # q \<Longrightarrow>
     work b (set_sub i (s\<lparr>sub_running := Some x, sub_queue := q\<rparr>) b)"
| Handled: "i < length (bus_subs b) \<Longrightarrow> bus_subs b ! i = s \<Longrightarrow> sub_running s = Some x \<Longrightarrow>
     work b ((set_sub i (s\<lparr>sub_running := None, sub_handled := sub_handled s @ [x]\<rparr>) b)\<lparr>inflight := inflight b - 1\<rparr>)"

inductive bus_step :: "EventBus \<Rightarrow> EventBus \<Rightarrow> bool" where
  Subscribed: "unlocked b \<Longrightarrow> bus_step b (Subscribe name b)"
| Published: "bus_step b (Publish_start events b)"
| Worked: "work b b' \<Longrightarrow> bus_step b b'"
| Closed: "unlocked b \<Longrightarrow> bus_step b (Close_mark b)"

inductive bus_reach :: "EventBus \<Rightarrow> bool" where
  start: "bus_reach NewEventBus"
| step: "bus_reach b \<Longrightarrow> bus_step b b' \<Longrightarrow> bus_reach b'"

subsection \<open>Invariant\<close>

text \<open>
  The subscriber's channel in order: what was sent is what was handled, then the event in the
  handler, then the queue. The counter is the number of events that were added and not done. For
  each \<open>Publish\<close> call and each subscriber that existed then, what was sent and what is pending
  are together the wanted events, in submission order.
\<close>

definition sub_ok :: "nat \<Rightarrow> subscription \<Rightarrow> bool" where
  "sub_ok n s \<longleftrightarrow>
     sub_sent s = sub_handled s @ (case sub_running s of None \<Rightarrow> [] | Some x \<Rightarrow> [x]) @ sub_queue s \<and>
     length (sub_queue s) \<le> n"

definition load :: "subscription \<Rightarrow> nat" where
  "load s = length (sub_queue s) + (case sub_running s of None \<Rightarrow> 0 | Some _ \<Rightarrow> 1)"

definition sent_by :: "nat \<Rightarrow> subscription \<Rightarrow> Event list" where
  "sent_by j s = map snd (filter (\<lambda>x. fst x = j) (sub_sent s))"

definition pending_for :: "nat \<Rightarrow> publisher \<Rightarrow> Event list" where
  "pending_for i p = map snd (filter (\<lambda>x. fst x = i) (pending p))"

definition in_order :: "EventBus \<Rightarrow> nat \<Rightarrow> nat \<Rightarrow> bool" where
  "in_order b i j \<longleftrightarrow>
     sent_by j (bus_subs b ! i) @ pending_for i (publishers b ! j) =
       (if sub_since (bus_subs b ! i) \<le> j then filter (wanted (bus_subs b ! i)) (published b ! j) else [])"

definition pub_ok :: "nat \<Rightarrow> publisher \<Rightarrow> bool" where
  "pub_ok n p \<longleftrightarrow> (\<forall>(i, e) \<in> set (pending p). i < n) \<and> (added p \<longrightarrow> pending p \<noteq> []) \<and> (returned p \<longrightarrow> pending p = [])"

definition bus_inv :: "EventBus \<Rightarrow> bool" where
  "bus_inv b \<longleftrightarrow>
     0 < bufferSize b \<and> length (publishers b) = length (published b) \<and>
     (\<forall>s \<in> set (bus_subs b). sub_ok (bufferSize b) s \<and> sub_since s \<le> length (published b) \<and>
        (\<forall>x \<in> set (sub_sent s). fst x < length (published b))) \<and>
     (\<forall>p \<in> set (publishers b). pub_ok (length (bus_subs b)) p) \<and>
     inflight b = sum_list (map load (bus_subs b)) + sum_list (map (\<lambda>p. of_bool (added p)) (publishers b)) \<and>
     (\<forall>i < length (bus_subs b). \<forall>j < length (publishers b). in_order b i j)"


lemma bus_invI:
  assumes "0 < bufferSize b" "length (publishers b) = length (published b)"
    "\<And>i. i < length (bus_subs b) \<Longrightarrow> sub_ok (bufferSize b) (bus_subs b ! i) \<and>
       sub_since (bus_subs b ! i) \<le> length (published b) \<and>
       (\<forall>x \<in> set (sub_sent (bus_subs b ! i)). fst x < length (published b))"
    "\<And>j. j < length (publishers b) \<Longrightarrow> pub_ok (length (bus_subs b)) (publishers b ! j)"
    "inflight b = sum_list (map load (bus_subs b)) + sum_list (map (\<lambda>p. of_bool (added p)) (publishers b))"
    "\<And>i j. i < length (bus_subs b) \<Longrightarrow> j < length (publishers b) \<Longrightarrow> in_order b i j"
  shows "bus_inv b"
  using assms by (simp add: bus_inv_def all_set_conv_all_nth [of "bus_subs b"] all_set_conv_all_nth [of "publishers b"])

lemma bus_invD:
  assumes "bus_inv b"
  shows "0 < bufferSize b" "length (publishers b) = length (published b)"
    "i < length (bus_subs b) \<Longrightarrow> sub_ok (bufferSize b) (bus_subs b ! i)"
    "i < length (bus_subs b) \<Longrightarrow> sub_since (bus_subs b ! i) \<le> length (published b)"
    "i < length (bus_subs b) \<Longrightarrow> x \<in> set (sub_sent (bus_subs b ! i)) \<Longrightarrow> fst x < length (published b)"
    "j < length (publishers b) \<Longrightarrow> pub_ok (length (bus_subs b)) (publishers b ! j)"
    "inflight b = sum_list (map load (bus_subs b)) + sum_list (map (\<lambda>p. of_bool (added p)) (publishers b))"
    "i < length (bus_subs b) \<Longrightarrow> j < length (publishers b) \<Longrightarrow> in_order b i j"
  using assms unfolding bus_inv_def by (simp_all add: all_set_conv_all_nth [of "bus_subs b"] all_set_conv_all_nth [of "publishers b"])

lemma sum_list_update_nat:
  "i < length xs \<Longrightarrow> sum_list (map f (xs[i := y])) + f (xs ! i) = sum_list (map f xs) + (f y :: nat)"
proof -
  assume i: "i < length xs"
  have "f (xs ! i) \<le> sum_list (map f xs)"
    using member_le_sum_list [of "f (xs ! i)" "map f xs"] i by simp
  then show ?thesis using i by (simp add: map_update sum_list_update)
qed

lemma New_bus_inv: "bus_inv NewEventBus"
  by (simp add: bus_inv_def NewEventBus_def)

text \<open>A step that replaces one publisher or one subscription.\<close>

lemma set_pub_inv:
  assumes "bus_inv b" "j < length (publishers b)"
    and "pub_ok (length (bus_subs b)) p" "pending p = pending (publishers b ! j)"
    and "n + of_bool (added (publishers b ! j)) = inflight b + of_bool (added p)"
  shows "bus_inv ((set_pub j p b)\<lparr>inflight := n\<rparr>)"
proof (rule bus_invI)
  note d = bus_invD [OF assms(1)]
  let ?b = "(set_pub j p b)\<lparr>inflight := n\<rparr>"
  show "inflight ?b = sum_list (map load (bus_subs ?b)) + sum_list (map (\<lambda>p. of_bool (added p)) (publishers ?b))"
    using assms(5) d(7) sum_list_update_nat [OF assms(2), of "\<lambda>p. of_bool (added p)" p]
    by (simp add: set_pub_def)
  fix i k
  show "in_order ?b i k" if "i < length (bus_subs ?b)" "k < length (publishers ?b)"
    using d(8) [of i k] that assms(2,4) by (auto simp: set_pub_def in_order_def pending_for_def nth_list_update)
qed (use bus_invD [OF assms(1)] assms(2,3) in \<open>auto simp: set_pub_def nth_list_update\<close>)

lemma set_sub_inv:
  assumes "bus_inv b" "i < length (bus_subs b)"
    and "sub_ok (bufferSize b) s" "sub_sent s = sub_sent (bus_subs b ! i)"
    and "sub_name s = sub_name (bus_subs b ! i)" "sub_since s = sub_since (bus_subs b ! i)"
    and "n + load (bus_subs b ! i) = inflight b + load s"
  shows "bus_inv ((set_sub i s b)\<lparr>inflight := n\<rparr>)"
proof (rule bus_invI)
  note d = bus_invD [OF assms(1)]
  let ?b = "(set_sub i s b)\<lparr>inflight := n\<rparr>"
  show "inflight ?b = sum_list (map load (bus_subs ?b)) + sum_list (map (\<lambda>p. of_bool (added p)) (publishers ?b))"
    using assms(7) d(7) sum_list_update_nat [OF assms(2), of load s] by (simp add: set_sub_def)
  fix k j
  show "in_order ?b k j" if "k < length (bus_subs ?b)" "j < length (publishers ?b)"
  proof -
    have "wanted s = wanted (bus_subs b ! i)" by (simp add: wanted_def assms(5) fun_eq_iff)
    then show ?thesis
      using d(8) [of k j] that assms(2,4,6) by (auto simp: set_sub_def in_order_def sent_by_def nth_list_update)
  qed
qed (use bus_invD [OF assms(1)] assms(2-6) in \<open>auto simp: set_sub_def nth_list_update\<close>)

lemma load_pos: "sub_running s \<noteq> None \<Longrightarrow> i < length (bus_subs b) \<Longrightarrow> bus_subs b ! i = s \<Longrightarrow> bus_inv b \<Longrightarrow>
    0 < inflight b"
proof -
  assume a: "sub_running s \<noteq> None" "i < length (bus_subs b)" "bus_subs b ! i = s" "bus_inv b"
  then have "load s \<in> set (map load (bus_subs b))" by auto
  then have "load s \<le> sum_list (map load (bus_subs b))" by (rule member_le_sum_list) simp
  then show ?thesis using bus_invD(7) [OF a(4)] a(1) by (auto simp: load_def)
qed

lemma send_inv:
  assumes "bus_inv b" "j < length (publishers b)" "publishers b ! j = p" "pending p = (i, e) # rest" "added p"
    and "bus_subs b ! i = s" "length (sub_queue s) < bufferSize b"
  shows "bus_inv (set_pub j (p\<lparr>pending := rest, added := False\<rparr>)
       (set_sub i (s\<lparr>sub_queue := sub_queue s @ [(j, e)], sub_sent := sub_sent s @ [(j, e)]\<rparr>) b))"
    (is "bus_inv ?b")
proof (rule bus_invI)
  note d = bus_invD [OF assms(1)]
  have p: "pub_ok (length (bus_subs b)) p" using d(6) [OF assms(2)] assms(3) by simp
  then have i: "i < length (bus_subs b)" by (simp add: pub_ok_def assms(4))
  have r: "\<not> returned p" using p by (auto simp: pub_ok_def assms(4))
  let ?s = "s\<lparr>sub_queue := sub_queue s @ [(j, e)], sub_sent := sub_sent s @ [(j, e)]\<rparr>"
  let ?p = "p\<lparr>pending := rest, added := False\<rparr>"
  have w: "wanted ?s = wanted s" by (simp add: wanted_def fun_eq_iff)
  show "inflight ?b = sum_list (map load (bus_subs ?b)) + sum_list (map (\<lambda>p. of_bool (added p)) (publishers ?b))"
    using d(7) sum_list_update_nat [OF i, of load ?s] assms(3,5,6)
      sum_list_update_nat [OF assms(2), of "\<lambda>p. of_bool (added p)" ?p]
    by (simp add: set_pub_def set_sub_def load_def)
  fix k
  show "sub_ok (bufferSize ?b) (bus_subs ?b ! k) \<and> sub_since (bus_subs ?b ! k) \<le> length (published ?b) \<and>
      (\<forall>x \<in> set (sub_sent (bus_subs ?b ! k)). fst x < length (published ?b))" if "k < length (bus_subs ?b)"
    using d(2) d(3-5) [of k] that assms(2,6,7) i
    by (auto simp: set_pub_def set_sub_def nth_list_update sub_ok_def)
  show "pub_ok (length (bus_subs ?b)) (publishers ?b ! k)" if "k < length (publishers ?b)"
    using d(6) [of k] that p r assms(2,4) by (auto simp: set_pub_def set_sub_def nth_list_update pub_ok_def)
  fix m
  show "in_order ?b k m" if "k < length (bus_subs ?b)" "m < length (publishers ?b)"
    using d(8) [of k m] that i assms(2-4,6) w
    by (auto simp: set_pub_def set_sub_def nth_list_update in_order_def sent_by_def pending_for_def split: if_splits)
qed (use bus_invD [OF assms(1)] in \<open>simp_all add: set_pub_def set_sub_def\<close>)

lemma work_inv: "work b b' \<Longrightarrow> bus_inv b \<Longrightarrow> bus_inv b'"
proof (induction rule: work.induct)
  case (Add j b p)
  with bus_invD(6) [OF Add(5,1)] show ?case by (intro set_pub_inv) (auto simp: pub_ok_def)
next
  case (Send j b p i e rest s)
  then show ?case by (intro send_inv)
next
  case (Return j b p)
  have "bus_inv ((set_pub j (p\<lparr>returned := True\<rparr>) b)\<lparr>inflight := inflight b\<rparr>)"
    using Return bus_invD(6) [OF Return(5,1)] by (intro set_pub_inv) (auto simp: pub_ok_def)
  then show ?case by (simp add: set_pub_def)
next
  case (Receive i b s x q)
  have "bus_inv ((set_sub i (s\<lparr>sub_running := Some x, sub_queue := q\<rparr>) b)\<lparr>inflight := inflight b\<rparr>)"
    using Receive bus_invD(3) [OF Receive(5,1)] by (intro set_sub_inv) (auto simp: sub_ok_def load_def)
  then show ?case by (simp add: set_sub_def)
next
  case (Handled i b s x)
  then show ?case using bus_invD(3) [OF Handled(4,1)] load_pos [of s i b]
    by (intro set_sub_inv) (auto simp: sub_ok_def load_def)
qed


lemma sends_for:
  "i < length subs \<Longrightarrow> map snd (filter (\<lambda>x. fst x = i) (sends subs events)) = filter (wanted (subs ! i)) events"
proof (induction events)
  case (Cons e events)
  have "filter (\<lambda>x. fst x = i) (map (\<lambda>j. (j, e)) js) = map (\<lambda>j. (j, e)) (filter (\<lambda>j. j = i) js)" for js
    by (induction js) auto
  moreover have "filter (\<lambda>j. j = i) (filter (\<lambda>j. wanted (subs ! j) e) [0..<length subs]) =
      (if wanted (subs ! i) e then [i] else [])"
  proof -
    have "filter (\<lambda>j. j = i) [0..<n] = (if i < n then [i] else [])" for n by (induction n) auto
    moreover have "filter (\<lambda>j. j = i) (filter P js) = (if P i then filter (\<lambda>j. j = i) js else [])"
      for P :: "nat \<Rightarrow> bool" and js by (induction js) auto
    ultimately show ?thesis using Cons.prems by simp
  qed
  ultimately show ?case using Cons by (simp add: sends_def)
qed (simp add: sends_def)

lemma sends_bound: "\<forall>(i, e) \<in> set (sends subs events). i < length subs"
  by (auto simp: sends_def)

lemma publish_inv:
  assumes "bus_inv b"
  shows "bus_inv (Publish_start events b)"
proof (cases "bus_closed b")
  case False
  note d = bus_invD [OF assms]
  let ?p = "\<lparr>pending = sends (bus_subs b) events, added = False, returned = False\<rparr>"
  let ?b = "Publish_start events b"
  show ?thesis
  proof (rule bus_invI)
    fix i j
    show "sub_ok (bufferSize ?b) (bus_subs ?b ! i) \<and> sub_since (bus_subs ?b ! i) \<le> length (published ?b) \<and>
        (\<forall>x \<in> set (sub_sent (bus_subs ?b ! i)). fst x < length (published ?b))" if "i < length (bus_subs ?b)"
      using d(3-5) [of i] that False by (fastforce simp: Publish_start_def)
    show "pub_ok (length (bus_subs ?b)) (publishers ?b ! j)" if "j < length (publishers ?b)"
      using d(6) [of j] that False sends_bound [of "bus_subs b" events]
      by (auto simp: Publish_start_def nth_append pub_ok_def)
    show "in_order ?b i j" if i: "i < length (bus_subs ?b)" and j: "j < length (publishers ?b)"
    proof (cases "j < length (publishers b)")
      case True
      then show ?thesis
        using d(2) d(8) [of i j] i False by (simp add: Publish_start_def in_order_def nth_append)
    next
      case new: False
      then have j': "j = length (published b)" using j d(2) False by (simp add: Publish_start_def)
      have i': "i < length (bus_subs b)" using i False by (simp add: Publish_start_def)
      have "sent_by j (bus_subs b ! i) = []" using d(5) [OF i'] unfolding j' by (fastforce simp: sent_by_def filter_empty_conv)
      then show ?thesis
        using sends_for [OF i', of events] d(2) d(4) [OF i'] False
        by (simp add: Publish_start_def in_order_def nth_append j' pending_for_def)
    qed
  qed (use d False in \<open>simp_all add: Publish_start_def\<close>)
qed (use assms in \<open>simp add: Publish_start_def\<close>)

lemma subscribe_inv:
  assumes "bus_inv b"
  shows "bus_inv (Subscribe name b)"
proof (rule bus_invI)
  note d = bus_invD [OF assms]
  let ?b = "Subscribe name b"
  fix i j
  show "sub_ok (bufferSize ?b) (bus_subs ?b ! i) \<and> sub_since (bus_subs ?b ! i) \<le> length (published ?b) \<and>
      (\<forall>x \<in> set (sub_sent (bus_subs ?b ! i)). fst x < length (published ?b))" if "i < length (bus_subs ?b)"
    using d(3-5) [of i] that by (auto simp: Subscribe_def new_sub_def nth_append sub_ok_def)
  show "pub_ok (length (bus_subs ?b)) (publishers ?b ! j)" if "j < length (publishers ?b)"
    using d(6) [of j] that by (fastforce simp: Subscribe_def pub_ok_def)
  show "in_order ?b i j" if i: "i < length (bus_subs ?b)" and j: "j < length (publishers ?b)"
  proof (cases "i < length (bus_subs b)")
    case True
    then show ?thesis using d(8) [of i j] j by (simp add: Subscribe_def in_order_def nth_append)
  next
    case False
    then have i': "i = length (bus_subs b)" using i by (simp add: Subscribe_def)
    have "pending_for i (publishers b ! j) = []"
      using d(6) [of j] j by (fastforce simp: Subscribe_def i' pub_ok_def pending_for_def filter_empty_conv)
    then show ?thesis using j d(2) by (simp add: Subscribe_def in_order_def nth_append i' new_sub_def sent_by_def)
  qed
qed (use bus_invD [OF assms] in \<open>simp_all add: Subscribe_def new_sub_def load_def\<close>)

lemma bus_step_inv: "bus_step b b' \<Longrightarrow> bus_inv b \<Longrightarrow> bus_inv b'"
proof (induction rule: bus_step.induct)
  case (Closed b)
  then show ?case by (simp add: bus_inv_def Close_mark_def in_order_def)
qed (simp_all add: publish_inv subscribe_inv work_inv)

lemma bus_reach_inv: "bus_reach b \<Longrightarrow> bus_inv b"
  by (induction rule: bus_reach.induct) (simp_all add: New_bus_inv bus_step_inv)


subsection \<open>Progress\<close>

lemma idle_sub: "load s = 0 \<Longrightarrow> sub_ok n s \<Longrightarrow> sub_sent s = sub_handled s"
  by (auto simp: load_def sub_ok_def split: option.splits)

lemma inflight_zero:
  assumes "bus_inv b" "inflight b = 0" "i < length (bus_subs b)"
  shows "load (bus_subs b ! i) = 0"
  using bus_invD(7) [OF assms(1)] assms(2,3) by simp

lemma busy_sub_works: "i < length (bus_subs b) \<Longrightarrow> load (bus_subs b ! i) \<noteq> 0 \<Longrightarrow> \<exists>b'. work b b'"
proof (cases "sub_running (bus_subs b ! i)")
  case None
  assume a: "i < length (bus_subs b)" "load (bus_subs b ! i) \<noteq> 0"
  with None obtain x q where "sub_queue (bus_subs b ! i) = x # q" by (cases "sub_queue (bus_subs b ! i)") (auto simp: load_def)
  from work.Receive [OF a(1) refl None this] show ?thesis by blast
next
  case (Some x)
  assume "i < length (bus_subs b)"
  from work.Handled [OF this refl Some] show ?thesis by blast
qed

lemma active_pub_works:
  assumes "bus_inv b" "j < length (publishers b)" "\<not> returned (publishers b ! j)"
  shows "\<exists>b'. work b b'"
proof (cases "pending (publishers b ! j)")
  case Nil
  from work.Return [OF assms(2) refl this assms(3)] show ?thesis by blast
next
  case (Cons x rest)
  obtain i e where x: "pending (publishers b ! j) = (i, e) # rest" using Cons by (cases x) auto
  show ?thesis
  proof (cases "added (publishers b ! j)")
    case False
    from work.Add [OF assms(2) refl _ False] x show ?thesis by auto
  next
    case True
    have i: "i < length (bus_subs b)" using bus_invD(6) [OF assms(1,2)] x by (simp add: pub_ok_def)
    show ?thesis
    proof (cases "length (sub_queue (bus_subs b ! i)) < bufferSize b")
      case room: True
      from work.Send [OF assms(2) refl x True refl room] show ?thesis by blast
    next
      case False
      then have "load (bus_subs b ! i) \<noteq> 0" using bus_invD(1) [OF assms(1)] by (auto simp: load_def)
      then show ?thesis by (rule busy_sub_works [OF i])
    qed
  qed
qed

lemma work_enabled:
  assumes "bus_inv b" "\<not> unlocked b \<or> 0 < inflight b"
  shows "\<exists>b'. work b b'"
proof (cases "unlocked b")
  case False
  then obtain j where "j < length (publishers b)" "\<not> returned (publishers b ! j)"
    by (auto simp: unlocked_def in_set_conv_nth)
  with assms(1) show ?thesis by (rule active_pub_works)
next
  case True
  have "\<not> added p" if "p \<in> set (publishers b)" for p
    using that True assms(1) unfolding bus_inv_def pub_ok_def unlocked_def by auto
  then have "sum_list (map (\<lambda>p. of_bool (added p)) (publishers b)) = (0 :: nat)" by simp
  then have "sum_list (map load (bus_subs b)) \<noteq> 0" using bus_invD(7) [OF assms(1)] assms(2) True by linarith
  then obtain i where "i < length (bus_subs b)" "load (bus_subs b ! i) \<noteq> 0"
    by (auto simp: in_set_conv_nth)
  then show ?thesis by (rule busy_sub_works)
qed

text \<open>Each step of a publisher or worker uses up a part of the outstanding work.\<close>

definition pub_work :: "publisher \<Rightarrow> nat" where
  "pub_work p = 4 * length (pending p) + of_bool (\<not> added p) + of_bool (\<not> returned p)"

definition sub_work :: "subscription \<Rightarrow> nat" where
  "sub_work s = 2 * length (sub_queue s) + (case sub_running s of None \<Rightarrow> 0 | Some _ \<Rightarrow> 1)"

definition outstanding :: "EventBus \<Rightarrow> nat" where
  "outstanding b = sum_list (map pub_work (publishers b)) + sum_list (map sub_work (bus_subs b))"

lemma work_decreases: "work b b' \<Longrightarrow> bus_inv b \<Longrightarrow> outstanding b' < outstanding b"
proof (induction rule: work.induct)
  case (Add j b p)
  then show ?case using sum_list_update_nat [of j "publishers b" pub_work "p\<lparr>added := True\<rparr>"]
    by (simp add: outstanding_def set_pub_def pub_work_def)
next
  case (Send j b p i e rest s)
  have "i < length (bus_subs b)" using bus_invD(6) [OF Send(7,1)] Send(2,3) by (simp add: pub_ok_def)
  with Send show ?case
    using sum_list_update_nat [of j "publishers b" pub_work "p\<lparr>pending := rest, added := False\<rparr>"]
      sum_list_update_nat [of i "bus_subs b" sub_work
        "s\<lparr>sub_queue := sub_queue s @ [(j, e)], sub_sent := sub_sent s @ [(j, e)]\<rparr>"]
    by (simp add: outstanding_def set_pub_def set_sub_def pub_work_def sub_work_def)
next
  case (Return j b p)
  then show ?case using sum_list_update_nat [of j "publishers b" pub_work "p\<lparr>returned := True\<rparr>"]
    by (simp add: outstanding_def set_pub_def pub_work_def)
next
  case (Receive i b s x q)
  then show ?case using sum_list_update_nat [of i "bus_subs b" sub_work "s\<lparr>sub_running := Some x, sub_queue := q\<rparr>"]
    by (simp add: outstanding_def set_sub_def sub_work_def)
next
  case (Handled i b s x)
  then show ?case
    using sum_list_update_nat [of i "bus_subs b" sub_work "s\<lparr>sub_running := None, sub_handled := sub_handled s @ [x]\<rparr>"]
    by (simp add: outstanding_def set_sub_def sub_work_def)
qed

lemma work_drains:
  "bus_inv b \<Longrightarrow> \<exists>b'. work\<^sup>*\<^sup>* b b' \<and> bus_inv b' \<and> unlocked b' \<and> inflight b' = 0"
proof (induction "outstanding b" arbitrary: b rule: less_induct)
  case less
  show ?case
  proof (cases "\<not> unlocked b \<or> 0 < inflight b")
    case True
    then obtain b1 where b1: "work b b1" using work_enabled [OF less.prems] by blast
    from less.hyps [OF work_decreases [OF b1 less.prems] work_inv [OF b1 less.prems]]
    show ?thesis using b1 by (meson converse_rtranclp_into_rtranclp)
  qed (use less.prems in auto)
qed

lemma work_bounded: "bus_inv b \<Longrightarrow> (work ^^ k) b b' \<Longrightarrow> k + outstanding b' \<le> outstanding b"
proof (induction k arbitrary: b')
  case (Suc k)
  then obtain c where c: "(work ^^ k) b c" "work c b'" by auto
  have "bus_inv c" using Suc.prems(1) c(1)
  proof (induction k arbitrary: c)
    case (Suc k)
    then show ?case using work_inv by auto
  qed simp
  with work_decreases [OF c(2)] Suc.IH [OF Suc.prems(1) c(1)] show ?case by simp
qed simp

subsection \<open>Properties\<close>

text \<open>
  C29. Delivery in order: however publishers, workers, subscriptions and \<open>Close\<close> interleave, what
  a subscriber's handler has been called with from one \<open>Publish\<close> call is a prefix of the events of
  that call that the subscriber wants, in submission order, each once; and when the call has
  returned and \<open>Wait\<close> sees no event in flight, it is all of them. A subscriber gets nothing from a
  call made before it subscribed, and the counter never goes below the events still to be handled.
\<close>

theorem bus_delivers_in_order:
  assumes "bus_reach b" "i < length (bus_subs b)" "j < length (published b)"
  shows "let s = bus_subs b ! i;
             got = map snd (filter (\<lambda>x. fst x = j) (sub_handled s));
             want = (if sub_since s \<le> j then filter (wanted s) (published b ! j) else [])
    in (\<exists>rest. got @ rest = want) \<and>
       (returned (publishers b ! j) \<and> inflight b = 0 \<longrightarrow> got = want) \<and>
       length (sub_sent s) \<le> length (sub_handled s) + inflight b"
proof -
  let ?s = "bus_subs b ! i"
  have iv: "bus_inv b" using assms(1) by (rule bus_reach_inv)
  note d = bus_invD [OF iv]
  have j: "j < length (publishers b)" using assms(3) d(2) by simp
  have ok: "sub_ok (bufferSize b) ?s" using d(3) assms(2) by blast
  have o: "sent_by j ?s @ pending_for i (publishers b ! j) =
      (if sub_since ?s \<le> j then filter (wanted ?s) (published b ! j) else [])"
    using d(8) [OF assms(2) j] by (simp add: in_order_def)
  obtain tl where tl: "sub_sent ?s = sub_handled ?s @ tl" "length tl = load ?s"
    using ok by (auto simp: sub_ok_def load_def split: option.splits)
  then have "sent_by j ?s = map snd (filter (\<lambda>x. fst x = j) (sub_handled ?s)) @ map snd (filter (\<lambda>x. fst x = j) tl)"
    by (simp add: sent_by_def)
  moreover have "pending_for i (publishers b ! j) = []" if "returned (publishers b ! j)"
    using d(6) [OF j] that by (simp add: pub_ok_def pending_for_def)
  moreover have "tl = []" if "inflight b = 0" using inflight_zero [OF iv that assms(2)] tl(2) by simp
  moreover have "load ?s \<le> inflight b"
    using member_le_sum_list [of "load ?s" "map load (bus_subs b)"] assms(2) d(7) by simp
  ultimately show ?thesis using o tl unfolding Let_def by auto
qed

text \<open>
  C30. The bus neither deadlocks nor runs forever: in every reachable state in which a publisher
  has not returned or an event is in flight, some publisher or worker can make a step, even when
  channels are full; every run of such steps is bounded; and so they lead to a state in which all
  publishers have returned and \<open>Wait\<close> returns.
\<close>

theorem bus_drains:
  assumes "bus_reach b"
  shows "(\<not> unlocked b \<or> 0 < inflight b \<longrightarrow> (\<exists>b'. work b b')) \<and>
    (\<forall>k b'. (work ^^ k) b b' \<longrightarrow> k \<le> outstanding b) \<and>
    (\<exists>b'. work\<^sup>*\<^sup>* b b' \<and> unlocked b' \<and> inflight b' = 0)"
  using bus_reach_inv [OF assms] work_enabled work_bounded work_drains by (meson add_leD1)

definition sample_bus :: EventBus where
  "sample_bus = Publish_start (o_events sample_order) (SubscribeAll NewEventBus)"

lemma sample_bus_reach: "bus_reach sample_bus"
proof -
  have "unlocked NewEventBus" by (simp add: unlocked_def NewEventBus_def)
  then have "bus_reach (SubscribeAll NewEventBus)"
    unfolding SubscribeAll_def by (intro bus_reach.step [OF bus_reach.start] Subscribed)
  then show ?thesis unfolding sample_bus_def by (rule bus_reach.step) (rule Published)
qed

lemma sample_bus_sizes: "length (bus_subs sample_bus) = 1" "length (published sample_bus) = 1"
  "sub_handled (bus_subs sample_bus ! 0) = []" "\<not> unlocked sample_bus"
  by (simp_all add: sample_bus_def SubscribeAll_def Subscribe_def Publish_start_def NewEventBus_def new_sub_def unlocked_def)

theorem bus_delivers_in_order_witness:
  "\<exists>rest. map snd (filter (\<lambda>x. fst x = 0) (sub_handled (bus_subs sample_bus ! 0))) @ rest =
    (if sub_since (bus_subs sample_bus ! 0) \<le> 0
     then filter (wanted (bus_subs sample_bus ! 0)) (published sample_bus ! 0) else [])"
  using bus_delivers_in_order [OF sample_bus_reach, of 0 0] unfolding Let_def by (simp add: sample_bus_sizes)

theorem bus_drains_witness:
  "(\<exists>b'. work sample_bus b') \<and> (\<exists>b'. work\<^sup>*\<^sup>* sample_bus b' \<and> unlocked b' \<and> inflight b' = 0)"
  using bus_drains [OF sample_bus_reach] sample_bus_sizes(4) by blast

end
