(* ===== verification/Read_Side.thy ===== *)
theory Read_Side
  imports Service_Runs Read_Model Event_Bus
begin

section \<open>From the log to the positions\<close>

text \<open>
  The composition of the service, the bus and the read model. The first part shows that the
  positions are determined by the events of each order alone: in any stream in which the events of
  each order form a valid history, whatever the interleaving of the orders, the net position of an
  account in a symbol is the sum of the signed filled quantities of its orders. The second part
  shows that a bus whose publishers do not overlap delivers everything in the order of publication.
\<close>

text \<open>The query of the service that serves positions only forwards to the read model.\<close>

definition Service_Positions ::
  "((string \<times> position) list \<Rightarrow> (string \<times> position) list) \<Rightarrow> PositionReadModel \<Rightarrow> string \<Rightarrow>
   PositionView list result" where
  "Service_Positions shuffle rm accountID = Positions shuffle rm accountID"

subsection \<open>Positions of a log\<close>

definition net_position :: "PositionReadModel \<Rightarrow> string \<Rightarrow> string \<Rightarrow> Quantity" where
  "net_position rm acct symb = netQty (case pos_of rm acct symb of None \<Rightarrow> zero_position | Some p \<Rightarrow> p)"

definition exposure :: "string \<Rightarrow> string \<Rightarrow> OrderSnapshot option \<Rightarrow> Quantity" where
  "exposure acct symb x =
     (case x of None \<Rightarrow> 0
      | Some s \<Rightarrow> if s_AccountID s = acct \<and> s_Symbol s = symb
          then (if s_Side s = SideSell then - s_FilledQty s else s_FilledQty s) else 0)"

definition snap_meta :: "OrderSnapshot \<Rightarrow> orderMeta" where
  "snap_meta s = \<lparr>m_account = s_AccountID s, m_symbol = s_Symbol s, m_side = s_Side s\<rparr>"

lemma net_position_fill:
  assumes "map_of (meta rm) i = Some mt"
  shows "net_position (applyFill i q px rm) acct symb =
    net_position rm acct symb + (if of_key acct symb (mt, q, px) then signed_qty (mt, q, px) else 0)"
  using applyFill_pos [OF assms, of q px acct symb]
  by (auto simp: net_position_def add_fills_def Let_def zero_position_def split: option.splits)

lemma project_fill:
  assumes "map_of (meta rm) i = Some (snap_meta s0)" "s_AccountID s = s_AccountID s0" "s_Symbol s = s_Symbol s0"
    "s_Side s = s_Side s0" "s_FilledQty s = s_FilledQty s0 + q"
  shows "map_of (meta (applyFill i q px rm)) = (map_of (meta rm))(i \<mapsto> snap_meta s) \<and>
    net_position (applyFill i q px rm) acct symb + exposure acct symb (Some s0) =
      net_position rm acct symb + exposure acct symb (Some s)"
proof
  have "snap_meta s = snap_meta s0" using assms(2-4) by (simp add: snap_meta_def)
  then show "map_of (meta (applyFill i q px rm)) = (map_of (meta rm))(i \<mapsto> snap_meta s)"
    using assms(1) by (simp add: fun_upd_idem)
  show "net_position (applyFill i q px rm) acct symb + exposure acct symb (Some s0) =
      net_position rm acct symb + exposure acct symb (Some s)"
    using assms(2-5) by (simp add: net_position_fill [OF assms(1)] of_key_def signed_qty_def snap_meta_def exposure_def)
qed

lemma project_other:
  assumes "map_of (meta rm) i = Some (snap_meta s0)" "s_AccountID s = s_AccountID s0" "s_Symbol s = s_Symbol s0"
    "s_Side s = s_Side s0" "s_FilledQty s = s_FilledQty s0"
  shows "map_of (meta rm) = (map_of (meta rm))(i \<mapsto> snap_meta s) \<and> exposure acct symb (Some s0) = exposure acct symb (Some s)"
proof -
  have "snap_meta s = snap_meta s0" using assms(2-4) by (simp add: snap_meta_def)
  with assms show ?thesis by (simp add: fun_upd_idem exposure_def)
qed

lemma apply_event_SomeD: "apply_event None e = Some s \<Longrightarrow> \<exists>i t acct symb side ot tif q px. e = OrderPlaced i t acct symb side ot tif q px"
  by (cases e) simp_all

lemma project_event:
  assumes "apply_event x e = Some s" "map_of (meta rm) (AggregateID e) = map_option snap_meta x"
  shows "map_of (meta (Project rm e)) = (map_of (meta rm))(AggregateID e \<mapsto> snap_meta s) \<and>
    net_position (Project rm e) acct symb + exposure acct symb x = net_position rm acct symb + exposure acct symb (Some s)"
proof (cases x)
  case None
  then obtain i t acct symb side ot tif q px where "e = OrderPlaced i t acct symb side ot tif q px"
    using assms(1) apply_event_SomeD by blast
  with None assms(1) show ?thesis
    by (auto simp: AggregateID_def update_conv' snap_meta_def exposure_def net_position_def pos_of_def)
next
  case (Some s0)
  then have mt: "map_of (meta rm) (AggregateID e) = Some (snap_meta s0)" using assms(2) by simp
  have st: "s_AccountID s = s_AccountID s0" "s_Symbol s = s_Symbol s0" "s_Side s = s_Side s0"
    using assms(1) Some by (cases e; auto simp: after_def split: if_splits)+
  show ?thesis
  proof (cases "\<exists>q px. Project rm e = applyFill (AggregateID e) q px rm \<and> s_FilledQty s = s_FilledQty s0 + q")
    case True
    then obtain q px where q: "Project rm e = applyFill (AggregateID e) q px rm" "s_FilledQty s = s_FilledQty s0 + q"
      by blast
    show ?thesis unfolding q(1) Some by (rule project_fill [OF mt st q(2)])
  next
    case False
    then have "Project rm e = rm" "s_FilledQty s = s_FilledQty s0"
      using assms(1) Some by (cases e; auto simp: after_def AggregateID_def split: if_splits)+
    with project_other [OF mt st, of acct symb] Some show ?thesis by simp
  qed
qed

text \<open>A stream in which every order has a valid history.\<close>

definition histories_ok :: "Event list \<Rightarrow> bool" where
  "histories_ok es \<longleftrightarrow> (\<forall>i. events_of i es = [] \<or> replay (events_of i es) \<noteq> None)"

lemma events_of_snoc: "events_of i (es @ [e]) = (if AggregateID e = i then events_of i es @ [e] else events_of i es)"
  by (simp add: events_of_def)

lemma histories_ok_prefix: "histories_ok (es @ [e]) \<Longrightarrow> histories_ok es"
  unfolding histories_ok_def events_of_snoc
  by (metis append_is_Nil_conv not_Cons_self2 replay_prefix)

lemma replay_step:
  assumes "histories_ok (es @ [e])"
  shows "\<exists>s. replay (events_of (AggregateID e) es @ [e]) = Some s \<and>
    apply_event (replay (events_of (AggregateID e) es)) e = Some s"
proof -
  let ?h = "events_of (AggregateID e) es"
  obtain s where s: "replay (?h @ [e]) = Some s"
    using assms unfolding histories_ok_def events_of_snoc by (auto dest: spec [of _ "AggregateID e"])
  have "apply_event (replay ?h) e = Some s"
  proof (cases "?h = []")
    case True
    then show ?thesis using s by (simp add: replay_single)
  next
    case False
    then obtain s0 where "replay ?h = Some s0" using s replay_prefix [of ?h e] by auto
    then show ?thesis using s replay_snoc by simp
  qed
  with s show ?thesis by blast
qed

lemma log_positions:
  assumes "histories_ok es"
  shows "map_of (meta (foldl Project NewPositionReadModel es)) i = map_option snap_meta (replay (events_of i es)) \<and>
    net_position (foldl Project NewPositionReadModel es) acct symb =
      (\<Sum>i \<in> AggregateID ` set es. exposure acct symb (replay (events_of i es)))"
  using assms
proof (induction es arbitrary: i rule: rev_induct)
  case Nil
  then show ?case by (simp add: net_position_def zero_position_def events_of_def)
next
  case (snoc e es)
  let ?rm = "foldl Project NewPositionReadModel es" and ?j = "AggregateID e"
  let ?f = "\<lambda>i. exposure acct symb (replay (events_of i es))"
  let ?g = "\<lambda>i. exposure acct symb (replay (events_of i (es @ [e])))"
  have IH: "map_of (meta ?rm) k = map_option snap_meta (replay (events_of k es))"
    "net_position ?rm acct symb = sum ?f (AggregateID ` set es)" for k
    using snoc.IH [OF histories_ok_prefix [OF snoc.prems]] by blast+
  obtain s where s: "replay (events_of ?j es @ [e]) = Some s" "apply_event (replay (events_of ?j es)) e = Some s"
    using replay_step [OF snoc.prems] by blast
  note p = project_event [OF s(2) IH(1), THEN conjunct1] project_event [OF s(2) IH(1), THEN conjunct2]
  have "map_of (meta (Project ?rm e)) i = map_option snap_meta (replay (events_of i (es @ [e])))"
    by (simp add: p(1) events_of_snoc s(1) IH(1) del: events_of_append)
  moreover have "net_position (Project ?rm e) acct symb = sum ?g (AggregateID ` set (es @ [e]))"
  proof -
    let ?S = "AggregateID ` set es"
    have f0: "?f ?j = 0" if "?j \<notin> ?S"
    proof -
      have "events_of ?j es = []" using that unfolding events_of_def filter_empty_conv image_iff by metis
      then show ?thesis by (simp add: exposure_def)
    qed
    have same: "sum ?g (?S - {?j}) = sum ?f (?S - {?j})" by (rule sum.cong) (auto simp: events_of_snoc simp del: events_of_append)
    have "sum ?f ?S = ?f ?j + sum ?f (?S - {?j})"
      by (cases "?j \<in> ?S") (simp_all add: sum.remove f0)
    moreover have "sum ?g (insert ?j ?S) = ?g ?j + sum ?g (?S - {?j})" by (simp add: sum.insert_remove)
    moreover have "?g ?j = exposure acct symb (Some s)" by (simp add: events_of_snoc s(1) del: events_of_append)
    ultimately show ?thesis using p(2) [of acct symb] IH(2) same
      by (simp add: algebra_simps)
  qed
  ultimately show ?case by simp
qed

text \<open>The stored orders of a faithful log give the positions, for any stream that keeps the order of
  each order's events.\<close>

lemma positions_of_core:
  assumes "core_ok c" "\<And>i. events_of i es = events_of i (concat (c_published c))"
  shows "net_position (foldl Project NewPositionReadModel es) acct symb =
    (\<Sum>i \<in> dom (repo_map (c_repo c)). exposure acct symb (repo_map (c_repo c) i))"
proof -
  have e: "entry_ok es i (repo_map (c_repo c) i)" for i
    using assms unfolding core_ok_def log_ok_def entry_ok_def by metis
  have r: "replay (events_of i es) = repo_map (c_repo c) i" for i
    using e [of i] by (auto simp: entry_ok_def split: option.splits)
  have n: "events_of i es = [] \<longleftrightarrow> repo_map (c_repo c) i = None" for i
    using e [of i] by (auto simp: entry_ok_def split: option.splits)
  then have "histories_ok es" unfolding histories_ok_def r by blast
  then have "net_position (foldl Project NewPositionReadModel es) acct symb =
      (\<Sum>i \<in> AggregateID ` set es. exposure acct symb (repo_map (c_repo c) i))"
    using log_positions [of es _ acct symb] unfolding r by blast
  also have "AggregateID ` set es = dom (repo_map (c_repo c))"
  proof -
    have "i \<in> AggregateID ` set es \<longleftrightarrow> events_of i es \<noteq> []" for i
      unfolding events_of_def filter_empty_conv by blast
    then show ?thesis using n by auto
  qed
  finally show ?thesis .
qed

subsection \<open>A bus without overlapping publishers\<close>

text \<open>Calls of the service that do not overlap publish one batch after the other.\<close>

inductive serial_reach :: "EventBus \<Rightarrow> bool" where
  start: "serial_reach NewEventBus"
| subscribe: "serial_reach b \<Longrightarrow> unlocked b \<Longrightarrow> serial_reach (Subscribe name b)"
| publish: "serial_reach b \<Longrightarrow> unlocked b \<Longrightarrow> serial_reach (Publish_start events b)"
| work: "serial_reach b \<Longrightarrow> work b b' \<Longrightarrow> serial_reach b'"

lemma serial_reach: "serial_reach b \<Longrightarrow> bus_reach b"
  by (induction rule: serial_reach.induct) (auto intro: bus_reach.intros bus_step.intros)

definition serial_inv :: "EventBus \<Rightarrow> bool" where
  "serial_inv b \<longleftrightarrow>
     (\<forall>j < length (publishers b). Suc j < length (publishers b) \<longrightarrow> returned (publishers b ! j)) \<and>
     (\<forall>s \<in> set (bus_subs b). sorted (map fst (sub_sent s)))"

lemma serial_work:
  assumes "work b b'" "serial_inv b" "bus_inv b"
  shows "serial_inv b'"
  using assms(1)
proof cases
  case (Send j p i e rest s)
  note d = bus_invD [OF assms(3)]
  have "pub_ok (length (bus_subs b)) p" using d(6) [of j] Send by simp
  then have i: "i < length (bus_subs b)" and nr: "\<not> returned p" using Send by (auto simp: pub_ok_def)
  have j: "Suc j = length (publishers b)" using assms(2) Send nr unfolding serial_inv_def by (metis Suc_lessI)
  have s: "s \<in> set (bus_subs b)" using i Send by auto
  then have "sorted (map fst (sub_sent s))" "\<forall>x \<in> set (sub_sent s). fst x < Suc j"
    using assms(2,3) j d(2) by (auto simp: serial_inv_def bus_inv_def)
  then have "sorted (map fst (sub_sent s @ [(j, e)]))" by (auto simp: sorted_append less_Suc_eq_le)
  moreover have "returned ((publishers b)[j := x] ! k)" if "Suc k < length (publishers b)" for k x
    using that j assms(2) by (auto simp: serial_inv_def nth_list_update)
  ultimately show ?thesis using assms(2) unfolding Send(1)
    by (auto simp: serial_inv_def set_pub_def set_sub_def dest!: set_update_subset_insert [THEN subsetD])
qed (use assms(2) in \<open>auto simp: serial_inv_def set_pub_def set_sub_def nth_list_update dest!: set_update_subset_insert [THEN subsetD]\<close>)

lemma serial_reach_inv: "serial_reach b \<Longrightarrow> serial_inv b"
proof (induction rule: serial_reach.induct)
  case (publish b events)
  then show ?case
    by (auto simp: serial_inv_def Publish_start_def unlocked_def nth_append)
next
  case (work b b')
  then show ?case using serial_work bus_reach_inv serial_reach by blast
qed (auto simp: serial_inv_def NewEventBus_def Subscribe_def new_sub_def)

lemma sorted_tags:
  "sorted (map fst xs) \<Longrightarrow> \<forall>x \<in> set xs. fst x < n \<Longrightarrow> xs = concat (map (\<lambda>j. filter (\<lambda>x. fst x = j) xs) [0..<n])"
proof (induction n arbitrary: xs)
  case (Suc n)
  let ?ys = "filter (\<lambda>x. fst x < n) xs"
  have split: "xs = ?ys @ filter (\<lambda>x. fst x = n) xs"
    using Suc.prems
  proof (induction xs)
    case (Cons x xs)
    show ?case
    proof (cases "fst x < n")
      case False
      then have "\<forall>y \<in> set (x # xs). fst y = n" using Cons.prems by (fastforce simp: less_Suc_eq)
      then show ?thesis by (simp add: filter_empty_conv filter_id_conv)
    qed (use Cons in simp)
  qed simp
  have "sorted (map fst ?ys)" using Suc.prems(1) by (simp add: sorted_filter)
  then have "?ys = concat (map (\<lambda>j. filter (\<lambda>x. fst x = j) ?ys) [0..<n])" by (rule Suc.IH) simp
  also have "map (\<lambda>j. filter (\<lambda>x. fst x = j) ?ys) [0..<n] = map (\<lambda>j. filter (\<lambda>x. fst x = j) xs) [0..<n]"
    by (auto intro!: filter_cong)
  finally show ?case using split by simp
next
  case 0
  then show ?case by (cases xs) auto
qed

text \<open>A drained bus has called a wildcard handler that was there from the start with everything
  that was published, in the order of publication.\<close>

lemma serial_delivery:
  assumes "serial_reach b" "i < length (bus_subs b)" "sub_name (bus_subs b ! i) = []" "sub_since (bus_subs b ! i) = 0"
    and "unlocked b" "inflight b = 0"
  shows "map snd (sub_handled (bus_subs b ! i)) = concat (published b)"
proof -
  let ?s = "bus_subs b ! i"
  have iv: "bus_inv b" using bus_reach_inv [OF serial_reach [OF assms(1)]] .
  note d = bus_invD [OF iv]
  have s: "?s \<in> set (bus_subs b)" using assms(2) by simp
  have "load ?s = 0" using inflight_zero [OF iv assms(6,2)] .
  then have h: "sub_sent ?s = sub_handled ?s" using idle_sub d(3) [OF assms(2)] by blast
  have tag: "map snd (filter (\<lambda>x. fst x = j) (sub_handled ?s)) = published b ! j" if "j < length (published b)" for j
  proof -
    have j: "j < length (publishers b)" using that d(2) by simp
    have "pub_ok (length (bus_subs b)) (publishers b ! j)" "returned (publishers b ! j)"
      using d(6) [OF j] assms(5) j by (simp_all add: unlocked_def)
    then have "pending_for i (publishers b ! j) = []" by (simp add: pub_ok_def pending_for_def)
    then have "sent_by j ?s = filter (wanted ?s) (published b ! j)"
      using d(8) [OF assms(2) j] assms(4) by (simp add: in_order_def)
    moreover have "filter (wanted ?s) es = es" for es using assms(3) by (simp add: wanted_def filter_True)
    ultimately show ?thesis using h by (simp add: sent_by_def)
  qed
  have "sorted (map fst (sub_handled ?s))" "\<forall>x \<in> set (sub_handled ?s). fst x < length (published b)"
    using serial_reach_inv [OF assms(1)] iv s h by (auto simp: serial_inv_def bus_inv_def)
  then have "map snd (sub_handled ?s) =
      map snd (concat (map (\<lambda>j. filter (\<lambda>x. fst x = j) (sub_handled ?s)) [0..<length (published b)]))"
    using sorted_tags by metis
  also have "\<dots> = concat (map (\<lambda>j. map snd (filter (\<lambda>x. fst x = j) (sub_handled ?s))) [0..<length (published b)])"
    by (simp add: map_concat comp_def)
  also have "map (\<lambda>j. map snd (filter (\<lambda>x. fst x = j) (sub_handled ?s))) [0..<length (published b)] = published b"
    using tag by (intro nth_equalityI) simp_all
  finally show ?thesis .
qed

text \<open>A bus whose wildcard subscription has seen all batches, with nothing left in flight.\<close>

definition drained_all :: "Event list list \<Rightarrow> EventBus \<Rightarrow> bool" where
  "drained_all ess b \<longleftrightarrow>
     serial_reach b \<and> bus_subs b \<noteq> [] \<and> sub_name (bus_subs b ! 0) = [] \<and> sub_since (bus_subs b ! 0) = 0 \<and>
     unlocked b \<and> inflight b = 0 \<and> \<not> bus_closed b \<and> published b = ess"

definition bus_frame :: "EventBus \<Rightarrow> (string \<times> nat) list \<times> bool \<times> Event list list" where
  "bus_frame b = (map (\<lambda>s. (sub_name s, sub_since s)) (bus_subs b), bus_closed b, published b)"

lemma map_update_same: "f y = f (xs ! i) \<Longrightarrow> map f (xs[i := y]) = map f xs"
  by (cases "i < length xs") (simp_all add: map_update list_update_same_conv list_update_beyond)

lemma work_frame: "work b b' \<Longrightarrow> bus_frame b' = bus_frame b"
  by (induction rule: work.induct) (simp_all add: bus_frame_def set_pub_def set_sub_def map_update_same)

lemma works_frame: "work\<^sup>*\<^sup>* b b' \<Longrightarrow> serial_reach b \<Longrightarrow> bus_frame b' = bus_frame b \<and> serial_reach b'"
  by (induction rule: rtranclp_induct) (auto dest: work_frame intro: serial_reach.work)

end
