(* ===== verification/GraphQL_Api.thy ===== *)
theory GraphQL_Api
  imports Read_Side
begin

section \<open>The GraphQL API (internal/graphqlapi/schema.go)\<close>

text \<open>
  The schema as data, and the resolvers over the service. What the GraphQL library does is not part
  of the model: a resolver gets the argument map the library built, and the documented promise of
  the library about that map is the predicate \<open>conforms\<close>, a hypothesis where it is needed. \<open>Api\<close>
  holds what a resolver reaches: the service, the read model behind its \<open>Positions\<close> query, and the
  request counter.
\<close>

subsection \<open>The schema\<close>

datatype gql_type =
  TString | TInt | TBoolean | TDateTime
| TNonNull gql_type
| TList gql_type
| TObject string

datatype gql_value = GString string | GInt int64 | GOther

record gql_arg =
  arg_type :: gql_type
  arg_default :: "gql_value option"

record gql_field =
  fld_type :: gql_type
  fld_args :: "(string \<times> gql_arg) list"

definition orderType :: "(string \<times> gql_type) list" where
  "orderType =
     [(''id'', TNonNull TString), (''accountId'', TString), (''symbol'', TString), (''side'', TString),
      (''orderType'', TString), (''tif'', TString), (''limitPrice'', TString), (''quantity'', TString),
      (''filledQty'', TString), (''avgFillPrice'', TString), (''status'', TString), (''version'', TInt),
      (''createdAt'', TDateTime), (''updatedAt'', TDateTime)]"

definition positionType :: "(string \<times> gql_type) list" where
  "positionType = [(''accountId'', TString), (''symbol'', TString), (''netQty'', TString), (''avgPrice'', TString)]"

definition placeResultType :: "(string \<times> gql_type) list" where
  "placeResultType = [(''orderId'', TString), (''status'', TString), (''idempotent'', TBoolean)]"

definition healthType :: "(string \<times> gql_type) list" where
  "healthType = [(''status'', TString), (''breaker'', TString)]"

definition required :: "gql_type \<Rightarrow> gql_arg" where
  "required t = \<lparr>arg_type = TNonNull t, arg_default = None\<rparr>"

definition query :: "(string \<times> gql_field) list" where
  "query =
     [(''health'', \<lparr>fld_type = TObject ''Health'', fld_args = []\<rparr>),
      (''order'', \<lparr>fld_type = TObject ''Order'', fld_args = [(''id'', required TString)]\<rparr>),
      (''orders'', \<lparr>fld_type = TList (TObject ''Order''),
         fld_args = [(''limit'', \<lparr>arg_type = TInt, arg_default = Some (GInt 50)\<rparr>)]\<rparr>),
      (''positions'', \<lparr>fld_type = TList (TObject ''Position''), fld_args = [(''accountId'', required TString)]\<rparr>)]"

definition mutation :: "(string \<times> gql_field) list" where
  "mutation =
     [(''placeOrder'', \<lparr>fld_type = TObject ''PlaceOrderResult'', fld_args =
         [(''accountId'', required TString), (''symbol'', required TString), (''side'', required TString),
          (''orderType'', required TString), (''tif'', \<lparr>arg_type = TString, arg_default = Some (GString ''DAY'')\<rparr>),
          (''quantity'', required TString), (''limitPrice'', \<lparr>arg_type = TString, arg_default = Some (GString [])\<rparr>),
          (''idempotencyKey'', \<lparr>arg_type = TString, arg_default = Some (GString [])\<rparr>)]\<rparr>),
      (''cancelOrder'', \<lparr>fld_type = TObject ''Order'', fld_args = [(''orderId'', required TString)]\<rparr>),
      (''applyFill'', \<lparr>fld_type = TObject ''Order'', fld_args =
         [(''orderId'', required TString), (''quantity'', required TString), (''price'', required TString)]\<rparr>)]"

text \<open>The library's constructor of a schema from the fields of its two root objects is a parameter.\<close>

definition NewSchema ::
  "((string \<times> gql_field) list \<Rightarrow> (string \<times> gql_field) list \<Rightarrow> 'schema result) \<Rightarrow> 'schema result" where
  "NewSchema graphql_NewSchema = graphql_NewSchema query mutation"

subsection \<open>Resolvers\<close>

type_synonym Args = "(string \<times> gql_value) list"

datatype response =
  RNull
| RHealth string string
| ROrder OrderView
| ROrders "OrderView list"
| RPositions "PositionView list"
| RPlaced PlaceOrderResult

record Api =
  api_world :: World
  api_positions :: PositionReadModel
  GraphQLRequests :: "string \<times> string \<Rightarrow> nat"

definition argString :: "Args \<Rightarrow> string \<Rightarrow> string" where
  "argString args name = (case map_of args name of Some (GString v) \<Rightarrow> v | _ \<Rightarrow> [])"

definition argInt :: "Args \<Rightarrow> string \<Rightarrow> int64" where
  "argInt args name = (case map_of args name of Some (GInt v) \<Rightarrow> v | _ \<Rightarrow> 0)"

definition track :: "string \<Rightarrow> (Api \<Rightarrow> response result \<times> Api) \<Rightarrow> Api \<Rightarrow> response result \<times> Api" where
  "track op fn a =
     (let (res, a) = fn a;
          result = (case res of Inl _ \<Rightarrow> ''error'' | Inr _ \<Rightarrow> ''ok'')
      in (res, a\<lparr>GraphQLRequests := (GraphQLRequests a)((op, result) := Suc (GraphQLRequests a (op, result)))\<rparr>))"

definition resolveHealth :: "Env \<Rightarrow> Api \<Rightarrow> response result \<times> Api" where
  "resolveHealth env =
     track ''health'' (\<lambda>a. let (st, w) = BreakerState env (api_world a)
                           in (Inr (RHealth ''ok'' st), a\<lparr>api_world := w\<rparr>))"

definition resolveOrder :: "Args \<Rightarrow> Api \<Rightarrow> response result \<times> Api" where
  "resolveOrder args =
     track ''order'' (\<lambda>a.
       (case GetOrder (argString args ''id'') (w_core (api_world a)) of
          Inl e \<Rightarrow> if e = ErrNotFound then Inr RNull else Inl e
        | Inr view \<Rightarrow> Inr (ROrder view), a))"

definition resolveOrders ::
  "(OrderSnapshot list \<Rightarrow> OrderSnapshot list) \<Rightarrow> Args \<Rightarrow> Api \<Rightarrow> response result \<times> Api" where
  "resolveOrders shuffle args =
     track ''orders'' (\<lambda>a.
       (bind_result (ListOrders shuffle (argInt args ''limit'') (w_core (api_world a))) (\<lambda>views. Inr (ROrders views)), a))"

definition resolvePositions ::
  "((string \<times> position) list \<Rightarrow> (string \<times> position) list) \<Rightarrow> Args \<Rightarrow> Api \<Rightarrow> response result \<times> Api" where
  "resolvePositions shuffle args =
     track ''positions'' (\<lambda>a.
       (bind_result (Service_Positions shuffle (api_positions a) (argString args ''accountId''))
          (\<lambda>rows. Inr (RPositions rows)), a))"

definition place_command :: "Args \<Rightarrow> PlaceOrderCommand" where
  "place_command args =
     \<lparr>pc_AccountID = argString args ''accountId'', pc_Symbol = argString args ''symbol'',
      pc_Side = argString args ''side'', pc_OrderType = argString args ''orderType'',
      pc_TIF = argString args ''tif'', pc_Quantity = argString args ''quantity'',
      pc_LimitPrice = argString args ''limitPrice'', pc_IdempotencyKey = argString args ''idempotencyKey''\<rparr>"

definition resolvePlaceOrder :: "Env \<Rightarrow> Args \<Rightarrow> Api \<Rightarrow> response result \<times> Api" where
  "resolvePlaceOrder env args =
     track ''placeOrder'' (\<lambda>a.
       let (res, w) = PlaceOrder env (place_command args) (api_world a)
       in (bind_result res (\<lambda>r. Inr (RPlaced r)), a\<lparr>api_world := w\<rparr>))"

definition set_core :: "Core \<Rightarrow> Api \<Rightarrow> Api" where
  "set_core c a = a\<lparr>api_world := (api_world a)\<lparr>w_core := c\<rparr>\<rparr>"

definition resolveCancelOrder :: "Env \<Rightarrow> Args \<Rightarrow> Api \<Rightarrow> response result \<times> Api" where
  "resolveCancelOrder env args =
     track ''cancelOrder'' (\<lambda>a.
       let i = argString args ''orderId'';
           (res, c) = CancelOrder env \<lparr>cc_OrderID = i\<rparr> (w_core (api_world a))
       in (case res of
             Inl e \<Rightarrow> Inl e
           | Inr _ \<Rightarrow> bind_result (GetOrder i c) (\<lambda>view. Inr (ROrder view)), set_core c a))"

definition resolveApplyFill :: "Env \<Rightarrow> Args \<Rightarrow> Api \<Rightarrow> response result \<times> Api" where
  "resolveApplyFill env args =
     track ''applyFill'' (\<lambda>a.
       let i = argString args ''orderId'';
           cmd = \<lparr>fc_OrderID = i, fc_Quantity = argString args ''quantity'', fc_Price = argString args ''price''\<rparr>;
           (res, c) = ApplyFill env cmd (w_core (api_world a))
       in (case res of
             Inl e \<Rightarrow> Inl e
           | Inr _ \<Rightarrow> bind_result (GetOrder i c) (\<lambda>view. Inr (ROrder view)), set_core c a))"


subsection \<open>Arguments and fields\<close>

text \<open>
  What the library promises about the argument map of a field: only declared arguments occur, each
  with a value of its declared type; a required argument is there, and one that is missing or null
  has its default.
\<close>

fun has_type :: "gql_type \<Rightarrow> gql_value \<Rightarrow> bool" where
  "has_type (TNonNull t) v = has_type t v"
| "has_type TString (GString _) = True"
| "has_type TInt (GInt _) = True"
| "has_type _ _ = False"

fun non_null :: "gql_type \<Rightarrow> bool" where
  "non_null (TNonNull _) = True"
| "non_null _ = False"

definition conforms :: "(string \<times> gql_arg) list \<Rightarrow> Args \<Rightarrow> bool" where
  "conforms decl args \<longleftrightarrow>
     list_all (\<lambda>(n, _). n \<in> set (map fst decl)) args \<and>
     list_all (\<lambda>(n, d). case map_of args n of
         None \<Rightarrow> \<not> non_null (arg_type d) \<and> arg_default d = None
       | Some v \<Rightarrow> has_type (arg_type d) v) decl"

text \<open>What arrives at a resolver: no lookup of a declared argument falls back to the empty string or zero.\<close>

definition arrives :: "Args \<Rightarrow> string \<times> gql_arg \<Rightarrow> bool" where
  "arrives args x =
     (case x of (n, d) \<Rightarrow>
        if arg_type d \<in> {TInt, TNonNull TInt} then map_of args n = Some (GInt (argInt args n))
        else map_of args n = Some (GString (argString args n)))"

definition plain_arg :: "string \<times> gql_arg \<Rightarrow> bool" where
  "plain_arg x =
     (case x of (n, d) \<Rightarrow>
        arg_type d \<in> {TString, TInt, TNonNull TString, TNonNull TInt} \<and>
        (non_null (arg_type d) \<or> arg_default d \<noteq> None))"

lemma conforms_arrives:
  assumes "conforms decl args" "plain_arg x" "x \<in> set decl"
  shows "arrives args x"
proof -
  obtain n d where x: "x = (n, d)" by fastforce
  have c: "case map_of args n of None \<Rightarrow> \<not> non_null (arg_type d) \<and> arg_default d = None
      | Some v \<Rightarrow> has_type (arg_type d) v"
    using assms(1,3) unfolding conforms_def x by (auto simp: list_all_iff)
  then obtain v where v: "map_of args n = Some v" "has_type (arg_type d) v"
    using assms(2) by (auto simp: plain_arg_def x split: option.splits)
  then show ?thesis
    using assms(2) by (cases v) (auto simp: arrives_def plain_arg_def x argString_def argInt_def)
qed

lemma conforms_values: "conforms decl args \<Longrightarrow> (n, d) \<in> set decl \<Longrightarrow> map_of args n = Some v \<Longrightarrow> has_type (arg_type d) v"
  by (fastforce simp: conforms_def list_all_iff)

lemma schema_plain: "list_all (\<lambda>(_, f). list_all plain_arg (fld_args f)) (query @ mutation)"
  by code_simp

text \<open>Which answers an object type or a list of objects admits; an object may be null.\<close>

fun response_fits :: "gql_type \<Rightarrow> response \<Rightarrow> bool" where
  "response_fits (TObject n) RNull = True"
| "response_fits (TObject n) (RHealth st br) = (n = ''Health'')"
| "response_fits (TObject n) (ROrder v) = (n = ''Order'')"
| "response_fits (TObject n) (RPlaced p) = (n = ''PlaceOrderResult'')"
| "response_fits (TList (TObject n)) (ROrders vs) = (n = ''Order'')"
| "response_fits (TList (TObject n)) (RPositions rows) = (n = ''Position'')"
| "response_fits _ _ = False"

text \<open>
  The names of the fields of the structs that the object types show, and Go's comparison of names
  regardless of case, by which the library's default resolver finds a field.
\<close>

definition OrderView_fields :: "string list" where
  "OrderView_fields =
     [''ID'', ''AccountID'', ''Symbol'', ''Side'', ''OrderType'', ''TIF'', ''LimitPrice'', ''Quantity'', ''FilledQty'',
      ''AvgFillPrice'', ''Status'', ''Version'', ''CreatedAt'', ''UpdatedAt'']"

definition PositionView_fields :: "string list" where
  "PositionView_fields = [''AccountID'', ''Symbol'', ''NetQty'', ''AvgPrice'']"

definition PlaceOrderResult_fields :: "string list" where
  "PlaceOrderResult_fields = [''OrderID'', ''Status'', ''Idempotent'']"

definition shows_struct :: "(string \<times> gql_type) list \<Rightarrow> string list \<Rightarrow> bool" where
  "shows_struct flds struct \<longleftrightarrow>
     (let names = map ToUpper struct in map (\<lambda>(n, _). ToUpper n) flds = names \<and> distinct names)"

lemma schema_shows:
  "shows_struct positionType PositionView_fields" "shows_struct placeResultType PlaceOrderResult_fields"
  "shows_struct orderType OrderView_fields"
  by code_simp+

subsection \<open>What the resolvers do\<close>

definition counted :: "string \<Rightarrow> Api \<Rightarrow> response result \<times> Api \<Rightarrow> bool" where
  "counted op a out \<longleftrightarrow>
     (let k = (op, if is_ok (fst out) then ''ok'' else ''error'')
      in GraphQLRequests (snd out) = (GraphQLRequests a)(k := Suc (GraphQLRequests a k)))"

lemma track_counted: "GraphQLRequests (snd (fn a)) = GraphQLRequests a \<Longrightarrow> counted op a (track op fn a)"
  by (auto simp: counted_def track_def Let_def case_prod_unfold split: sum.splits)

lemma track_sel [simp]: "fst (track op fn a) = fst (fn a)" "api_world (snd (track op fn a)) = api_world (snd (fn a))"
  by (simp_all add: track_def Let_def case_prod_unfold)

lemma set_core_sel [simp]:
  "w_core (api_world (set_core c a)) = c" "GraphQLRequests (set_core c a) = GraphQLRequests a"
  by (simp_all add: set_core_def)

text \<open>The answer of a mutation of one order, given that the command changed it by \<open>f\<close>.\<close>

definition answers :: "string \<Rightarrow> (Order \<Rightarrow> Order result) \<Rightarrow> Core \<Rightarrow> response result \<Rightarrow> Core \<Rightarrow> bool" where
  "answers i f c res c' \<longleftrightarrow>
     (case res of
        Inl e \<Rightarrow> c_repo c' = c_repo c \<and> c_published c' = c_published c
      | Inr r \<Rightarrow> \<exists>ord ord'. Get (c_repo c) i = Inr ord \<and> f ord = Inr ord' \<and> r = ROrder (viewFromOrder ord') \<and>
          GetOrder i c' = Inr (viewFromOrder ord'))"

lemma viewFromOrder_stored: "viewFromOrder (RehydrateOrder (Snapshot ord)) = viewFromOrder ord"
  by (simp add: viewFromOrder_def RehydrateOrder_def Snapshot_def)

lemma changes_order_answers:
  assumes "core_ok c" "core_ok (snd out)" "changes_order i f c out"
  shows "answers i f c (case fst out of Inl e \<Rightarrow> Inl e
      | Inr _ \<Rightarrow> bind_result (GetOrder i (snd out)) (\<lambda>view. Inr (ROrder view))) (snd out)"
proof (cases "fst out")
  case (Inl e)
  then show ?thesis using assms(3) by (auto simp: answers_def changes_order_def Let_def split: option.splits sum.splits)
next
  case (Inr u)
  then obtain s ord where s: "repo_map (c_repo c) i = Some s" "f (RehydrateOrder s) = Inr ord"
    "repo_map (c_repo (snd out)) i = Some (Snapshot ord)"
    using assms(3) by (auto simp: changes_order_def Let_def split: option.splits sum.splits)
  have "Get (c_repo c) i = Inr (RehydrateOrder s)" "GetOrder i (snd out) = Inr (viewFromOrder ord)"
    using s mem.get_eq [OF core_ok_repo [OF assms(1)], of i] mem.get_eq [OF core_ok_repo [OF assms(2)], of i]
    by (simp_all add: GetOrder_def viewFromOrder_stored)
  with s(2) Inr show ?thesis by (auto simp: answers_def)
qed

lemma evolves_ok: "evolves c c' \<Longrightarrow> core_ok c \<Longrightarrow> core_ok c'"
  by (simp add: evolves_def)

subsection \<open>Properties\<close>

text \<open>
  C23. A mutation of an order answers with the order as it is stored afterwards. In every reachable
  world \<open>cancelOrder\<close> and \<open>applyFill\<close> either return an error and leave the stored orders and the
  published events as they were, or return the view of the order that \<open>Cancel\<close> or \<open>Fill\<close> made of the
  stored one, which is what a query then returns. Each request is counted once, as ok or error.
\<close>

theorem mutations_answer_with_stored_order:
  assumes "svc_reachable env (api_world a)"
  shows "let c = w_core (api_world a); now = Clock_Now env (c_tick c); i = argString args ''orderId'';
             cancel = resolveCancelOrder env args a; fill = resolveApplyFill env args a
    in answers i (\<lambda>ord. Cancel ord now) c (fst cancel) (w_core (api_world (snd cancel))) \<and>
       answers i (\<lambda>ord. bind_result (ParseQuantity (argString args ''quantity'')) (\<lambda>q.
           bind_result (ParseMoney (argString args ''price'')) (\<lambda>px. Fill ord q px now)))
         c (fst fill) (w_core (api_world (snd fill))) \<and>
       counted ''cancelOrder'' a cancel \<and> counted ''applyFill'' a fill"
proof -
  let ?c = "w_core (api_world a)"
  let ?now = "Clock_Now env (c_tick ?c)" and ?i = "argString args ''orderId''"
  let ?fc = "\<lparr>fc_OrderID = ?i, fc_Quantity = argString args ''quantity'', fc_Price = argString args ''price''\<rparr>"
  have c: "core_ok ?c" by (rule world_core [OF reachable_ok [OF assms]])
  have "answers ?i (\<lambda>ord. Cancel ord ?now) ?c (fst (resolveCancelOrder env args a))
      (w_core (api_world (snd (resolveCancelOrder env args a))))"
  proof -
    have "changes_order ?i (\<lambda>ord. Cancel ord ?now) ?c (CancelOrder env \<lparr>cc_OrderID = ?i\<rparr> ?c)"
      using CancelOrder_changes [OF c, where cmd = "\<lparr>cc_OrderID = ?i\<rparr>" and env = env] by simp
    from changes_order_answers [OF c evolves_ok [OF CancelOrder_evolves c] this] show ?thesis
      by (simp add: resolveCancelOrder_def Let_def case_prod_unfold)
  qed
  moreover have "answers ?i (\<lambda>ord. bind_result (ParseQuantity (argString args ''quantity'')) (\<lambda>q.
           bind_result (ParseMoney (argString args ''price'')) (\<lambda>px. Fill ord q px ?now)))
      ?c (fst (resolveApplyFill env args a)) (w_core (api_world (snd (resolveApplyFill env args a))))"
  proof (cases "bind_result (ParseQuantity (fc_Quantity ?fc)) (\<lambda>q. bind_result (ParseMoney (fc_Price ?fc)) (\<lambda>px. Inr (q, px)))")
    case (Inl e)
    then show ?thesis
      using ApplyFill_changes [OF c, where cmd = ?fc and env = env]
      by (simp add: resolveApplyFill_def Let_def case_prod_unfold answers_def)
  next
    case (Inr qp)
    then obtain q px where q: "ParseQuantity (argString args ''quantity'') = Inr q" "ParseMoney (argString args ''price'') = Inr px"
      by (cases "ParseQuantity (fc_Quantity ?fc)"; cases "ParseMoney (fc_Price ?fc)") auto
    then have "changes_order ?i (\<lambda>ord. Fill ord q px ?now) ?c (ApplyFill env ?fc ?c)"
      using ApplyFill_changes [OF c, where cmd = ?fc and env = env] by simp
    from changes_order_answers [OF c evolves_ok [OF ApplyFill_evolves c] this] q show ?thesis
      by (simp add: resolveApplyFill_def Let_def case_prod_unfold)
  qed
  moreover have "counted ''cancelOrder'' a (resolveCancelOrder env args a)"
    unfolding resolveCancelOrder_def by (rule track_counted) (simp add: Let_def case_prod_unfold)
  moreover have "counted ''applyFill'' a (resolveApplyFill env args a)"
    unfolding resolveApplyFill_def by (rule track_counted) (simp add: Let_def case_prod_unfold)
  ultimately show ?thesis by (simp only: Let_def)
qed

definition demo_api :: Api where
  "demo_api = \<lparr>api_world = demo_placed, api_positions = NewPositionReadModel, GraphQLRequests = (\<lambda>_. 0)\<rparr>"

theorem mutations_answer_with_stored_order_witness:
  "answers ''ord-xx'' (\<lambda>ord. Cancel ord (Clock_Now demo_env (c_tick (w_core demo_placed)))) (w_core demo_placed)
     (fst (resolveCancelOrder demo_env [(''orderId'', GString ''ord-xx'')] demo_api))
     (w_core (api_world (snd (resolveCancelOrder demo_env [(''orderId'', GString ''ord-xx'')] demo_api))))"
  using mutations_answer_with_stored_order [of demo_env demo_api "[(''orderId'', GString ''ord-xx'')]"] demo_placed_reachable
  unfolding Let_def by (simp add: demo_api_def argString_def)

end
