(* ===== verification/System_Adapters.thy ===== *)
theory System_Adapters
  imports Ports
begin

section \<open>Host services (internal/adapters/system/system.go)\<close>

text \<open>
  The production adapters of the clock and of the id generator. What the host answers is a
  parameter, indexed by the question: \<open>wall\<close> is \<open>time.Now\<close>, \<open>uuid\<close> is \<open>uuid.NewString\<close> of the
  google/uuid package. \<open>UTC\<close> changes the location of a time and not the instant, and a \<open>Time\<close> of the
  model is the instant.
\<close>

definition system_Now :: "(nat \<Rightarrow> Time) \<Rightarrow> nat \<Rightarrow> Time" where
  "system_Now wall n = wall n"

definition system_NewID :: "(nat \<Rightarrow> string) \<Rightarrow> nat \<Rightarrow> string" where
  "system_NewID uuid n = ''ord-'' @ uuid n"

text \<open>The prefix keeps distinct ids distinct, so the generator keeps its contract over distinct UUIDs.\<close>

interpretation sys: id_generator inj system_NewID
  by unfold_locales (auto simp: system_NewID_def inj_def)

end
