(* ===== verification/Config_Env.thy ===== *)
theory Config_Env
  imports Go_Parse GraphQL_Api System_Adapters
begin

section \<open>Configuration and wiring (internal/config/config.go, cmd/tradedesk/main.go)\<close>

text \<open>
  The settings read from the environment, a function from names to values with the empty string for
  an unset variable, and the part of \<open>run\<close> that builds the service from them. \<open>NewOrderRepository\<close> may
  not return, so neither may \<open>run_service\<close>: \<open>None\<close> is a start that hangs, and \<open>Inl\<close> one that panics. The health probe takes the
  HTTP client's \<open>Get\<close> as a parameter. The rest of the process is in \<open>Process\<close>.
\<close>

subsection \<open>Settings\<close>

type_synonym Getenv = "string \<Rightarrow> string"

record EnvConfig =
  cfg_HTTPAddr :: string
  cfg_LogLevel :: string
  cfg_HTTPTimeout :: Duration
  cfg_RiskTimeout :: Duration
  cfg_RouteTimeout :: Duration
  cfg_ShutdownTimeout :: Duration
  cfg_RateLimitRPS :: float64
  cfg_RateLimitBurst :: int64
  cfg_BreakerFailures :: int64
  cfg_BreakerCooldown :: Duration
  cfg_RetryAttempts :: int64
  cfg_RepoShards :: int64
  cfg_AIProvider :: string

definition getEnv :: "Getenv \<Rightarrow> string \<Rightarrow> string \<Rightarrow> string" where
  "getEnv getenv key def = (let v = getenv key in if v \<noteq> [] then v else def)"

definition getEnvInt :: "Getenv \<Rightarrow> string \<Rightarrow> int64 \<Rightarrow> int64" where
  "getEnvInt getenv key def =
     (let v = getenv key in if v \<noteq> [] then (case Atoi v of Inr n \<Rightarrow> n | Inl _ \<Rightarrow> def) else def)"

definition getEnvFloat :: "Getenv \<Rightarrow> string \<Rightarrow> float64 \<Rightarrow> float64" where
  "getEnvFloat getenv key def =
     (let v = getenv key in if v \<noteq> [] then (case ParseFloat v of Inr f \<Rightarrow> f | Inl _ \<Rightarrow> def) else def)"

definition getEnvDuration :: "Getenv \<Rightarrow> string \<Rightarrow> Duration \<Rightarrow> Duration" where
  "getEnvDuration getenv key def =
     (let v = getenv key in if v \<noteq> [] then (case ParseDuration v of Inr d \<Rightarrow> d | Inl _ \<Rightarrow> def) else def)"

definition Load :: "Getenv \<Rightarrow> EnvConfig" where
  "Load getenv =
     \<lparr>cfg_HTTPAddr = getEnv getenv ''TRADEDESK_HTTP_ADDR'' '':8080'',
      cfg_LogLevel = getEnv getenv ''TRADEDESK_LOG_LEVEL'' ''info'',
      cfg_HTTPTimeout = getEnvDuration getenv ''TRADEDESK_HTTP_TIMEOUT'' (15 * Second),
      cfg_RiskTimeout = getEnvDuration getenv ''TRADEDESK_RISK_TIMEOUT'' (2 * Second),
      cfg_RouteTimeout = getEnvDuration getenv ''TRADEDESK_ROUTE_TIMEOUT'' (3 * Second),
      cfg_ShutdownTimeout = getEnvDuration getenv ''TRADEDESK_SHUTDOWN_TIMEOUT'' (10 * Second),
      cfg_RateLimitRPS = getEnvFloat getenv ''TRADEDESK_RATE_LIMIT_RPS'' (Fin 500),
      cfg_RateLimitBurst = getEnvInt getenv ''TRADEDESK_RATE_LIMIT_BURST'' 200,
      cfg_BreakerFailures = getEnvInt getenv ''TRADEDESK_BREAKER_FAILURES'' 5,
      cfg_BreakerCooldown = getEnvDuration getenv ''TRADEDESK_BREAKER_COOLDOWN'' (5 * Second),
      cfg_RetryAttempts = getEnvInt getenv ''TRADEDESK_RETRY_ATTEMPTS'' 3,
      cfg_RepoShards = getEnvInt getenv ''TRADEDESK_REPO_SHARDS'' 16,
      cfg_AIProvider = getEnv getenv ''TRADEDESK_AI_PROVIDER'' ''heuristic''\<rparr>"

subsection \<open>Building the service\<close>

definition app_config :: "EnvConfig \<Rightarrow> Config" where
  "app_config cfg =
     \<lparr>RiskTimeout = cfg_RiskTimeout cfg, RouteTimeout = cfg_RouteTimeout cfg,
      RetryAttempts = cfg_RetryAttempts cfg, RetryBase = 20 * Millisecond, RetryMax = 500 * Millisecond,
      RateLimitRPS = cfg_RateLimitRPS cfg, RateLimitBurst = cfg_RateLimitBurst cfg,
      BreakerFailures = cfg_BreakerFailures cfg, BreakerCooldown = cfg_BreakerCooldown cfg\<rparr>"

definition run_service :: "int \<Rightarrow> EnvConfig \<Rightarrow> Time \<Rightarrow> (World \<times> EventBus \<times> PositionReadModel) result option" where
  "run_service max_len cfg now =
     (case NewOrderRepository max_len (cfg_RepoShards cfg) of
        None \<Rightarrow> None
      | Some (Inl e) \<Rightarrow> Some (Inl e)
      | Some (Inr repo) \<Rightarrow>
          (let bus = SubscribeAll NewEventBus;
               venue = NewSimulatedVenue
           in Some (Inr (NewService (app_config cfg) now repo venue, bus, NewPositionReadModel))))"

text \<open>
  The environment of the service as \<open>run\<close> wires it: the risk gate is the heuristic analyser, the clock
  and the ids are those of the system adapters.
\<close>

definition run_env :: "(nat \<Rightarrow> Time) \<Rightarrow> (nat \<Rightarrow> string) \<Rightarrow> Env \<Rightarrow> Env" where
  "run_env wall uuid env =
     env\<lparr>Check := Heuristic_Check (NewHeuristicAnalyzer DefaultThresholds), Clock_Now := system_Now wall,
         NewID := system_NewID uuid\<rparr>"

text \<open>The level of the logger; slog numbers its levels debug, info, warn and error as -4, 0, 4 and 8.\<close>

definition logger_level :: "string \<Rightarrow> int" where
  "logger_level level =
     (if level = ''debug'' then - 4 else if level = ''warn'' then 4 else if level = ''error'' then 8 else 0)"

definition runHealthProbe :: "(string \<Rightarrow> int result) \<Rightarrow> string \<Rightarrow> int" where
  "runHealthProbe get addr =
     (let host = (if addr \<noteq> [] \<and> hd addr = CHR '':'' then ''127.0.0.1'' @ addr else addr)
      in case get (''http://'' @ host @ ''/healthz'') of
           Inl _ \<Rightarrow> 1
         | Inr statusCode \<Rightarrow> if statusCode \<noteq> 200 then 1 else 0)"

subsection \<open>Properties\<close>

text \<open>
  Settings are read as they are written. A duration variable that holds a whole number and a
  unit sets that many units, and an integer variable that holds a decimal numeral sets that number,
  as long as the value fits 64 bits; a variable that is unset, or holds a number that does not fit,
  leaves the default.
\<close>

theorem settings_read_as_written:
  assumes "digits s" "s \<noteq> []" "map_of unitMap u = Some k"
  shows "(digits_val 0 s * k < 2 ^ 63 \<longrightarrow> getenv key = s @ u \<longrightarrow>
      getEnvDuration getenv key dflt = word_of_int (digits_val 0 s * k)) \<and>
    (getenv key = s \<longrightarrow>
      getEnvInt getenv key def = (if digits_val 0 s < 2 ^ 63 then word_of_int (digits_val 0 s) else def)) \<and>
    (getenv key = [] \<longrightarrow> getEnvDuration getenv key dflt = dflt \<and> getEnvInt getenv key def = def)"
  using ParseDuration_literal [OF assms] ParseInt_digits [OF assms(1,2)] assms(2)
  by (auto simp: getEnvDuration_def getEnvInt_def Let_def Atoi_def split: sum.splits)

theorem settings_read_as_written_witness:
  "getEnvDuration (\<lambda>_. ''15s'') ''TRADEDESK_HTTP_TIMEOUT'' 0 = 15000000000"
proof -
  have "digits ''15''" "map_of unitMap ''s'' = Some 1000000000" "digits_val 0 ''15'' = 15" by code_simp+
  then show ?thesis using settings_read_as_written [of "''15''" "''s''" 1000000000 "\<lambda>_. ''15s''" "''TRADEDESK_HTTP_TIMEOUT''" 0 0]
    by simp
qed

text \<open>
  The service is built for every environment except one that asks for more than \<open>2 ^ 62\<close> shards, in a
  reachable state of the model, with an open, drained bus.
\<close>

lemma run_service_starts:
  "let n = sint (cfg_RepoShards (Load getenv)) in
   case run_service max_len (Load getenv) now of
     None \<Rightarrow> 2 ^ 62 < n
   | Some (Inl _) \<Rightarrow> n \<le> 2 ^ 62 \<and> (\<forall>k. n \<le> 2 ^ k \<longrightarrow> max_len < 2 ^ k)
   | Some (Inr (w, bus, rm)) \<Rightarrow>
       n \<le> 2 ^ 62 \<and> (\<exists>k. n \<le> 2 ^ k \<and> (\<forall>j. n \<le> 2 ^ j \<longrightarrow> k \<le> j) \<and> 2 ^ k \<le> max_len \<and> length (shards (c_repo (w_core w))) = 2 ^ k) \<and>
       svc_reachable (run_env wall uuid env) w \<and> repo_map (c_repo (w_core w)) = Map.empty \<and> v_routed (w_venue w) = [] \<and>
       drained_all (c_published (w_core w)) bus \<and> net_position rm acct symb = 0"
proof -
  let ?n = "cfg_RepoShards (Load getenv)"
  have bus: "drained_all [] (SubscribeAll NewEventBus)"
  proof -
    have "unlocked NewEventBus" by (simp add: unlocked_def NewEventBus_def)
    then have "serial_reach (SubscribeAll NewEventBus)"
      unfolding SubscribeAll_def by (intro serial_reach.subscribe serial_reach.start)
    then show ?thesis
      by (simp add: drained_all_def SubscribeAll_def Subscribe_def NewEventBus_def new_sub_def unlocked_def)
  qed
  have reach: "svc_reachable (run_env wall uuid env) (NewService (app_config (Load getenv)) now repo NewSimulatedVenue)"
    if "NewOrderRepository max_len ?n = Some (Inr repo)" for repo
    unfolding svc_reachable_def using that
    by (intro exI [of _ max_len] exI [of _ ?n])
      (metis SimulatedVenue.select_convs(3,4) NewSimulatedVenue_def run_cmds.simps(1) wired_def)
  have net: "net_position NewPositionReadModel acct symb = 0" by (simp add: net_position_def zero_position_def)
  note c = shard_count [where m = max_len and n = ?n]
  show ?thesis
  proof (cases "NewOrderRepository max_len ?n")
    case None
    then show ?thesis using c by (simp add: run_service_def Let_def)
  next
    case (Some res)
    show ?thesis
    proof (cases res)
      case (Inl e)
      obtain k where k: "sint ?n \<le> 2 ^ 62" "\<forall>j. sint ?n \<le> 2 ^ j \<longrightarrow> k \<le> j" "max_len < 2 ^ k" using c by (auto simp: Some Inl)
      have "max_len < 2 ^ j" if "sint ?n \<le> 2 ^ j" for j
      proof -
        have "(2 :: int) ^ k \<le> 2 ^ j" using k(2) that by (intro power_increasing) auto
        then show ?thesis using k(3) by linarith
      qed
      then show ?thesis using k(1) by (simp add: run_service_def Some Inl Let_def)
    next
      case (Inr repo)
      have "sint ?n \<le> 2 ^ 62" "\<exists>k. sint ?n \<le> 2 ^ k \<and> (\<forall>j. sint ?n \<le> 2 ^ j \<longrightarrow> k \<le> j) \<and> 2 ^ k \<le> max_len \<and> length (shards repo) = 2 ^ k" "repo_map repo = Map.empty"
        using c by (auto simp: Some Inr)
      then show ?thesis using bus reach [of repo] net
        by (simp add: run_service_def Some Inr Let_def NewService_def NewSimulatedVenue_def)
    qed
  qed
qed

end
