(* ===== verification/Live_System.thy ===== *)
theory Live_System
  imports Read_Side
begin

section \<open>The running system: service, bus and read model\<close>

text \<open>
  The composition that \<open>run\<close> wires: the service publishes to the bus, whose worker projects into the
  read model. A state is a world of the service and a state of the bus; calls of the service do not
  overlap, but the worker runs at any time. A call of \<open>Publish\<close> returns before the handler goes on,
  so the batches of one call follow each other.
\<close>

text \<open>
  A bus that carries some batches, published one after the other to the read model's subscription,
  with no publisher inside \<open>Publish\<close>. Events may still be queued.
\<close>

definition served :: "Event list list \<Rightarrow> EventBus \<Rightarrow> bool" where
  "served ess b \<longleftrightarrow>
     serial_reach b \<and> bus_subs b \<noteq> [] \<and> sub_name (bus_subs b ! 0) = [] \<and> sub_since (bus_subs b ! 0) = 0 \<and>
     unlocked b \<and> \<not> bus_closed b \<and> published b = ess"

lemma idle_no_work:
  assumes "bus_inv b" "unlocked b" "Wait b"
  shows "\<not> work b b'"
proof
  assume "work b b'"
  then show False
  proof cases
    case (Add j p)
    then have "returned p" "pub_ok (length (bus_subs b)) p" using bus_invD(6) [OF assms(1), of j] assms(2) by (auto simp: unlocked_def)
    with Add show False by (simp add: pub_ok_def)
  next
    case (Send j p i e rest s)
    then have "returned p" "pub_ok (length (bus_subs b)) p" using bus_invD(6) [OF assms(1), of j] assms(2) by (auto simp: unlocked_def)
    with Send show False by (simp add: pub_ok_def)
  next
    case (Return j p)
    then show False using assms(2) by (auto simp: unlocked_def)
  next
    case (Receive i s x q)
    then show False using inflight_zero [OF assms(1) assms(3) [unfolded Wait_def], of i] by (simp add: load_def)
  next
    case (Handled i s x)
    then show False using inflight_zero [OF assms(1) assms(3) [unfolded Wait_def], of i] by (simp add: load_def)
  qed
qed

lemma works_unlocked: "work\<^sup>*\<^sup>* b b' \<Longrightarrow> bus_reach b \<Longrightarrow> unlocked b \<Longrightarrow> unlocked b' \<and> bus_reach b'"
proof (induction rule: rtranclp_induct)
  case (step c d)
  then have u: "unlocked c" "bus_reach c" by simp_all
  note p = bus_invD(6) [OF bus_reach_inv [OF u(2)]]
  have "unlocked d" using step(2)
  proof cases
    case (Add j q)
    then show ?thesis using p [of j] u(1) by (auto simp: unlocked_def pub_ok_def)
  next
    case (Send j q i e rest s)
    then show ?thesis using p [of j] u(1) by (auto simp: unlocked_def pub_ok_def)
  next
    case (Return j q)
    then show ?thesis using u(1) by (auto simp: unlocked_def)
  qed (use u(1) in \<open>auto simp: unlocked_def set_sub_def\<close>)
  then show ?case using u(2) step(2) by (auto intro: bus_reach.step Worked)
qed simp

text \<open>What the steps of publishers and workers keep of the subscription and the log.\<close>

definition fed :: "Event list list \<Rightarrow> EventBus \<Rightarrow> bool" where
  "fed ess b \<longleftrightarrow>
     serial_reach b \<and> bus_subs b \<noteq> [] \<and> sub_name (bus_subs b ! 0) = [] \<and> sub_since (bus_subs b ! 0) = 0 \<and>
     \<not> bus_closed b \<and> published b = ess"

lemma served_fed: "served ess b \<longleftrightarrow> fed ess b \<and> unlocked b"
  by (auto simp: served_def fed_def)

lemma works_fed:
  assumes "work\<^sup>*\<^sup>* b b'" "fed ess b"
  shows "fed ess b'"
proof -
  have f: "bus_frame b' = bus_frame b" "serial_reach b'" using works_frame [OF assms(1)] assms(2) by (simp_all add: fed_def)
  then have m: "map (\<lambda>s. (sub_name s, sub_since s)) (bus_subs b') = map (\<lambda>s. (sub_name s, sub_since s)) (bus_subs b)"
    "bus_closed b' = bus_closed b" "published b' = published b" by (simp_all add: bus_frame_def)
  then have n: "bus_subs b' \<noteq> []" using assms(2) by (auto simp: fed_def)
  have "sub_name (bus_subs b' ! 0) = sub_name (bus_subs b ! 0)" "sub_since (bus_subs b' ! 0) = sub_since (bus_subs b ! 0)"
    using arg_cong [OF m(1), of "\<lambda>xs. xs ! 0"] n assms(2) by (simp_all add: fed_def)
  then show ?thesis using assms(2) f(2) m n by (simp add: fed_def)
qed

lemma works_served: "work\<^sup>*\<^sup>* b b' \<Longrightarrow> served ess b \<Longrightarrow> served ess b'"
  using works_fed works_unlocked serial_reach unfolding served_fed fed_def by blast

lemma served_drained: "served ess b \<Longrightarrow> Wait b \<Longrightarrow> drained_all ess b"
  by (simp add: served_def drained_all_def Wait_def)

subsection \<open>Calls\<close>

text \<open>
  The publications of one call: before each \<open>Publish\<close> and after the last one the previous publisher has
  returned; workers act in between.
\<close>

inductive relays :: "Event list list \<Rightarrow> EventBus \<Rightarrow> EventBus \<Rightarrow> bool" where
  finished: "work\<^sup>*\<^sup>* b b' \<Longrightarrow> unlocked b' \<Longrightarrow> relays [] b b'"
| batch: "work\<^sup>*\<^sup>* b b1 \<Longrightarrow> unlocked b1 \<Longrightarrow> relays ess (Publish_start es b1) b' \<Longrightarrow> relays (es # ess) b b'"

lemma publish_fed: "fed ess b \<Longrightarrow> unlocked b \<Longrightarrow> fed (ess @ [es]) (Publish_start es b)"
  using bus_pub.publish_log [of b es] bus_pub.publish_accepts [of b es]
  by (simp add: fed_def serial_reach.publish) (simp add: Publish_start_def)

lemma relays_served: "relays new b b' \<Longrightarrow> fed ess b \<Longrightarrow> served (ess @ new) b'"
proof (induction new b b' arbitrary: ess rule: relays.induct)
  case (finished b b')
  then show ?case using works_fed by (simp add: served_fed)
next
  case (batch b b1 new es b')
  then have "fed (ess @ [es]) (Publish_start es b1)" using works_fed publish_fed by blast
  from batch.IH [OF this] show ?case by simp
qed

text \<open>Every call can be relayed: the bus never keeps a publisher waiting for good.\<close>

lemma relays_exists: "fed ess b \<Longrightarrow> \<exists>b'. relays new b b'"
proof (induction new arbitrary: ess b)
  case Nil
  then have "bus_inv b" using bus_reach_inv serial_reach by (auto simp: fed_def)
  then show ?case using work_drains relays.finished by blast
next
  case (Cons es new)
  then have "bus_inv b" using bus_reach_inv serial_reach by (auto simp: fed_def)
  then obtain b1 where "work\<^sup>*\<^sup>* b b1" "unlocked b1" using work_drains by blast
  then show ?case using Cons.IH [OF publish_fed [OF works_fed]] Cons.prems relays.batch by blast
qed

inductive live :: "Env \<Rightarrow> World \<Rightarrow> EventBus \<Rightarrow> bool" for env where
  start: "NewOrderRepository m n = Some (Inr repo) \<Longrightarrow> wired env venue \<Longrightarrow>
    live env (NewService cfg now repo venue) (SubscribeAll NewEventBus)"
| call: "live env w b \<Longrightarrow> c_published (w_core (svc_step env w cmd)) = c_published (w_core w) @ new \<Longrightarrow> relays new b b' \<Longrightarrow>
    live env (svc_step env w cmd) b'"
| work: "live env w b \<Longrightarrow> work b b' \<Longrightarrow> live env w b'"

lemma live_works: "work\<^sup>*\<^sup>* b b' \<Longrightarrow> live env w b \<Longrightarrow> live env w b'"
  by (induction rule: rtranclp_induct) (auto intro: live.work)

lemma start_served: "served [] (SubscribeAll NewEventBus)"
proof -
  have "unlocked NewEventBus" by (simp add: unlocked_def NewEventBus_def)
  then have "serial_reach (SubscribeAll NewEventBus)"
    unfolding SubscribeAll_def by (intro serial_reach.subscribe serial_reach.start)
  then show ?thesis
    by (simp add: served_def SubscribeAll_def Subscribe_def NewEventBus_def new_sub_def unlocked_def)
qed

lemma live_served: "live env w b \<Longrightarrow> svc_reachable env w \<and> served (c_published (w_core w)) b"
proof (induction rule: live.induct)
  case (start m n repo venue cfg now)
  then have "svc_reachable env (NewService cfg now repo venue)"
    unfolding svc_reachable_def by (metis run_cmds.simps(1))
  then show ?case using start_served by (simp add: NewService_def)
next
  case (call w b cmd new b')
  then have "svc_reachable env (svc_step env w cmd)" using reachable_run [of env w "[cmd]"] by (simp only: run_step)
  moreover have "served (c_published (w_core w) @ new) b'"
    using call.IH by (intro relays_served [OF call.hyps(3)]) (simp add: served_fed)
  ultimately show ?case using call.hyps(2) by (simp only:)
next
  case (work w b b')
  then show ?case using works_served [of b b'] by blast
qed

text \<open>A call goes through in every state of the running system.\<close>

lemma live_call:
  assumes "live env w b"
  shows "\<exists>b'. live env (svc_step env w cmd) b'"
proof -
  have r: "svc_reachable env w" "served (c_published (w_core w)) b" using live_served [OF assms] by blast+
  have "prefix (c_published (w_core w)) (c_published (w_core (svc_step env w cmd)))"
    using svc_step_ok [OF reachable_ok [OF r(1)], of cmd] by (simp add: world_rel_def)
  then obtain new where n: "c_published (w_core (svc_step env w cmd)) = c_published (w_core w) @ new"
    by (auto simp: prefix_def)
  obtain b' where "relays new b b'" using relays_exists r(2) unfolding served_fed by blast
  with assms n show ?thesis by (blast intro: live.call)
qed

lemma live_exists: "live env w b \<Longrightarrow> \<exists>b'. live env (run_cmds (svc_exec env) w cmds) b'"
proof (induction cmds arbitrary: w b)
  case (Cons cmd cmds)
  obtain b1 where "live env (svc_step env w cmd) b1" using live_call [OF Cons.prems] by blast
  from Cons.IH [OF this] show ?case by (simp add: run_cmd_def svc_exec_def)
qed auto

text \<open>Once the bus has nothing in flight, the read model holds the positions of the stored orders.\<close>

lemma drained_positions:
  assumes "svc_reachable env w" "drained_all (c_published (w_core w)) b"
  shows "map snd (sub_handled (bus_subs b ! 0)) = concat (c_published (w_core w))"
    "net_position (foldl Project NewPositionReadModel (map snd (sub_handled (bus_subs b ! 0)))) acct symb =
      (\<Sum>i \<in> dom (repo_map (c_repo (w_core w))). exposure acct symb (repo_map (c_repo (w_core w)) i))"
proof -
  show h: "map snd (sub_handled (bus_subs b ! 0)) = concat (c_published (w_core w))"
    using serial_delivery [of b 0] assms(2) by (simp add: drained_all_def)
  with positions_of_core [OF world_core [OF reachable_ok [OF assms(1)]]]
  show "net_position (foldl Project NewPositionReadModel (map snd (sub_handled (bus_subs b ! 0)))) acct symb =
      (\<Sum>i \<in> dom (repo_map (c_repo (w_core w))). exposure acct symb (repo_map (c_repo (w_core w)) i))" by simp
qed

lemma live_positions:
  assumes "live env w b" "work\<^sup>*\<^sup>* b b'" "Wait b'"
  shows "map snd (sub_handled (bus_subs b' ! 0)) = concat (c_published (w_core w))"
    "net_position (foldl Project NewPositionReadModel (map snd (sub_handled (bus_subs b' ! 0)))) acct symb =
      (\<Sum>i \<in> dom (repo_map (c_repo (w_core w))). exposure acct symb (repo_map (c_repo (w_core w)) i))"
  using live_served [OF assms(1)] drained_positions served_drained [OF works_served [OF assms(2)] assms(3)] by blast+

lemma live_drains: "live env w b \<Longrightarrow> \<exists>b'. work\<^sup>*\<^sup>* b b' \<and> Wait b'"
  using live_served [of env w b] work_drains [of b] bus_reach_inv serial_reach unfolding served_def Wait_def by blast

lemma demo_live: "\<exists>b. live demo_env demo_placed b"
proof -
  have "live demo_env demo_start (SubscribeAll NewEventBus)" unfolding demo_start_def
    by (rule live.start [OF sample_repo]) (simp add: wired_def demo_venue_def FailNext_def SetAutofill_def NewSimulatedVenue_def)
  from live_exists [OF this, of "[SPlace demo_buy]"] show ?thesis by (simp add: run_step demo_placed_def del: run_cmds.simps)
qed

end
