(* ===== verification/Http_Server.thy ===== *)
theory Http_Server
  imports Go_Strings "HOL-Library.AList"
begin

section \<open>The HTTP server (internal/graphqlapi/server.go)\<close>

text \<open>
  The handlers of the server over a small model of net/http: a handler gets a request, the state
  \<open>'s\<close> of the application and the response written so far, and returns or panics with the state and
  the response it leaves. The GraphQL handler and the metrics handler are built by third-party
  packages: their constructors are parameters, so they may write anything, change the application
  and panic. How the multiplexer answers a path that is not in clean form (a redirect) is a parameter
  too.
\<close>

subsection \<open>Responses\<close>

record Request =
  r_Method :: string
  r_Path :: string

type_synonym Header = "(string \<times> string) list"

text \<open>
  \<open>rw_header\<close> is the header map the handler may still change, \<open>rw_sent\<close> the copy that went out with
  the status. A second \<open>WriteHeader\<close> is ignored, and a \<open>Write\<close> without one sends status 200. The
  server only sends 200, 404 and 500 itself; informational responses, the body that net/http leaves
  out for HEAD and for some statuses, and the headers that it adds are not part of the model.
\<close>

record ResponseWriter =
  rw_header :: Header
  rw_status :: "int option"
  rw_sent :: Header
  rw_body :: string

definition new_response :: ResponseWriter where
  "new_response = \<lparr>rw_header = [], rw_status = None, rw_sent = [], rw_body = []\<rparr>"

definition Header_Set :: "string \<Rightarrow> string \<Rightarrow> ResponseWriter \<Rightarrow> ResponseWriter" where
  "Header_Set key v w = w\<lparr>rw_header := AList.update key v (rw_header w)\<rparr>"

definition WriteHeader :: "int \<Rightarrow> ResponseWriter \<Rightarrow> ResponseWriter" where
  "WriteHeader code w =
     (if rw_status w = None then w\<lparr>rw_status := Some code, rw_sent := rw_header w\<rparr> else w)"

definition Write :: "string \<Rightarrow> ResponseWriter \<Rightarrow> ResponseWriter" where
  "Write bytes w = (let w = WriteHeader 200 w in w\<lparr>rw_body := rw_body w @ bytes\<rparr>)"

text \<open>
  The JSON encoder on a map from ASCII strings to ASCII strings, given in the order of its keys, with
  the escapes of encoding/json and the newline that \<open>Encode\<close> appends.
\<close>

definition hex_digit :: "nat \<Rightarrow> char" where
  "hex_digit n = ''0123456789abcdef'' ! n"

definition json_char :: "char \<Rightarrow> string" where
  "json_char c =
     (let n = (of_char c :: nat); esc = CHR 0x5C in
      if n = 0x22 \<or> n = 0x5C then [esc, c]
      else if n = 8 then [esc, CHR ''b''] else if n = 12 then [esc, CHR ''f'']
      else if n = 10 then [esc, CHR ''n''] else if n = 13 then [esc, CHR ''r''] else if n = 9 then [esc, CHR ''t'']
      else if n < 0x20 \<or> c = CHR ''<'' \<or> c = CHR ''>'' \<or> c = CHR 0x26
      then esc # ''u00'' @ [hex_digit (n div 16), hex_digit (n mod 16)]
      else [c])"

definition json_string :: "string \<Rightarrow> string" where
  "json_string s = CHR 0x22 # concat (map json_char s) @ [CHR 0x22]"

fun json_fields :: "(string \<times> string) list \<Rightarrow> string" where
  "json_fields [] = []"
| "json_fields [(k, v)] = json_string k @ '':'' @ json_string v"
| "json_fields ((k, v) # kvs) = json_string k @ '':'' @ json_string v @ '','' @ json_fields kvs"

definition Encode :: "(string \<times> string) list \<Rightarrow> string" where
  "Encode body = ''{'' @ json_fields body @ ''}'' @ [CHR 0x0A]"

definition writeJSON :: "int \<Rightarrow> (string \<times> string) list \<Rightarrow> ResponseWriter \<Rightarrow> ResponseWriter" where
  "writeJSON status body w =
     (let w = Header_Set ''Content-Type'' ''application/json'' w;
          w = WriteHeader status w
      in Write (Encode body) w)"

subsection \<open>Handlers\<close>

datatype 'a run = Returns 'a | Panics 'a

type_synonym 's Handler = "Request \<Rightarrow> 's \<times> ResponseWriter \<Rightarrow> ('s \<times> ResponseWriter) run"

definition recoverMiddleware :: "'s Handler \<Rightarrow> 's Handler" where
  "recoverMiddleware nxt r sw =
     (case nxt r sw of
        Returns sw \<Rightarrow> Returns sw
      | Panics (s, w) \<Rightarrow> Returns (s, writeJSON 500 [(''error'', ''internal error'')] w))"

definition healthz :: "'s Handler" where
  "healthz r = (\<lambda>(s, w). Returns (s, writeJSON 200 [(''status'', ''alive'')] w))"

definition readyz :: "'s Handler" where
  "readyz r = (\<lambda>(s, w). Returns (s, writeJSON 200 [(''status'', ''ready'')] w))"

text \<open>
  The multiplexer: the registered patterns have no trailing slash, no method and no host, so a clean
  path matches the pattern that equals it, or nothing.
\<close>

definition NotFound :: "'s Handler" where
  "NotFound r = (\<lambda>(s, w).
     (let w = Header_Set ''Content-Type'' ''text/plain; charset=utf-8'' w;
          w = Header_Set ''X-Content-Type-Options'' ''nosniff'' w;
          w = WriteHeader 404 w
      in Returns (s, Write (''404 page not found'' @ [CHR 0x0A]) w)))"

fun segments :: "string \<Rightarrow> string \<Rightarrow> string list" where
  "segments acc [] = [rev acc]"
| "segments acc (c # cs) = (if c = CHR ''/'' then rev acc # segments [] cs else segments (c # acc) cs)"

fun clean_segments :: "string list \<Rightarrow> string list \<Rightarrow> string list" where
  "clean_segments acc [] = rev acc"
| "clean_segments acc (x # xs) =
     (if x = [] \<or> x = ''.'' then clean_segments acc xs
      else if x = ''..'' then clean_segments (tl acc) xs
      else clean_segments (x # acc) xs)"

definition path_Clean :: "string \<Rightarrow> string" where
  "path_Clean p =
     (let segs = clean_segments [] (segments [] p)
      in if segs = [] then ''/'' else concat (map (\<lambda>x. CHR ''/'' # x) segs))"

definition cleanPath :: "string \<Rightarrow> string" where
  "cleanPath p =
     (if p = [] then ''/''
      else (let p = (if hd p \<noteq> CHR ''/'' then CHR ''/'' # p else p);
                np = path_Clean p
            in if last p = CHR ''/'' \<and> np \<noteq> ''/'' then np @ ''/'' else np))"

definition ServeMux :: "(string \<times> 's Handler) list \<Rightarrow> 's Handler \<Rightarrow> 's Handler" where
  "ServeMux routes unclean r sw =
     (if cleanPath (r_Path r) \<noteq> r_Path r then unclean r sw
      else (case map_of routes (r_Path r) of Some h \<Rightarrow> h r sw | None \<Rightarrow> NotFound r sw))"

subsection \<open>The server\<close>

record HandlerConfig =
  hc_Pretty :: bool
  hc_GraphiQL :: bool
  hc_Playground :: bool

record 's Server =
  srv_Addr :: string
  srv_Handler :: "'s Handler"
  srv_ReadHeaderTimeout :: Duration
  srv_ReadTimeout :: Duration
  srv_WriteTimeout :: Duration
  srv_IdleTimeout :: Duration

text \<open>What the server takes from third-party packages: the handlers' constructors.\<close>

record ('schema, 'reg, 's) Libraries =
  handler_New :: "'schema \<Rightarrow> HandlerConfig \<Rightarrow> 's Handler"
  promhttp_HandlerFor :: "'reg \<Rightarrow> 's Handler"
  mux_unclean :: "'s Handler"

definition server_mux :: "('schema, 'reg, 's) Libraries \<Rightarrow> 'schema \<Rightarrow> 'reg \<Rightarrow> 's Handler" where
  "server_mux libs schema reg =
     (let gqlHandler = handler_New libs schema \<lparr>hc_Pretty = True, hc_GraphiQL = True, hc_Playground = False\<rparr>
      in ServeMux
           [(''/graphql'', gqlHandler), (''/metrics'', promhttp_HandlerFor libs reg),
            (''/healthz'', healthz), (''/readyz'', readyz)]
           (mux_unclean libs))"

definition NewHTTPServer ::
  "('schema, 'reg, 's) Libraries \<Rightarrow> string \<Rightarrow> 'schema \<Rightarrow> 'reg \<Rightarrow> Duration \<Rightarrow> 's Server" where
  "NewHTTPServer libs addr schema reg timeout =
     \<lparr>srv_Addr = addr, srv_Handler = recoverMiddleware (server_mux libs schema reg),
      srv_ReadHeaderTimeout = timeout, srv_ReadTimeout = timeout,
      srv_WriteTimeout = 2 * timeout, srv_IdleTimeout = 4 * timeout\<rparr>"

text \<open>
  What a client gets: net/http runs the handler on a fresh response and completes it with status 200
  if nothing was written; after a panic it drops the connection and the client gets nothing.
\<close>

definition serve :: "'s Server \<Rightarrow> Request \<Rightarrow> 's \<Rightarrow> 's \<times> ResponseWriter option" where
  "serve srv r s =
     (case srv_Handler srv r (s, new_response) of
        Returns (s, w) \<Rightarrow> (s, Some (WriteHeader 200 w))
      | Panics (s, w) \<Rightarrow> (s, None))"

subsection \<open>Properties\<close>

lemma writeJSON_sel:
  "rw_status (writeJSON st body w) = (if rw_status w = None then Some st else rw_status w)"
  "rw_body (writeJSON st body w) = rw_body w @ Encode body"
  "rw_sent (writeJSON st body w) =
     (if rw_status w = None then AList.update ''Content-Type'' ''application/json'' (rw_header w) else rw_sent w)"
  by (simp_all add: writeJSON_def Let_def Write_def WriteHeader_def Header_Set_def)

lemma WriteHeader_done: "rw_status w = Some c \<Longrightarrow> WriteHeader code w = w"
  by (simp add: WriteHeader_def)

text \<open>
  C25. A panic is contained. Whatever the GraphQL, metrics and redirect handlers do, every request
  gets a response, and the application keeps the state its handler left. If the handler returned,
  the response is its own. If it panicked before it wrote a status, the client gets status 500 as
  JSON with the error text after anything written. If it panicked later, the status and headers it
  had sent stay as they are and the error text is appended to the body.
\<close>

theorem panics_are_contained:
  "case server_mux libs schema reg r (s, new_response) of
     Returns (s', w) \<Rightarrow> serve (NewHTTPServer libs addr schema reg timeout) r s = (s', Some (WriteHeader 200 w))
   | Panics (s', w) \<Rightarrow>
       (\<exists>resp. serve (NewHTTPServer libs addr schema reg timeout) r s = (s', Some resp) \<and>
          rw_body resp = rw_body w @ Encode [(''error'', ''internal error'')] \<and>
          (case rw_status w of
             None \<Rightarrow> rw_status resp = Some 500 \<and> map_of (rw_sent resp) ''Content-Type'' = Some ''application/json''
           | Some code \<Rightarrow> rw_status resp = Some code \<and> rw_sent resp = rw_sent w))"
  by (auto simp: serve_def NewHTTPServer_def recoverMiddleware_def writeJSON_sel update_conv' WriteHeader_done
      split: run.split option.split)

lemma health_responses:
  "\<exists>resp. serve (NewHTTPServer libs addr schema reg timeout) \<lparr>r_Method = m, r_Path = ''/healthz''\<rparr> s = (s, Some resp) \<and>
      rw_status resp = Some 200 \<and> rw_sent resp = [(''Content-Type'', ''application/json'')] \<and>
      rw_body resp = Encode [(''status'', ''alive'')]"
  "\<exists>resp. serve (NewHTTPServer libs addr schema reg timeout) \<lparr>r_Method = m, r_Path = ''/readyz''\<rparr> s = (s, Some resp) \<and>
      rw_status resp = Some 200 \<and> rw_sent resp = [(''Content-Type'', ''application/json'')] \<and>
      rw_body resp = Encode [(''status'', ''ready'')]"
proof -
  have "cleanPath ''/healthz'' = ''/healthz''" "cleanPath ''/readyz'' = ''/readyz''" by code_simp+
  note defs = this serve_def NewHTTPServer_def recoverMiddleware_def server_mux_def ServeMux_def healthz_def readyz_def
    writeJSON_sel WriteHeader_done new_response_def
  show "\<exists>resp. serve (NewHTTPServer libs addr schema reg timeout) \<lparr>r_Method = m, r_Path = ''/healthz''\<rparr> s = (s, Some resp) \<and>
      rw_status resp = Some 200 \<and> rw_sent resp = [(''Content-Type'', ''application/json'')] \<and>
      rw_body resp = Encode [(''status'', ''alive'')]"
    by (simp add: defs)
  show "\<exists>resp. serve (NewHTTPServer libs addr schema reg timeout) \<lparr>r_Method = m, r_Path = ''/readyz''\<rparr> s = (s, Some resp) \<and>
      rw_status resp = Some 200 \<and> rw_sent resp = [(''Content-Type'', ''application/json'')] \<and>
      rw_body resp = Encode [(''status'', ''ready'')]"
    by (simp add: defs)
qed

text \<open>
  The health endpoints answer whatever the rest of the server does: a request for \<open>/healthz\<close> or
  \<open>/readyz\<close>, with any method, gets status 200 and a JSON body that names the state, and leaves the
  application as it is; a clean path that is not one of the four routes gets 404.
\<close>

theorem health_endpoints:
  "(\<exists>resp. serve (NewHTTPServer libs addr schema reg timeout) \<lparr>r_Method = m, r_Path = ''/healthz''\<rparr> s = (s, Some resp) \<and>
      rw_status resp = Some 200 \<and> rw_sent resp = [(''Content-Type'', ''application/json'')] \<and>
      rw_body resp = Encode [(''status'', ''alive'')]) \<and>
   (\<exists>resp. serve (NewHTTPServer libs addr schema reg timeout) \<lparr>r_Method = m, r_Path = ''/readyz''\<rparr> s = (s, Some resp) \<and>
      rw_status resp = Some 200 \<and> rw_sent resp = [(''Content-Type'', ''application/json'')] \<and>
      rw_body resp = Encode [(''status'', ''ready'')]) \<and>
   (cleanPath p = p \<and> p \<notin> {''/graphql'', ''/metrics'', ''/healthz'', ''/readyz''} \<longrightarrow>
      map_option rw_status (snd (serve (NewHTTPServer libs addr schema reg timeout) \<lparr>r_Method = m, r_Path = p\<rparr> s)) =
        Some (Some 404))"
proof (intro conjI impI)
  show "map_option rw_status (snd (serve (NewHTTPServer libs addr schema reg timeout) \<lparr>r_Method = m, r_Path = p\<rparr> s)) =
        Some (Some 404)"
    if "cleanPath p = p \<and> p \<notin> {''/graphql'', ''/metrics'', ''/healthz'', ''/readyz''}"
    using that by (simp add: serve_def NewHTTPServer_def recoverMiddleware_def server_mux_def ServeMux_def NotFound_def
        Let_def Write_def WriteHeader_def Header_Set_def new_response_def)
qed (fact health_responses)+

text \<open>A metrics handler that panics half way, for the witness.\<close>

definition sample_libs :: "(unit, 'reg, nat) Libraries" where
  "sample_libs =
     \<lparr>handler_New = (\<lambda>_ _ _ (s, w). Panics (s + 1, w)), promhttp_HandlerFor = (\<lambda>_ _ (s, w). Panics (s, Write ''# HELP'' w)),
      mux_unclean = (\<lambda>_ (s, w). Returns (s, WriteHeader 301 w))\<rparr>"

theorem health_endpoints_witness:
  "map_option rw_status (snd (serve (NewHTTPServer sample_libs '':8080'' () () Second) \<lparr>r_Method = ''GET'', r_Path = ''/favicon.ico''\<rparr> 7)) =
     Some (Some 404)"
proof -
  have "cleanPath ''/favicon.ico'' = ''/favicon.ico''" by code_simp
  then show ?thesis using health_endpoints [of sample_libs "'':8080''" "()" "()" Second "''GET''" 7 "''/favicon.ico''"] by simp
qed

text \<open>The two ways a panic ends, computed: a plain 500, and a response that stays 200.\<close>

lemma panic_samples:
  "map_option rw_status (snd (serve (NewHTTPServer sample_libs '':8080'' () () Second) \<lparr>r_Method = ''POST'', r_Path = ''/graphql''\<rparr> 7)) =
     Some (Some 500)"
  "map_option rw_status (snd (serve (NewHTTPServer sample_libs '':8080'' () () Second) \<lparr>r_Method = ''GET'', r_Path = ''/metrics''\<rparr> 7)) =
     Some (Some 200)"
  by code_simp+

end
