(* ===== verification/Observability.thy ===== *)
theory Observability
  imports Service
begin

section \<open>Instruments (internal/observability/metrics.go)\<close>

text \<open>
  The instruments that \<open>NewMetrics\<close> creates and registers, as data: kind, name, help text and label
  names. Their values are the records \<open>Metrics\<close> of the service and the request counter of the GraphQL
  API; the registry of the Prometheus client is a parameter, a function that takes the instruments
  one by one and may refuse one. \<open>MustRegister\<close> panics at the first refusal, which is \<open>None\<close>.
\<close>

datatype instrument_kind = Counter | CounterVec | Histogram

record instrument =
  in_kind :: instrument_kind
  in_name :: string
  in_help :: string
  in_labels :: "string list"

definition OrdersPlaced_desc :: instrument where
  "OrdersPlaced_desc =
     \<lparr>in_kind = CounterVec, in_name = ''tradedesk_orders_placed_total'',
      in_help = ''Orders placed, labelled by resulting status.'', in_labels = [''status'']\<rparr>"

definition OrdersFilled_desc :: instrument where
  "OrdersFilled_desc =
     \<lparr>in_kind = Counter, in_name = ''tradedesk_orders_filled_total'',
      in_help = ''Orders that reached the FILLED state.'', in_labels = []\<rparr>"

definition OrdersCanceled_desc :: instrument where
  "OrdersCanceled_desc =
     \<lparr>in_kind = Counter, in_name = ''tradedesk_orders_canceled_total'',
      in_help = ''Orders that were cancelled.'', in_labels = []\<rparr>"

definition RiskChecks_desc :: instrument where
  "RiskChecks_desc =
     \<lparr>in_kind = CounterVec, in_name = ''tradedesk_risk_checks_total'',
      in_help = ''Pre-trade risk checks, labelled by outcome.'', in_labels = [''outcome'']\<rparr>"

definition RouteFailures_desc :: instrument where
  "RouteFailures_desc =
     \<lparr>in_kind = Counter, in_name = ''tradedesk_route_failures_total'',
      in_help = ''Venue routing failures after retries.'', in_labels = []\<rparr>"

definition GraphQLRequests_desc :: instrument where
  "GraphQLRequests_desc =
     \<lparr>in_kind = CounterVec, in_name = ''tradedesk_graphql_requests_total'',
      in_help = ''GraphQL operations, labelled by operation and result.'', in_labels = [''operation'', ''result'']\<rparr>"

definition PlaceLatency_desc :: instrument where
  "PlaceLatency_desc =
     \<lparr>in_kind = Histogram, in_name = ''tradedesk_place_order_seconds'',
      in_help = ''PlaceOrder end-to-end latency in seconds.'', in_labels = []\<rparr>"

fun MustRegister :: "('reg \<Rightarrow> instrument \<Rightarrow> 'reg option) \<Rightarrow> 'reg \<Rightarrow> instrument list \<Rightarrow> 'reg option" where
  "MustRegister register reg [] = Some reg"
| "MustRegister register reg (c # cs) =
     (case register reg c of None \<Rightarrow> None | Some reg \<Rightarrow> MustRegister register reg cs)"

definition NewMetrics :: "('reg \<Rightarrow> instrument \<Rightarrow> 'reg option) \<Rightarrow> 'reg \<Rightarrow> (Metrics \<times> 'reg) option" where
  "NewMetrics register reg =
     (case MustRegister register reg
             [OrdersPlaced_desc, OrdersFilled_desc, OrdersCanceled_desc, RiskChecks_desc, RouteFailures_desc,
              GraphQLRequests_desc, PlaceLatency_desc] of
        None \<Rightarrow> None
      | Some reg \<Rightarrow> Some (zero_metrics, reg))"

subsection \<open>Registration succeeds\<close>

text \<open>
  What the registry documents: it accepts an instrument whose name and label names are well formed
  and whose name it does not have yet. The names are a list with the registered ones.
\<close>

definition name_char :: "char \<Rightarrow> bool" where
  "name_char c \<longleftrightarrow> c \<in> set ''abcdefghijklmnopqrstuvwxyz_''"

definition well_formed :: "instrument \<Rightarrow> bool" where
  "well_formed d \<longleftrightarrow> in_name d \<noteq> [] \<and> list_all name_char (in_name d) \<and>
     list_all (\<lambda>l. l \<noteq> [] \<and> list_all name_char l) (in_labels d) \<and> distinct (in_labels d)"

lemma MustRegister_ok:
  assumes "\<And>reg d. well_formed d \<Longrightarrow> in_name d \<notin> names reg \<Longrightarrow>
      \<exists>reg'. register reg d = Some reg' \<and> names reg' = insert (in_name d) (names reg)"
    and "list_all well_formed ds" "distinct (map in_name ds)" "names reg \<inter> in_name ` set ds = {}"
  shows "\<exists>reg'. MustRegister register reg ds = Some reg' \<and> names reg' = in_name ` set ds \<union> names reg"
  using assms(2-)
proof (induction ds arbitrary: reg)
  case (Cons d ds)
  have "well_formed d" "in_name d \<notin> names reg" using Cons.prems by auto
  from assms(1) [OF this] obtain reg1 where r: "register reg d = Some reg1" "names reg1 = insert (in_name d) (names reg)"
    by blast
  have "names reg1 \<inter> in_name ` set ds = {}" using Cons.prems r(2) by auto
  then obtain reg' where "MustRegister register reg1 ds = Some reg'" "names reg' = in_name ` set ds \<union> names reg1"
    using Cons.IH [of reg1] Cons.prems by auto
  then show ?case using r by auto
qed simp

text \<open>
  The process does not panic while it creates its metrics: a registry that keeps its documented
  promise, and has none of the names yet, takes all seven instruments, and the counters start at
  zero.
\<close>

lemma metrics_register:
  assumes "\<And>reg d. well_formed d \<Longrightarrow> in_name d \<notin> names reg \<Longrightarrow>
      \<exists>reg'. register reg d = Some reg' \<and> names reg' = insert (in_name d) (names reg)"
    and "names reg = {}"
  shows "\<exists>reg'. NewMetrics register reg = Some (zero_metrics, reg') \<and> card (names reg') = 7"
proof -
  let ?ds = "[OrdersPlaced_desc, OrdersFilled_desc, OrdersCanceled_desc, RiskChecks_desc, RouteFailures_desc,
      GraphQLRequests_desc, PlaceLatency_desc]"
  have w: "list_all well_formed ?ds" by code_simp
  have d: "distinct (map in_name ?ds)" by code_simp
  have "names reg \<inter> in_name ` set ?ds = {}" using assms(2) by simp
  from MustRegister_ok [where names = names and register = register, OF assms(1) w d this]
  obtain reg' where "MustRegister register reg ?ds = Some reg'" "names reg' = set (map in_name ?ds)" using assms(2) by auto
  moreover have "card (set (map in_name ?ds)) = 7" using distinct_card [OF d] by simp
  ultimately show ?thesis by (simp add: NewMetrics_def)
qed

end
