(* ===== verification/Service_Steps.thy ===== *)
theory Service_Steps
  imports Service_Runs
begin

section \<open>The steps of the handlers\<close>

text \<open>
  What any handler, the callback of the venue included, does to the state behind the ports, as a
  step relation: a \<open>Silent\<close> step leaves orders, events and order counters alone, a \<open>Placed\<close> step
  stores a decided order under an id drawn during the step, a \<open>Changed\<close> step writes back an order
  after a cancellation or a fill. Every handler is a sequence of such steps, so an invariant of the
  state is proved once per rule.
\<close>

inductive core_step :: "Env \<Rightarrow> Core \<Rightarrow> Core \<Rightarrow> bool" for env where
  Silent: "c_repo c' = c_repo c \<Longrightarrow> c_published c' = c_published c \<Longrightarrow> counters c' = counters c \<Longrightarrow>
    c_tick c \<le> c_tick c' \<Longrightarrow> core_step env c c'"
| Placed: "NewOrder (NewID env k) acct symb side ot tif px q t = Inr ord0 \<Longrightarrow> ord = fst (decide res now ord0) \<Longrightarrow>
    c_tick c \<le> k \<Longrightarrow> k < c_tick c' \<Longrightarrow> Save (c_repo c) ord key = Inr (c_repo c') \<Longrightarrow>
    c_published c' = c_published c @ [o_events ord] \<Longrightarrow>
    counters c' = (bump (o_status ord) (OrdersPlaced (c_metrics c)), OrdersFilled (c_metrics c), OrdersCanceled (c_metrics c)) \<Longrightarrow>
    core_step env c c'"
| Changed: "Get (c_repo c) i = Inr ord \<Longrightarrow> order_exec ord m = Inr ord' \<Longrightarrow> m = CCancel t \<or> m = CFill q px t \<Longrightarrow>
    Update (c_repo c) ord' (o_version ord) = Inr (c_repo c') \<Longrightarrow> c_published c' = c_published c @ [o_events ord'] \<Longrightarrow>
    counters c' = (OrdersPlaced (c_metrics c), OrdersFilled (c_metrics c) + of_bool (o_status ord' = StatusFilled),
      OrdersCanceled (c_metrics c) + of_bool (o_status ord' = StatusCanceled)) \<Longrightarrow>
    c_tick c \<le> c_tick c' \<Longrightarrow> core_step env c c'"

abbreviation steps :: "Env \<Rightarrow> Core \<Rightarrow> Core \<Rightarrow> bool" where
  "steps env \<equiv> (core_step env)\<^sup>*\<^sup>*"

subsection \<open>Handlers are sequences of steps\<close>

lemma steps_silent:
  "c_repo c' = c_repo c \<Longrightarrow> c_published c' = c_published c \<Longrightarrow> counters c' = counters c \<Longrightarrow> c_tick c \<le> c_tick c' \<Longrightarrow>
     steps env c c'"
  by (rule r_into_rtranclp) (rule Silent)

lemma CancelOrder_steps: "steps env c (snd (CancelOrder env cmd c))"
proof (cases "is_ok (fst (CancelOrder env cmd c))")
  case False
  then show ?thesis
    by (intro steps_silent) (auto simp: CancelOrder_def Let_def case_prod_unfold split: sum.splits)
next
  case True
  let ?t = "Clock_Now env (c_tick c)"
  from True obtain ord ord' r' where a: "Get (c_repo c) (cc_OrderID cmd) = Inr ord"
    "Cancel ord ?t = Inr ord'" "Update (c_repo c) ord' (o_version ord) = Inr r'"
    by (auto simp: CancelOrder_def Let_def case_prod_unfold split: sum.splits)
  moreover from a(2) have "o_status ord' = StatusCanceled" by (auto simp: order_op_defs split: if_splits)
  ultimately show ?thesis
    by (intro r_into_rtranclp Changed [of c _ ord "CCancel ?t" ord' ?t])
      (simp_all add: CancelOrder_def Let_def case_prod_unfold counters_def count_def Publish_def ask_def)
qed

lemma Fill_status: "Fill ord q px t = Inr ord' \<Longrightarrow> o_status ord' \<noteq> StatusCanceled"
proof -
  assume F: "Fill ord q px t = Inr ord'"
  then have "canTransitionTo (o_status ord) StatusFilled" "canTransitionTo (o_status ord) StatusPartiallyFilled"
    by (auto simp: canTransitionTo_iff working_def Fill_def)
  with F show ?thesis by (auto simp: Fill_def Let_def transition_def drop_err_def raise_def split: if_splits)
qed

lemma ApplyFill_steps: "steps env c (snd (ApplyFill env cmd c))"
proof (cases "is_ok (fst (ApplyFill env cmd c))")
  case False
  then show ?thesis
    by (intro steps_silent) (auto simp: ApplyFill_def Let_def case_prod_unfold split: sum.splits)
next
  case True
  let ?t = "Clock_Now env (c_tick c)"
  from True show ?thesis
  proof (rule ApplyFill_cases)
    fix q px ord ord' r'
    assume a: "ParseQuantity (fc_Quantity cmd) = Inr q" "ParseMoney (fc_Price cmd) = Inr px"
      "Get (c_repo c) (fc_OrderID cmd) = Inr ord" "Fill ord q px ?t = Inr ord'"
      "Update (c_repo c) ord' (o_version ord) = Inr r'"
    with Fill_status [OF a(4)] show ?thesis
      by (intro r_into_rtranclp Changed [of c _ ord "CFill q px ?t" ord' ?t])
        (simp_all add: ApplyFill_def Let_def case_prod_unfold counters_def count_def Publish_def ask_def)
  qed
qed

subsection \<open>A placement\<close>

interpretation st: core_preorder "steps env" for env
  by unfold_locales (auto intro: steps_silent)

definition filler_ok :: "Env \<Rightarrow> Core SimulatedVenue \<Rightarrow> bool" where
  "filler_ok env v \<longleftrightarrow> v_filler v = None \<or> v_filler v = Some (report_fill env)"

lemma filler_steps: "filler_ok env v \<Longrightarrow> filler_keeps (steps env) v"
  by (auto simp: filler_ok_def filler_keeps_def report_fill_def ApplyFill_steps)

lemma place_new_steps:
  assumes "filler_ok env (w_venue w)"
  shows "steps env (w_core w) (w_core (snd (place_new env cmd w))) \<and>
    filler_ok env (w_venue (snd (place_new env cmd w))) \<and> w_retry (snd (place_new env cmd w)) = w_retry w"
proof (cases rule: place_new_cases [of env cmd w])
  case (saved symb side ot tif px q ord0 res now ord c c')
  let ?w' = "snd (place_new env cmd w)"
  have a: "steps env (w_core w) c"
    by (rule r_into_rtranclp, rule Placed [OF saved(1,2) _ saved(7,6,8,9)]) simp
  note r = st.route_keeps [OF filler_steps [OF assms], where env = env and p = "w_retry w"
      and ord = "ord\<lparr>o_events := []\<rparr>" and c = c]
  have b: "v_filler (w_venue ?w') = v_filler (w_venue w) \<and> steps env c c'"
    using r saved(10) by (cases "o_status ord = StatusAccepted") (simp_all add: prod_eq_iff)
  have "steps env c' (w_core ?w')" using saved(11) by (simp add: silent_def steps_silent)
  then have "steps env (w_core w) (w_core ?w')" using a b by (meson rtranclp_trans)
  then show ?thesis using b saved(12) assms by (simp add: filler_ok_def)
qed (use assms in \<open>simp_all add: silent_def steps_silent\<close>)

lemma PlaceOrder_steps:
  assumes "filler_ok env (w_venue w)"
  shows "steps env (w_core w) (w_core (snd (PlaceOrder env cmd w)))"
    "filler_ok env (w_venue (snd (PlaceOrder env cmd w)))" "w_retry (snd (PlaceOrder env cmd w)) = w_retry w"
proof -
  let ?start = "Clock_Now env (c_tick (w_core w))"
  let ?c = "snd (ask (sys_now env) (snd (ask (Clock_Now env) (w_core w))))"
  let ?a = "Allow (sys_now env (c_tick (snd (ask (Clock_Now env) (w_core w))))) (w_limiter w)"
  let ?w = "w\<lparr>w_core := ?c, w_limiter := snd ?a\<rparr>"
  let ?w' = "snd (PlaceOrder env cmd w)"
  have f: "filler_ok env (w_venue ?w)" using assms by simp
  note p = place_new_steps [OF f, of cmd]
  have "\<exists>x. (x = ?w \<or> x = snd (place_new env cmd ?w)) \<and> ?w' = observe_latency env ?start x"
    by (auto simp: PlaceOrder_def Let_def case_prod_unfold split: option.split)
  then obtain x where x: "?w' = observe_latency env ?start x" "steps env ?c (w_core x)" "filler_ok env (w_venue x)"
    "w_retry x = w_retry w"
    using p f by auto
  have "steps env (w_core x) (w_core ?w')" unfolding x(1)
    by (rule steps_silent) (simp_all add: observe_latency_def Let_def case_prod_unfold)
  moreover have "steps env (w_core w) ?c" by (rule steps_silent) simp_all
  ultimately show "steps env (w_core w) (w_core ?w')" using x(2) by (metis rtranclp_trans)
  show "filler_ok env (w_venue ?w')" "w_retry ?w' = w_retry w"
    using x by (simp_all add: observe_latency_def Let_def case_prod_unfold)
qed

lemma svc_step_steps:
  assumes "filler_ok env (w_venue w)"
  shows "steps env (w_core w) (w_core (svc_step env w cmd)) \<and> filler_ok env (w_venue (svc_step env w cmd)) \<and>
    w_retry (svc_step env w cmd) = w_retry w"
proof (cases cmd)
  case SBreaker
  have "steps env (w_core w) (w_core (svc_step env w cmd))" unfolding SBreaker
    by (rule steps_silent) (simp_all add: BreakerState_def Let_def case_prod_unfold)
  with assms show ?thesis by (simp add: SBreaker BreakerState_def Let_def case_prod_unfold)
qed (use assms in \<open>simp_all add: PlaceOrder_steps CancelOrder_steps ApplyFill_steps\<close>)

text \<open>The service as a machine again, with the steps as the relation.\<close>

interpretation trace: related_machine "svc_exec env" "\<lambda>w. filler_ok env (w_venue w)"
  "\<lambda>w w'. steps env (w_core w) (w_core w') \<and> w_retry w' = w_retry w" for env
  by unfold_locales (auto simp: svc_exec_def svc_step_steps intro: rtranclp_trans)

definition start_core :: "OrderRepository \<Rightarrow> Core" where
  "start_core repo = \<lparr>c_repo = repo, c_published = [], c_metrics = zero_metrics, c_tick = 0\<rparr>"

lemma reachable_steps:
  assumes "svc_reachable env w"
  obtains m n repo where "NewOrderRepository m n = Some (Inr repo)" "steps env (start_core repo) (w_core w)"
    "filler_ok env (w_venue w)"
proof -
  obtain m n repo venue cfg now cmds where a: "NewOrderRepository m n = Some (Inr repo)" "wired env venue"
    and w: "w = run_cmds (svc_exec env) (NewService cfg now repo venue) cmds"
    using assms unfolding svc_reachable_def by blast
  have f: "filler_ok env (w_venue (NewService cfg now repo venue))"
    using a(2) by (simp add: NewService_def wired_def filler_ok_def)
  show ?thesis using that [OF a(1)] trace.run_rel [OF f] trace.run_inv [OF f]
    unfolding w by (simp add: NewService_def start_core_def)
qed

text \<open>An invariant of the steps holds in every reachable world.\<close>

lemma reachable_invariant:
  assumes "svc_reachable env w"
    and "\<And>m n repo. NewOrderRepository m n = Some (Inr repo) \<Longrightarrow> P (start_core repo)"
    and "\<And>c c'. P c \<Longrightarrow> core_step env c c' \<Longrightarrow> P c'"
  shows "P (w_core w)"
proof (rule reachable_steps [OF assms(1)])
  fix m n repo
  assume r: "NewOrderRepository m n = Some (Inr repo)" "steps env (start_core repo) (w_core w)"
  from r(2) show ?thesis
  proof (induction rule: rtranclp_induct)
    case base
    show ?case by (rule assms(2) [OF r(1)])
  next
    case (step c c')
    then show ?case using assms(3) by blast
  qed
qed

end
