(* ===== verification/Service_Counts.thy ===== *)
theory Service_Counts
  imports Service_Steps System_Adapters
begin

section \<open>What the steps of the service keep count of\<close>

text \<open>
  Invariants over the step relation of \<open>Service_Steps\<close>: the order counters of the metrics agree with
  the stored orders, every stored id was drawn from the id generator before, and no order is routed
  more often than the retry policy allows.
\<close>

subsection \<open>Counters\<close>

definition holding :: "('k \<rightharpoonup> 'v) \<Rightarrow> ('v \<Rightarrow> bool) \<Rightarrow> 'k set" where
  "holding m P = {i. \<exists>s. m i = Some s \<and> P s}"

lemma holding_finite: "finite (dom m) \<Longrightarrow> finite (holding m P)"
  by (rule finite_subset [of _ "dom m"]) (auto simp: holding_def)

lemma card_holding_update:
  assumes "finite (dom m)"
  shows "card (holding (m(i \<mapsto> x)) P) + of_bool (i \<in> holding m P) = card (holding m P) + of_bool (P x)"
proof -
  note f = holding_finite [OF assms]
  have "holding (m(i \<mapsto> x)) P = (if P x then insert i (holding m P) else holding m P - {i})"
    by (auto simp: holding_def split: if_splits)
  then show ?thesis using f [of P] by (auto simp: card_insert_if card_Diff_singleton dest: card_gt_0_iff [THEN iffD2, OF conjI, rotated])
qed

lemma holding_empty [simp]: "holding Map.empty P = {}"
  by (simp add: holding_def)

definition with_status :: "(string \<Rightarrow> bool) \<Rightarrow> OrderRepository \<Rightarrow> nat" where
  "with_status P r = card (holding (repo_map r) (\<lambda>s. P (s_Status s)))"

lemma with_status_put:
  assumes "finite (dom (repo_map r))" "repo_map r' = (repo_map r)(o_id ord \<mapsto> Snapshot ord)"
  shows "finite (dom (repo_map r'))"
    "with_status P r' + of_bool (\<exists>s. repo_map r (o_id ord) = Some s \<and> P (s_Status s)) = with_status P r + of_bool (P (o_status ord))"
  using assms card_holding_update [OF assms(1), of "o_id ord" "Snapshot ord" "\<lambda>s. P (s_Status s)"]
  by (simp_all add: with_status_def holding_def Snapshot_def)

definition counters_ok :: "Core \<Rightarrow> bool" where
  "counters_ok c \<longleftrightarrow>
     repo_inv (c_repo c) \<and> finite (dom (repo_map (c_repo c))) \<and>
     counters c =
       ((\<lambda>l. if l = StatusRejected then with_status (\<lambda>st. st = StatusRejected) (c_repo c)
             else if l = StatusAccepted then with_status (\<lambda>st. st \<noteq> StatusRejected) (c_repo c) else 0),
        with_status (\<lambda>st. st = StatusFilled) (c_repo c), with_status (\<lambda>st. st = StatusCanceled) (c_repo c))"

lemma counters_ok_start: "NewOrderRepository m n = Some (Inr repo) \<Longrightarrow> counters_ok (start_core repo)"
  using NewOrderRepository_inv [of m n repo]
  by (auto simp: counters_ok_def start_core_def counters_def zero_metrics_def with_status_def)

lemma changed_status:
  assumes "order_exec ord m = Inr ord'" "m = CCancel t \<or> m = CFill q px t"
  shows "o_status ord \<notin> {StatusRejected, StatusFilled, StatusCanceled}"
    "o_status ord' \<noteq> StatusRejected" "o_id ord' = o_id ord"
proof -
  have "o_status ord \<notin> {StatusRejected, StatusFilled, StatusCanceled} \<and> o_status ord' \<noteq> StatusRejected"
    using assms(2)
  proof
    assume "m = CCancel t"
    then show ?thesis using assms(1) by (auto simp: order_op_defs canTransitionTo_iff working_def split: if_splits)
  next
    assume "m = CFill q px t"
    then have F: "Fill ord q px t = Inr ord'" using assms(1) by simp
    then have "working (o_status ord)" by (auto simp: canTransitionTo_iff working_def Fill_def)
    with F show ?thesis
      by (auto simp: Fill_def Let_def transition_def drop_err_def raise_def canTransitionTo_iff working_def split: if_splits)
  qed
  then show "o_status ord \<notin> {StatusRejected, StatusFilled, StatusCanceled}" "o_status ord' \<noteq> StatusRejected" by blast+
  show "o_id ord' = o_id ord" using order_exec_step(1) [OF assms(1)] by simp
qed

lemma counters_ok_step:
  assumes "counters_ok c" "core_step env c c'"
  shows "counters_ok c'"
  using assms(2)
proof cases
  case Silent
  show ?thesis using assms(1) unfolding counters_ok_def Silent(1) Silent(3) .
next
  case (Placed k acct symb side ot tif px q t ord0 ord res now key)
  have iv: "repo_inv (c_repo c)" "finite (dom (repo_map (c_repo c)))" using assms(1) by (simp_all add: counters_ok_def)
  note s = mem.save_Inr [OF iv(1) Placed(5)]
  note w = with_status_put [OF iv(2) s(3)]
  have st: "o_status ord = StatusAccepted \<or> o_status ord = StatusRejected"
    using decide_new(4) [OF Placed(1), of res now] Placed(2) by (auto split: sum.splits)
  have "with_status P (c_repo c') = with_status P (c_repo c) + of_bool (P (o_status ord))" for P
    using w(2) [of P] s(1) by simp
  then show ?thesis using assms(1) s(2) w(1) Placed(7) st
    by (auto simp: counters_ok_def counters_def bump_def fun_eq_iff)
next
  case (Changed i ord m ord' t q px)
  have iv: "repo_inv (c_repo c)" "finite (dom (repo_map (c_repo c)))" using assms(1) by (simp_all add: counters_ok_def)
  note u = mem.update_Inr [OF iv(1) Changed(4)]
  note w = with_status_put [OF iv(2) u(3)]
  note ch = changed_status [OF Changed(2,3)]
  note g = Get_stored [OF iv(1) Changed(1)]
  have "repo_map (c_repo c) (o_id ord') = Some (Snapshot ord)" using g ch(3) by simp
  then have "with_status P (c_repo c') + of_bool (P (o_status ord)) = with_status P (c_repo c) + of_bool (P (o_status ord'))" for P
    using w(2) [of P] by (simp add: Snapshot_def)
  from this [of "\<lambda>st. st = StatusRejected"] this [of "\<lambda>st. st \<noteq> StatusRejected"] this [of "\<lambda>st. st = StatusFilled"]
    this [of "\<lambda>st. st = StatusCanceled"]
  show ?thesis using assms(1) u(2) w(1) Changed(6) ch
    by (auto simp: counters_ok_def counters_def)
qed

lemma with_status_Get:
  assumes "repo_inv r"
  shows "with_status P r = card {i. \<exists>ord. Get r i = Inr ord \<and> P (o_status ord)}"
proof -
  have "(\<exists>s. repo_map r i = Some s \<and> P (s_Status s)) \<longleftrightarrow> (\<exists>ord. Get r i = Inr ord \<and> P (o_status ord))" for i
    using mem.get_eq [OF assms, of i] by (cases "repo_map r i") (auto simp: RehydrateOrder_def)
  then show ?thesis by (simp add: with_status_def holding_def)
qed

text \<open>
  C5. The counters tell the truth about the store. After any sequence of calls, the number of
  orders counted as filled is the number of stored orders that are FILLED, the number counted as
  cancelled that of the stored CANCELED ones, and of the placements, labelled by the resulting
  status, those labelled REJECTED are the stored REJECTED orders, those labelled ACCEPTED are all
  the others, and no other label occurs: an order is counted once in each counter that it reaches,
  the fills that the venue reports during a placement included.
\<close>

theorem metrics_count_orders:
  assumes "svc_reachable env w"
  shows "OrdersFilled (c_metrics (w_core w)) = card {i. \<exists>ord. Get (c_repo (w_core w)) i = Inr ord \<and> o_status ord = StatusFilled} \<and>
    OrdersCanceled (c_metrics (w_core w)) = card {i. \<exists>ord. Get (c_repo (w_core w)) i = Inr ord \<and> o_status ord = StatusCanceled} \<and>
    OrdersPlaced (c_metrics (w_core w)) StatusRejected =
      card {i. \<exists>ord. Get (c_repo (w_core w)) i = Inr ord \<and> o_status ord = StatusRejected} \<and>
    OrdersPlaced (c_metrics (w_core w)) StatusAccepted =
      card {i. \<exists>ord. Get (c_repo (w_core w)) i = Inr ord \<and> o_status ord \<noteq> StatusRejected} \<and>
    (\<forall>l. l \<in> {StatusAccepted, StatusRejected} \<or> OrdersPlaced (c_metrics (w_core w)) l = 0)"
proof -
  have "counters_ok (w_core w)" using assms counters_ok_start counters_ok_step by (rule reachable_invariant)
  then show ?thesis by (auto simp: counters_ok_def counters_def with_status_Get)
qed

theorem metrics_count_orders_witness:
  "card {i. \<exists>ord. Get (c_repo (w_core demo_placed)) i = Inr ord \<and> o_status ord = StatusFilled} = 1 \<and>
   card {i. \<exists>ord. Get (c_repo (w_core demo_placed)) i = Inr ord \<and> o_status ord \<noteq> StatusRejected} = 1"
proof -
  have "(OrdersFilled (c_metrics (w_core demo_placed)), OrdersPlaced (c_metrics (w_core demo_placed)) StatusAccepted) = (1, 1)"
    by code_simp
  then show ?thesis using metrics_count_orders [OF demo_placed_reachable] by simp
qed

subsection \<open>Fresh ids\<close>

definition ids_drawn :: "Env \<Rightarrow> Core \<Rightarrow> bool" where
  "ids_drawn env c \<longleftrightarrow> repo_inv (c_repo c) \<and> (\<forall>i \<in> dom (repo_map (c_repo c)). \<exists>k < c_tick c. i = NewID env k)"

lemma ids_drawn_put:
  assumes "ids_drawn env c" "repo_map (c_repo c') = (repo_map (c_repo c))(i \<mapsto> x)" "repo_inv (c_repo c')"
    "c_tick c \<le> c_tick c'" "\<exists>k < c_tick c'. i = NewID env k"
  shows "ids_drawn env c'"
  using assms less_le_trans unfolding ids_drawn_def by (metis (no_types, lifting) dom_fun_upd insert_iff option.distinct(1))

lemma ids_drawn_step:
  assumes "ids_drawn env c" "core_step env c c'"
  shows "ids_drawn env c'"
  using assms(2)
proof cases
  case Silent
  then show ?thesis using assms(1) less_le_trans unfolding ids_drawn_def by metis
next
  case (Placed k acct symb side ot tif px q t ord0 ord res now key)
  have iv: "repo_inv (c_repo c)" using assms(1) by (simp add: ids_drawn_def)
  note s = mem.save_Inr [OF iv Placed(5)]
  have "o_id ord = NewID env k" using decide_new(3) [OF Placed(1)] Placed(2) by simp
  with Placed(3,4) show ?thesis by (intro ids_drawn_put [OF assms(1) s(3,2)]) auto
next
  case (Changed i ord m ord' t q px)
  have iv: "repo_inv (c_repo c)" using assms(1) by (simp add: ids_drawn_def)
  note u = mem.update_Inr [OF iv Changed(4)]
  have "o_id ord' \<in> dom (repo_map (c_repo c))" using u(1) by blast
  then have "\<exists>k < c_tick c'. o_id ord' = NewID env k"
    using assms(1) Changed(7) less_le_trans unfolding ids_drawn_def by metis
  then show ?thesis using Changed(7) by (intro ids_drawn_put [OF assms(1) u(3,2)]) auto
qed

lemma ids_drawn_start: "NewOrderRepository m n = Some (Inr repo) \<Longrightarrow> ids_drawn env (start_core repo)"
  using NewOrderRepository_inv [of m n repo] by (simp add: ids_drawn_def start_core_def)

lemma reachable_ids:
  assumes "svc_reachable env w"
  shows "ids_drawn env (w_core w)"
  using assms ids_drawn_start ids_drawn_step by (rule reachable_invariant)

text \<open>With distinct ids, the only way \<open>place_new\<close> can fail is validation.\<close>

lemma place_new_ok:
  assumes "ids_drawn env c" "NewID env = system_NewID uuid" "inj uuid"
    "c_repo (w_core w) = c_repo c" "c_tick c \<le> c_tick (w_core w)"
  shows "is_ok (fst (place_new env cmd w)) \<longleftrightarrow> is_ok (fst (build env cmd (w_core w)))"
    "fst (build env cmd (w_core w)) = Inl e \<Longrightarrow> fst (place_new env cmd w) = Inl e"
proof -
  have "is_ok (fst (place_new env cmd w)) = is_ok (fst (build env cmd (w_core w))) \<and>
    (fst (build env cmd (w_core w)) = Inl e \<longrightarrow> fst (place_new env cmd w) = Inl e)"
  proof (cases rule: place_new_cases [of env cmd w])
    case (unsaved e' symb side ot tif px q ord0 res now)
    let ?i = "NewID env (c_tick (w_core w))"
    have "?i \<notin> dom (repo_map (c_repo c))"
      using assms(1) sys.never_drawn_before [OF assms(3) _ assms(5)] unfolding ids_drawn_def assms(2) by blast
    then have n: "repo_map (c_repo c) (o_id (fst (decide res now ord0))) = None"
      using decide_new(3) [OF unsaved(1)] by (simp add: domIff)
    have "repo_inv (c_repo c)" using assms(1) by (simp add: ids_drawn_def)
    from mem.save_new [OF this n, of "pc_IdempotencyKey cmd"] unsaved(2) assms(4) show ?thesis by auto
  qed simp_all
  then show "is_ok (fst (place_new env cmd w)) \<longleftrightarrow> is_ok (fst (build env cmd (w_core w)))"
    "fst (build env cmd (w_core w)) = Inl e \<Longrightarrow> fst (place_new env cmd w) = Inl e" by blast+
qed

text \<open>
  What decides whether a placement succeeds: the rate limiter, the idempotency index, and the
  validation of the command by \<open>build\<close>, which runs after two questions to the environment.
\<close>

definition admitted :: "Env \<Rightarrow> World \<Rightarrow> bool" where
  "admitted env w \<longleftrightarrow> fst (Allow (sys_now env (Suc (c_tick (w_core w)))) (w_limiter w))"

definition known_key :: "PlaceOrderCommand \<Rightarrow> World \<Rightarrow> bool" where
  "known_key cmd w \<longleftrightarrow> pc_IdempotencyKey cmd \<noteq> [] \<and> FindByIdempotencyKey (c_repo (w_core w)) (pc_IdempotencyKey cmd) \<noteq> None"

definition built :: "Env \<Rightarrow> PlaceOrderCommand \<Rightarrow> World \<Rightarrow> Order result" where
  "built env cmd w = fst (build env cmd ((w_core w)\<lparr>c_tick := Suc (Suc (c_tick (w_core w)))\<rparr>))"

lemma PlaceOrder_result:
  assumes "ids_drawn env (w_core w)" "NewID env = system_NewID uuid" "inj uuid"
  shows "case fst (PlaceOrder env cmd w) of
      Inl e \<Rightarrow> \<not> admitted env w \<and> e = ErrRateLimited \<or> admitted env w \<and> \<not> known_key cmd w \<and> built env cmd w = Inl e
    | Inr r \<Rightarrow> admitted env w \<and> (known_key cmd w \<or> is_ok (built env cmd w))"
proof -
  let ?c = "(w_core w)\<lparr>c_tick := Suc (Suc (c_tick (w_core w)))\<rparr>"
  let ?w = "w\<lparr>w_core := ?c, w_limiter := snd (Allow (sys_now env (Suc (c_tick (w_core w)))) (w_limiter w))\<rparr>"
  let ?k = "if pc_IdempotencyKey cmd \<noteq> [] then FindByIdempotencyKey (c_repo (w_core w)) (pc_IdempotencyKey cmd) else None"
  have p: "fst (PlaceOrder env cmd w) = (if \<not> admitted env w then Inl ErrRateLimited else
      case ?k of Some existing \<Rightarrow> Inr \<lparr>pr_OrderID = existing, pr_Status = [], pr_Idempotent = True\<rparr>
        | None \<Rightarrow> fst (place_new env cmd ?w))"
    by (simp add: PlaceOrder_def admitted_def Let_def case_prod_unfold ask_def split: option.split)
  note o = place_new_ok [OF assms, of ?w cmd]
  show ?thesis
  proof (cases ?k)
    case None
    then have k: "\<not> known_key cmd w" by (auto simp: known_key_def split: if_splits)
    show ?thesis
    proof (cases "built env cmd w")
      case (Inl e)
      then show ?thesis using k o(2) [of e] unfolding p None by (simp add: built_def)
    next
      case (Inr ord)
      then have "is_ok (fst (place_new env cmd ?w))" using o(1) by (simp add: built_def)
      then show ?thesis using Inr unfolding p None by (cases "fst (place_new env cmd ?w)") simp_all
    qed
  next
    case (Some j)
    then have "known_key cmd w" by (auto simp: known_key_def split: if_splits)
    then show ?thesis unfolding p Some by simp
  qed
qed

text \<open>
  C12. A placement fails for two reasons only. In every reachable world, with ids of the system's
  generator over distinct UUIDs, \<open>PlaceOrder\<close> succeeds exactly if the rate limiter admits the call
  and the key is known already or the command is valid; an error is \<open>ErrRateLimited\<close> for a call that
  was not admitted, or the validation error of a new command. So \<open>ErrDuplicate\<close> never surfaces, and
  a risk gate or a venue that fails is not an error of the call.
\<close>

theorem placement_succeeds_iff:
  assumes "svc_reachable env w" "NewID env = system_NewID uuid" "inj uuid"
  shows "(is_ok (fst (PlaceOrder env cmd w)) \<longleftrightarrow> admitted env w \<and> (known_key cmd w \<or> is_ok (built env cmd w))) \<and>
    (fst (PlaceOrder env cmd w) = Inl e \<longrightarrow>
      e = ErrRateLimited \<and> \<not> admitted env w \<or> built env cmd w = Inl e \<and> \<not> known_key cmd w)"
  using PlaceOrder_result [OF reachable_ids [OF assms(1)] assms(2,3), of cmd] by (auto split: sum.splits)

theorem placement_succeeds_iff_witness:
  "is_ok (fst (PlaceOrder demo_env demo_buy demo_start)) \<and>
   is_ok (built demo_env demo_buy demo_start) \<and> admitted demo_env demo_start"
proof -
  have n: "NewID demo_env = system_NewID (\<lambda>n. replicate n (CHR ''x''))" by (simp add: demo_env_def system_NewID_def fun_eq_iff)
  have "inj (\<lambda>n. replicate n (CHR ''x''))" by (metis injI length_replicate)
  from placement_succeeds_iff [OF demo_start_reachable n this, of demo_buy ErrDuplicate] demo_result
  have "admitted demo_env demo_start \<and> (known_key demo_buy demo_start \<or> is_ok (built demo_env demo_buy demo_start))"
    by simp
  moreover have "\<not> known_key demo_buy demo_start" by code_simp
  ultimately show ?thesis using demo_result by simp
qed

subsection \<open>How often an order reaches the venue\<close>

definition routes_bounded :: "Env \<Rightarrow> World \<Rightarrow> bool" where
  "routes_bounded env w \<longleftrightarrow>
     (\<forall>i. count_list (v_routed (w_venue w)) i \<le> nat (sint (MaxAttempts (w_retry w))) \<and>
          ((\<forall>n. route_timeout env n = None) \<longrightarrow> count_list (v_routed (w_venue w)) i \<le> 1))"

lemma count_list_replicate: "count_list (replicate n x) y = (if x = y then n else 0)"
  by (induction n) auto

lemma routes_bounded_step:
  assumes ok: "world_ok env w" and b: "routes_bounded env w" and f: "filler_ok env (w_venue w)"
  shows "routes_bounded env (svc_step env w cmd)"
proof (cases cmd)
  case (SPlace pcmd)
  note r = PlaceOrder_steps(3) [OF f, of pcmd]
  show ?thesis
  proof (cases rule: PlaceOrder_cases [of env pcmd w])
    case (new ord res)
    let ?w' = "snd (PlaceOrder env pcmd w)"
    have v: "venue_ok (w_venue w)" using ok by (simp add: world_ok_def)
    obtain k where k: "v_routed (w_venue ?w') = v_routed (w_venue w) @ replicate k (o_id ord)"
      "k \<le> nat (sint (MaxAttempts (w_retry w)))" "(\<forall>n. route_timeout env n = None) \<longrightarrow> k \<le> 1"
      using placed_evolves(3) [OF new(3,1) v] by blast
    have "o_id ord \<notin> set (v_routed (w_venue w))"
    proof
      assume "o_id ord \<in> set (v_routed (w_venue w))"
      then obtain t where "OrderAccepted (o_id ord) t \<in> set (concat (c_published (w_core w)))"
        using ok unfolding world_ok_def approved_def by blast
      from published_stored [OF world_core [OF ok] this]
      obtain x where x: "Get (c_repo (w_core w)) (o_id ord) = Inr x" by (auto simp: AggregateID_def)
      obtain c1 :: Core where "Save (c_repo (w_core w)) ord (pc_IdempotencyKey pcmd) = Inr (c_repo c1)"
        using placed_evolves(5) [OF new(3,1) v] by blast
      from mem.save_Inr(1) [OF core_ok_repo [OF world_core [OF ok]] this] x show False
        using mem.get_eq [OF core_ok_repo [OF world_core [OF ok]], of "o_id ord"] by simp
    qed
    then have "count_list (v_routed (w_venue w)) (o_id ord) = 0" by (simp add: count_list_0_iff)
    then show ?thesis using b k r by (simp add: SPlace routes_bounded_def count_list_replicate)
  qed (use b r in \<open>simp_all add: SPlace quiet_def routes_bounded_def\<close>)
qed (use b in \<open>simp_all add: routes_bounded_def BreakerState_def Let_def case_prod_unfold\<close>)

interpretation routes: command_machine "svc_exec env" "\<lambda>w. world_ok env w \<and> filler_ok env (w_venue w) \<and> routes_bounded env w" for env
  by unfold_locales (auto simp: svc_exec_def svc_step_ok svc_step_steps routes_bounded_step)

text \<open>
  C13. How often the venue sees an order: at most \<open>MaxAttempts\<close> times, whatever the venue, the
  timeouts and the context do, and at most once if no attempt is cut off by its timeout. An attempt
  whose deadline passes may have reached the venue all the same, so the retry then routes the order
  again.
\<close>

theorem order_routed_at_most:
  assumes "svc_reachable env w"
  shows "count_list (v_routed (w_venue w)) i \<le> nat (sint (MaxAttempts (w_retry w))) \<and>
    ((\<forall>n. route_timeout env n = None) \<longrightarrow> count_list (v_routed (w_venue w)) i \<le> 1)"
proof -
  obtain m n repo venue cfg now cmds where a: "NewOrderRepository m n = Some (Inr repo)" "wired env venue"
    and w: "w = run_cmds (svc_exec env) (NewService cfg now repo venue) cmds"
    using assms unfolding svc_reachable_def by blast
  let ?w = "NewService cfg now repo venue"
  have "world_ok env ?w \<and> filler_ok env (w_venue ?w) \<and> routes_bounded env ?w"
    using NewService_ok [OF a] a(2) by (simp add: NewService_def wired_def filler_ok_def routes_bounded_def)
  from routes.run_inv [OF this, of cmds] show ?thesis unfolding w routes_bounded_def by blast
qed

theorem order_routed_at_most_witness:
  "count_list (v_routed (w_venue demo_placed)) ''ord-xx'' \<le> 1 \<and> v_routed (w_venue demo_placed) = [''ord-xx'']"
  using order_routed_at_most [OF demo_placed_reachable, of "''ord-xx''"] demo_routed by (simp add: demo_env_def)

text \<open>The second bound needs its hypothesis: a first attempt that times out after the venue took the order.\<close>

definition slow_env :: Env where
  "slow_env = demo_env\<lparr>route_timeout := \<lambda>n. if n < 10 then Some DeadlineExceeded else None\<rparr>"

lemma slow_order_routed_twice:
  "v_routed (w_venue (snd (PlaceOrder slow_env demo_buy (NewService demo_cfg 0 sample_repo NewSimulatedVenue)))) =
     [''ord-xx'', ''ord-xx'']"
  by code_simp

end
