(* ===== verification/Process.thy ===== *)
theory Process
  imports Config_Env Live_System Http_Server Observability Service_Counts
begin

section \<open>The process (cmd/tradedesk/main.go)\<close>

text \<open>
  What \<open>run\<close> and \<open>main\<close> do with the parts: the start (metrics, service, schema, server), the two ways
  it stops, and the exit code, with the health probe against the process's own server. What the
  third-party packages answer is a parameter: the registry, the GraphQL schema, the handlers. What
  the operating system and net/http decide is a parameter as well: whether listening fails or a
  signal arrives first, and what \<open>Shutdown\<close> returns.
\<close>

subsection \<open>Start\<close>

datatype ('schema, 's) start =
  StartPanics
| StartHangs
| StartFails error
| Started World EventBus PositionReadModel "'s Server"

definition run_start ::
  "int \<Rightarrow> ('reg \<Rightarrow> instrument \<Rightarrow> 'reg option) \<Rightarrow> 'reg \<Rightarrow> ('schema, 'reg, 's) Libraries \<Rightarrow> ((string \<times> gql_field) list \<Rightarrow> (string \<times> gql_field) list \<Rightarrow> 'schema result) \<Rightarrow> EnvConfig \<Rightarrow> Time \<Rightarrow>
   ('schema, 's) start" where
  "run_start max_len register reg libs graphql_NewSchema cfg now =
     (case NewMetrics register reg of
        None \<Rightarrow> StartPanics
      | Some (metrics, reg) \<Rightarrow>
     (case run_service max_len cfg now of
        None \<Rightarrow> StartHangs
      | Some (Inl _) \<Rightarrow> StartPanics
      | Some (Inr (svc, bus, readModel)) \<Rightarrow>
     (case NewSchema graphql_NewSchema of
        Inl e \<Rightarrow> StartFails e
      | Inr schema \<Rightarrow>
          Started (svc\<lparr>w_core := (w_core svc)\<lparr>c_metrics := metrics\<rparr>\<rparr>) bus readModel
            (NewHTTPServer libs (cfg_HTTPAddr cfg) schema reg (cfg_HTTPTimeout cfg)))))"

subsection \<open>Stop\<close>

text \<open>
  \<open>Close\<close> of the bus waits until no event is in flight, then takes the lock, which it gets when no
  publisher is inside \<open>Publish\<close>, and marks the bus as closed; workers may act in between.
\<close>

inductive Close :: "EventBus \<Rightarrow> EventBus \<Rightarrow> bool" where
  "work\<^sup>*\<^sup>* b b1 \<Longrightarrow> Wait b1 \<Longrightarrow> work\<^sup>*\<^sup>* b1 b2 \<Longrightarrow> unlocked b2 \<Longrightarrow> Close b (Close_mark b2)"

text \<open>
  How \<open>run\<close> returns from its \<open>select\<close>: an error of \<open>ListenAndServe\<close> is returned as it is; after a
  signal, an error of \<open>Shutdown\<close> is returned (wrapped, which \<open>errors.Is\<close> sees through) before the bus
  is closed; otherwise the bus is closed.
\<close>

datatype stop = ListenFailed error | StopSignal

inductive run_ends :: "stop \<Rightarrow> error option \<Rightarrow> EventBus \<Rightarrow> error option \<Rightarrow> EventBus \<Rightarrow> bool" where
  listen_failed: "run_ends (ListenFailed e) shut b (Some e) b"
| shutdown_failed: "run_ends StopSignal (Some e) b (Some e) b"
| stopped_cleanly: "Close b b' \<Longrightarrow> run_ends StopSignal None b None b'"

inductive_cases run_endsE: "run_ends stop shut b err b'"

definition main_exit :: "bool \<Rightarrow> int \<Rightarrow> error option \<Rightarrow> int" where
  "main_exit healthCheck probe err = (if healthCheck then probe else if err \<noteq> None then 1 else 0)"

subsection \<open>A client of the server\<close>

text \<open>
  The probe's \<open>client.Get\<close> on an http URL, when the hosts in \<open>reaches\<close> are this process: the request
  goes to the path of the URL, and a dropped connection is an error. Following redirects is left
  out, since the probe's path is never answered with one.
\<close>

definition http_get :: "(string \<Rightarrow> bool) \<Rightarrow> 's Server \<Rightarrow> 's \<Rightarrow> string \<Rightarrow> int result" where
  "http_get reaches srv s url =
     (if take 7 url \<noteq> ''http://'' then Inl (ErrText ''unsupported protocol scheme'')
      else
        (let host = takeWhile (\<lambda>c. c \<noteq> CHR ''/'') (drop 7 url);
             path = dropWhile (\<lambda>c. c \<noteq> CHR ''/'') (drop 7 url)
         in if \<not> reaches host then Inl (ErrText ''connection refused'')
            else (case snd (serve srv \<lparr>r_Method = ''GET'', r_Path = path\<rparr> s) of
                    Some w \<Rightarrow> (case rw_status w of Some code \<Rightarrow> Inr code | None \<Rightarrow> Inl (ErrText ''EOF''))
                  | None \<Rightarrow> Inl (ErrText ''EOF''))))"

subsection \<open>Properties\<close>

text \<open>
  C24. The process starts. Take a registry that keeps its documented promise and holds none of the
  names, and a schema that the GraphQL library accepts. The start then never fails; it hangs if the
  environment asks for more than \<open>2 ^ 62\<close> shards, and otherwise panics if the host cannot allocate the
  power of two of shards that is needed. In all other cases the service is in a reachable state of
  the model with that many shards, with nothing stored, published or routed and all counters at zero,
  so every property of reachable states holds for it; the bus is open and drained, with the wildcard
  subscription that feeds the empty read model; and the server has the configured address.
\<close>

theorem process_starts:
  assumes "\<And>reg d. well_formed d \<Longrightarrow> in_name d \<notin> names reg \<Longrightarrow>
      \<exists>reg'. register reg d = Some reg' \<and> names reg' = insert (in_name d) (names reg)"
    and "names reg = {}" and "graphql_NewSchema query mutation = Inr schema"
  shows "let n = sint (cfg_RepoShards (Load getenv)) in
   case run_start max_len register reg libs graphql_NewSchema (Load getenv) now of
     StartFails e \<Rightarrow> False
   | StartHangs \<Rightarrow> 2 ^ 62 < n
   | StartPanics \<Rightarrow> n \<le> 2 ^ 62 \<and> (\<forall>k. n \<le> 2 ^ k \<longrightarrow> max_len < 2 ^ k)
   | Started w bus rm srv \<Rightarrow>
       n \<le> 2 ^ 62 \<and> (\<exists>k. n \<le> 2 ^ k \<and> (\<forall>j. n \<le> 2 ^ j \<longrightarrow> k \<le> j) \<and> 2 ^ k \<le> max_len \<and> length (shards (c_repo (w_core w))) = 2 ^ k) \<and>
       svc_reachable (run_env wall uuid env) w \<and> repo_map (c_repo (w_core w)) = Map.empty \<and> v_routed (w_venue w) = [] \<and>
       c_metrics (w_core w) = zero_metrics \<and> drained_all (c_published (w_core w)) bus \<and> net_position rm acct symb = 0 \<and>
       srv_Addr srv = cfg_HTTPAddr (Load getenv)"
proof -
  obtain reg' where m: "NewMetrics register reg = Some (zero_metrics, reg')"
    using metrics_register [where names = names and register = register, OF assms(1,2)] by blast
  note r = run_service_starts [where getenv = getenv and max_len = max_len and now = now and wall = wall and uuid = uuid
      and env = env and acct = acct and symb = symb]
  show ?thesis
  proof (cases "run_service max_len (Load getenv) now")
    case None
    then show ?thesis using r by (simp add: run_start_def m)
  next
    case (Some x)
    show ?thesis
    proof (cases x)
      case (Inl e)
      then show ?thesis using r by (simp add: run_start_def m Some)
    next
      case (Inr y)
      obtain w bus rm where y: "y = (w, bus, rm)" by (metis prod_cases3)
      have e: "w\<lparr>w_core := (w_core w)\<lparr>c_metrics := zero_metrics\<rparr>\<rparr> = w"
        using Some Inr y by (auto simp: run_service_def NewService_def Let_def split: option.splits sum.splits)
      then have "c_metrics (w_core w) = zero_metrics"
        by (metis Core.select_convs(3) Core.surjective Core.update_convs(3) World.select_convs(1) World.surjective World.update_convs(1))
      moreover have "run_start max_len register reg libs graphql_NewSchema (Load getenv) now =
          Started w bus rm (NewHTTPServer libs (cfg_HTTPAddr (Load getenv)) schema reg' (cfg_HTTPTimeout (Load getenv)))"
        by (simp add: run_start_def m Some Inr y e NewSchema_def assms(3) del: World.update_convs)
      ultimately show ?thesis using r Some Inr y by (simp add: NewHTTPServer_def)
    qed
  qed
qed

definition sample_register :: "string list \<Rightarrow> instrument \<Rightarrow> string list option" where
  "sample_register reg d = (if in_name d \<in> set reg then None else Some (in_name d # reg))"

text \<open>The default settings on a host that can allocate \<open>2 ^ 45\<close> pointers, which start.\<close>

theorem process_starts_witness:
  "(case run_start (2 ^ 45) sample_register [] sample_libs (\<lambda>_ _. Inr ()) (Load (\<lambda>_. [])) 0 of
      Started w bus rm srv \<Rightarrow> srv_Addr srv = '':8080'' \<and> c_metrics (w_core w) = zero_metrics | _ \<Rightarrow> False)"
proof -
  have "\<not> (\<forall>k. (16 :: int) \<le> 2 ^ k \<longrightarrow> 2 ^ 45 < (2 :: int) ^ k)" by (auto intro!: exI [of _ 4])
  moreover
  have "sint (cfg_RepoShards (Load (\<lambda>_. []))) = 16" "cfg_HTTPAddr (Load (\<lambda>_. [])) = '':8080''" by code_simp+
  ultimately show ?thesis
    using process_starts [where names = "set :: string list \<Rightarrow> string set" and register = sample_register and reg = "[]"
        and libs = sample_libs and graphql_NewSchema = "\<lambda>_ _. Inr ()" and schema = "()" and getenv = "\<lambda>_. []" and now = 0
        and max_len = "2 ^ 45"]
    by (auto simp: sample_register_def Let_def split: start.splits)
qed

lemma split_at_slash:
  assumes "CHR ''/'' \<notin> set host"
  shows "takeWhile (\<lambda>c. c \<noteq> CHR ''/'') (host @ CHR ''/'' # path) = host"
    "dropWhile (\<lambda>c. c \<noteq> CHR ''/'') (host @ CHR ''/'' # path) = CHR ''/'' # path"
  using assms by (induction host) auto

text \<open>
  C26. The health probe tells whether the server is reachable: run against the server of the same
  process, in any state of the application and whatever the other handlers do, it exits with 0 if
  its host is reached and with 1 if not; for an address that starts with a colon the host is the
  loopback address. The address may not contain a slash.
\<close>

theorem health_probe_reaches_server:
  assumes "CHR ''/'' \<notin> set addr"
  shows "runHealthProbe (http_get reaches (NewHTTPServer libs addr schema reg timeout) s) addr =
    (if reaches (if addr \<noteq> [] \<and> hd addr = CHR '':'' then ''127.0.0.1'' @ addr else addr) then 0 else 1)"
proof -
  let ?host = "if addr \<noteq> [] \<and> hd addr = CHR '':'' then ''127.0.0.1'' @ addr else addr"
  have h: "CHR ''/'' \<notin> set ?host" using assms by auto
  note t = split_at_slash [OF h, of "''healthz''"]
  obtain w where w: "snd (serve (NewHTTPServer libs addr schema reg timeout) \<lparr>r_Method = ''GET'', r_Path = ''/healthz''\<rparr> s) = Some w"
    "rw_status w = Some 200"
    using health_responses(1) [of libs addr schema reg timeout "''GET''" s] by force
  have "http_get reaches (NewHTTPServer libs addr schema reg timeout) s (''http://'' @ ?host @ ''/healthz'') =
      (if reaches ?host then Inr 200 else Inl (ErrText ''connection refused''))"
    using t w by (simp add: http_get_def Let_def)
  then show ?thesis by (simp add: runHealthProbe_def Let_def del: append.simps)
qed

theorem health_probe_reaches_server_witness:
  "runHealthProbe (http_get (\<lambda>h. h = ''127.0.0.1:8080'') (NewHTTPServer sample_libs '':8080'' () () Second) 7) '':8080'' = 0"
  using health_probe_reaches_server [of "'':8080''" "\<lambda>h. h = ''127.0.0.1:8080''" sample_libs "()" "()" Second 7] by simp

lemma Close_drains:
  assumes "Close b b'" "served ess b"
  obtains b2 where "b' = Close_mark b2" "drained_all ess b2"
  using assms(1)
proof cases
  case (1 b1 b2)
  have v: "served ess b1" by (rule works_served [OF 1(2) assms(2)])
  then have "bus_inv b1" "unlocked b1" using bus_reach_inv serial_reach by (auto simp: served_def)
  then have "b2 = b1" using 1(4) idle_no_work [OF _ _ 1(3)] by (metis converse_rtranclpE)
  then show ?thesis using that 1(1) served_drained [OF v 1(3)] by blast
qed

lemma Close_exists: "served ess b \<Longrightarrow> \<exists>b'. Close b b'"
  using work_drains [of b] bus_reach_inv serial_reach Close.intros unfolding served_def Wait_def by blast

text \<open>
  C6. A clean exit loses nothing. In every state of the running system, after a signal and a successful \<open>Shutdown\<close>, \<open>run\<close> does return, with exit
  code 0, and then the bus is closed and drained: the read model has been called with every event
  the service published, and its positions are the 64-bit sums over the stored orders. Every other way to
  stop gives exit code 1 and leaves the bus as it is, queued events included.
\<close>

theorem clean_exit_loses_nothing:
  assumes "live env w b"
  shows "(\<exists>b'. run_ends StopSignal None b None b') \<and>
    (\<forall>err b'. run_ends StopSignal None b err b' \<longrightarrow> main_exit False probe err = 0 \<and> bus_closed b' \<and>
       map snd (sub_handled (bus_subs b' ! 0)) = concat (c_published (w_core w)) \<and>
       net_position (foldl Project NewPositionReadModel (map snd (sub_handled (bus_subs b' ! 0)))) acct symb =
         (\<Sum>i \<in> dom (repo_map (c_repo (w_core w))). exposure acct symb (repo_map (c_repo (w_core w)) i))) \<and>
    (\<forall>stop shut err b'. run_ends stop shut b err b' \<and> (stop \<noteq> StopSignal \<or> shut \<noteq> None) \<longrightarrow>
       main_exit False probe err = 1 \<and> b' = b)"
proof (intro conjI allI impI)
  have v: "svc_reachable env w" "served (c_published (w_core w)) b" using live_served [OF assms] by blast+
  show "\<exists>b'. run_ends StopSignal None b None b'" using Close_exists [OF v(2)] stopped_cleanly by blast
  fix err b'
  assume "run_ends StopSignal None b err b'"
  then have c: "Close b b'" "err = None" by (auto elim: run_endsE)
  obtain b2 where b2: "b' = Close_mark b2" "drained_all (c_published (w_core w)) b2" by (rule Close_drains [OF c(1) v(2)])
  then have e: "bus_subs b' = bus_subs b2" by (simp add: Close_mark_def)
  show "main_exit False probe err = 0" "bus_closed b'" by (simp_all add: c main_exit_def b2 Close_mark_def)
  show "map snd (sub_handled (bus_subs b' ! 0)) = concat (c_published (w_core w))"
    unfolding e by (rule drained_positions(1) [OF v(1) b2(2)])
  show "net_position (foldl Project NewPositionReadModel (map snd (sub_handled (bus_subs b' ! 0)))) acct symb =
      (\<Sum>i \<in> dom (repo_map (c_repo (w_core w))). exposure acct symb (repo_map (c_repo (w_core w)) i))"
    unfolding e by (rule drained_positions(2) [OF v(1) b2(2)])
next
  fix stop shut err b'
  assume "run_ends stop shut b err b' \<and> (stop \<noteq> StopSignal \<or> shut \<noteq> None)"
  then show "main_exit False probe err = 1" "b' = b" by (auto elim: run_endsE simp: main_exit_def)
qed

theorem clean_exit_loses_nothing_witness:
  "\<exists>b b'. run_ends StopSignal None b None b' \<and>
     map snd (sub_handled (bus_subs b' ! 0)) = concat (c_published (w_core demo_placed))"
proof -
  obtain b where "live demo_env demo_placed b" using demo_live by blast
  from clean_exit_loses_nothing [OF this] show ?thesis by blast
qed

end
