(* ===== verification/Service_Interleaving.thy ===== *)
theory Service_Interleaving
  imports Service_Runs
begin

section \<open>Overlapping calls of the service\<close>

text \<open>
  Handlers that overlap, at the granularity of their calls of the repository and the publisher. A
  handler is a thread whose state is the work it has left: \<open>Reading\<close> before \<open>Repo.Get\<close>, \<open>Writing\<close>
  with the changed order and the version it read, \<open>Looking\<close> a key up, with the decided order or the
  validation error that comes next if the key is new, \<open>Saving\<close> a new order, \<open>Publishing\<close> its events. A
  schedule starts calls and lets any thread make its next step. Executions that the venue reports
  are calls of \<open>ApplyFill\<close> like any other, so routing is not a step of its own.
\<close>

datatype thread =
  Reading string order_cmd
| Writing Order int64
| Looking "Order result" string
| Saving Order string
| Publishing "Event list"
| Returned "unit result"

fun thread_step :: "thread \<Rightarrow> OrderRepository \<times> Event list list \<Rightarrow> thread \<times> OrderRepository \<times> Event list list" where
  "thread_step (Reading i m) (r, pub) =
     (case Get r i of
        Inl e \<Rightarrow> Returned (Inl e)
      | Inr ord \<Rightarrow> (case order_exec ord m of Inl e \<Rightarrow> Returned (Inl e) | Inr ord' \<Rightarrow> Writing ord' (o_version ord)), r, pub)"
| "thread_step (Writing ord v) (r, pub) =
     (case Update r ord v of Inl e \<Rightarrow> (Returned (Inl e), r, pub) | Inr r' \<Rightarrow> (Publishing (o_events ord), r', pub))"
| "thread_step (Looking built k) (r, pub) =
     (case (if k \<noteq> [] then FindByIdempotencyKey r k else None) of
        Some existing \<Rightarrow> Returned (Inr ())
      | None \<Rightarrow> (case built of Inl e \<Rightarrow> Returned (Inl e) | Inr ord \<Rightarrow> Saving ord k), r, pub)"
| "thread_step (Saving ord k) (r, pub) =
     (case Save r ord k of Inl e \<Rightarrow> (Returned (Inl e), r, pub) | Inr r' \<Rightarrow> (Publishing (o_events ord), r', pub))"
| "thread_step (Publishing es) (r, pub) = (Returned (Inr ()), r, pub @ [es])"
| "thread_step (Returned res) (r, pub) = (Returned res, r, pub)"

datatype sched =
  CallCancel string Time
| CallFill string Quantity Money Time
| CallPlace string string string Side OrderType TimeInForce Money Quantity Time "RiskDecision result" Time string
| Run nat

record Conc =
  conc_repo :: OrderRepository
  conc_pub :: "Event list list"
  conc_threads :: "thread list"

definition spawn :: "thread \<Rightarrow> Conc \<Rightarrow> Conc" where
  "spawn t c = c\<lparr>conc_threads := conc_threads c @ [t]\<rparr>"

fun conc_step :: "Conc \<Rightarrow> sched \<Rightarrow> Conc" where
  "conc_step c (CallCancel i t) = spawn (Reading i (CCancel t)) c"
| "conc_step c (CallFill i q px t) = spawn (Reading i (CFill q px t)) c"
| "conc_step c (CallPlace oid acct symb side ot tif px q t res now key) =
     spawn (Looking (bind_result (NewOrder oid acct symb side ot tif px q t) (\<lambda>ord. Inr (fst (decide res now ord)))) key) c"
| "conc_step c (Run j) =
     (if j < length (conc_threads c)
      then (let (t, r, pub) = thread_step (conc_threads c ! j) (conc_repo c, conc_pub c)
            in \<lparr>conc_repo = r, conc_pub = pub, conc_threads = (conc_threads c)[j := t]\<rparr>)
      else c)"

definition conc_exec :: "Conc \<Rightarrow> sched \<Rightarrow> Conc result" where
  "conc_exec c x = Inr (conc_step c x)"

definition conc_start :: "OrderRepository \<Rightarrow> Conc" where
  "conc_start repo = \<lparr>conc_repo = repo, conc_pub = [], conc_threads = []\<rparr>"

text \<open>A thread that runs alone does what the handler does.\<close>

lemma cancel_alone:
  "(let (t, s) = thread_step (Reading (cc_OrderID cmd) (CCancel (Clock_Now env (c_tick c)))) (c_repo c, c_published c);
        (t, s) = thread_step t s; (t, s) = thread_step t s in (t, s)) =
   (Returned (fst (CancelOrder env cmd c)), c_repo (snd (CancelOrder env cmd c)), c_published (snd (CancelOrder env cmd c)))"
  by (simp add: CancelOrder_def Let_def case_prod_unfold split: sum.split)

lemma fill_alone:
  assumes "ParseQuantity (fc_Quantity cmd) = Inr q" "ParseMoney (fc_Price cmd) = Inr px"
  shows "(let (t, s) = thread_step (Reading (fc_OrderID cmd) (CFill q px (Clock_Now env (c_tick c)))) (c_repo c, c_published c);
        (t, s) = thread_step t s; (t, s) = thread_step t s in (t, s)) =
   (Returned (fst (ApplyFill env cmd c)), c_repo (snd (ApplyFill env cmd c)), c_published (snd (ApplyFill env cmd c)))"
  using assms by (simp add: ApplyFill_def Let_def case_prod_unfold split: sum.split)

text \<open>
  For a placement that routing does not follow with a reported execution, the same holds from the
  lookup of the key on: routing keeps the repository and the published events as they are.
\<close>

interpretation keep: core_preorder "\<lambda>c c'. c_repo c' = c_repo c \<and> c_published c' = c_published c"
  by unfold_locales simp_all

lemma place_alone:
  assumes "v_filler (w_venue w) = None" "PlaceOrder env cmd w = (Inr r, w')" "\<not> pr_Idempotent r"
  shows "\<exists>ord. o_id ord = pr_OrderID r \<and> o_status ord = pr_Status r \<and>
    (let (t, s) = thread_step (Looking (Inr ord) (pc_IdempotencyKey cmd)) (c_repo (w_core w), c_published (w_core w));
         (t, s) = thread_step t s; (t, s) = thread_step t s in (t, s)) =
      (Returned (Inr ()), c_repo (w_core w'), c_published (w_core w'))"
proof -
  obtain ord where f: "fresh_key cmd (w_core w)" and p: "placed env cmd w ord r w'"
    by (rule PlaceOrder_cases [of env cmd w]) (use assms(2,3) in auto)
  then obtain c1 c2 where s: "Save (c_repo (w_core w)) ord (pc_IdempotencyKey cmd) = Inr (c_repo c1)"
    "c_published c1 = c_published (w_core w) @ [o_events ord]"
    and v: "if o_status ord = StatusAccepted
         then snd (route env (w_retry w) (ord\<lparr>o_events := []\<rparr>) (w_venue w, c1)) = (w_venue w', c2)
         else w_venue w' = w_venue w \<and> c2 = c1"
    and c2: "c_repo (w_core w') = c_repo c2" "c_published (w_core w') = c_published c2"
    and r: "pr_OrderID r = o_id ord" "pr_Status r = o_status ord"
    unfolding placed_def by auto
  have k: "filler_keeps (\<lambda>c c'. c_repo c' = c_repo c \<and> c_published c' = c_published c) (w_venue w)"
    using assms(1) by (simp add: filler_keeps_def)
  have "c_repo c2 = c_repo c1 \<and> c_published c2 = c_published c1"
    using v keep.route_keeps(2) [OF k, where env = env and p = "w_retry w" and ord = "ord\<lparr>o_events := []\<rparr>" and c = c1]
    by (cases "o_status ord = StatusAccepted") simp_all
  then show ?thesis using f s c2 r by (intro exI [of _ ord]) (auto simp: fresh_key_def)
qed

subsection \<open>Histories\<close>

text \<open>
  The history of an order: its events in the order in which its versions were written. The version
  is the number of events after the first, and the length of a history is bounded by the filled
  quantity, since every fill adds to it; so a version never comes round again.
\<close>

definition rank :: "OrderStatus \<Rightarrow> int" where
  "rank st = (if st = StatusNew then 1 else if working st then 2 else 3)"

definition hist_ok :: "Event list \<Rightarrow> OrderSnapshot \<Rightarrow> bool" where
  "hist_ok h s \<longleftrightarrow>
     replay h = Some s \<and> order_inv (RehydrateOrder s) \<and> (\<forall>e \<in> set h. AggregateID e = s_ID s) \<and>
     s_Version s = of_nat (length h - 1) \<and> int (length h) \<le> sint (s_FilledQty s) + rank (s_Status s) \<and>
     traded_qty h = sint (s_FilledQty s)"

lemma Snapshot_filled [simp]: "s_FilledQty (Snapshot ord) = o_filledQty ord"
  by (simp add: Snapshot_def)

lemma hist_not_Nil: "hist_ok h s \<Longrightarrow> h \<noteq> []"
  by (auto simp: hist_ok_def)

text \<open>What one method adds, by kind of event.\<close>

lemma exec_progress:
  assumes "order_inv ord" "order_exec ord m = Inr ord'" "o_events ord' = o_events ord @ [e]"
  shows "traded_qty [e] = sint (o_filledQty ord') - sint (o_filledQty ord)"
    "sint (o_filledQty ord) + rank (o_status ord) + 1 \<le> sint (o_filledQty ord') + rank (o_status ord')"
proof -
  have "traded_qty [e] = sint (o_filledQty ord') - sint (o_filledQty ord) \<and>
    sint (o_filledQty ord) + rank (o_status ord) + 1 \<le> sint (o_filledQty ord') + rank (o_status ord')"
  proof (cases m)
    case (CFill q px t)
    then have "Fill ord q px t = Inr ord'" using assms by simp
    note f = Fill_InrD [OF assms(1) this]
    have "o_status ord' \<noteq> StatusNew" "o_filledQty ord' = o_filledQty ord + q" "traded_qty [e] = sint q"
      using assms(3) by (auto simp: f(6) filled_order_def raise_def Let_def traded_qty_def fills_def split: if_splits)
    with f(1,2,4) show ?thesis by (auto simp: rank_def working_def)
  qed (use assms(2,3) in \<open>auto simp: order_op_defs canTransitionTo_iff traded_qty_def fills_def rank_def working_def\<close>)
  then show "traded_qty [e] = sint (o_filledQty ord') - sint (o_filledQty ord)"
    "sint (o_filledQty ord) + rank (o_status ord) + 1 \<le> sint (o_filledQty ord') + rank (o_status ord')" by simp_all
qed

lemma hist_exec:
  assumes "hist_ok h s" "order_exec (RehydrateOrder s) m = Inr ord"
  obtains e where "o_events ord = [e]" "hist_ok (h @ [e]) (Snapshot ord)" "o_id ord = s_ID s"
proof -
  have iv: "order_inv (RehydrateOrder s)" using assms(1) by (simp add: hist_ok_def)
  obtain e where e: "o_events ord = [e]" "ev_orderID e = s_ID s" "apply_event (Some s) e = Some (Snapshot ord)"
    using exec_event [OF iv assms(2)] by blast
  have v: "o_id ord = s_ID s" "o_version ord = s_Version s + 1"
    using order_exec_step [OF assms(2)] by (simp_all add: RehydrateOrder_def)
  have "order_inv (RehydrateOrder (Snapshot ord))"
    using order_exec_inv [OF iv assms(2)]
    by (simp add: RehydrateOrder_def Snapshot_def order_inv_def order_static_def fill_agrees_def)
  moreover have "o_events ord = o_events (RehydrateOrder s) @ [e]" using e(1) by (simp add: RehydrateOrder_def)
  note p = exec_progress [OF iv assms(2) this]
  have "traded_qty (h @ [e]) = sint (o_filledQty ord)" "int (length (h @ [e])) \<le> sint (o_filledQty ord) + rank (o_status ord)"
    using p assms(1) by (auto simp: hist_ok_def RehydrateOrder_def traded_qty_def)
  moreover have "o_version ord = of_nat (length (h @ [e]) - 1)"
  proof -
    obtain n where "length h = Suc n" using hist_not_Nil [OF assms(1)] by (cases h) auto
    then show ?thesis using v(2) assms(1) by (simp add: hist_ok_def)
  qed
  ultimately have "hist_ok (h @ [e]) (Snapshot ord)"
    using e assms(1) v replay_snoc [of h s e] by (simp add: hist_ok_def AggregateID_def)
  then show thesis using that e(1) v(1) by blast
qed

lemma hist_new:
  assumes "NewOrder oid acct symb side ot tif px q t = Inr ord"
  shows "hist_ok (o_events (fst (decide res now ord))) (Snapshot (fst (decide res now ord)))"
proof -
  let ?d = "fst (decide res now ord)"
  note d = decide_new [OF assms, of res now]
  have "order_inv (RehydrateOrder (Snapshot ?d))"
    using d(1) by (simp add: sourced_def RehydrateOrder_def Snapshot_def order_inv_def order_static_def fill_agrees_def)
  moreover have "o_filledQty ?d = 0" "o_version ?d = 1" "length (o_events ?d) = 2" "traded_qty (o_events ?d) = 0"
    using assms by (auto simp: decide_def NewOrder_def order_op_defs canTransitionTo_iff traded_qty_def fills_def
        split: sum.splits if_splits)
  moreover have "2 \<le> rank (o_status ?d)" using d(4) by (auto simp: rank_def working_def split: sum.splits)
  ultimately show ?thesis using d(1,2) by (simp add: hist_ok_def sourced_def own_events_def)
qed

text \<open>Equal versions mean equal histories.\<close>

lemma hist_version:
  assumes "hist_ok h s" "hist_ok (h @ r) s'" "s_Version s = s_Version s'"
  shows "r = []"
proof -
  have b: "length g < 2 ^ 64" if "hist_ok g x" for g x
  proof -
    have "int (length g) \<le> sint (s_FilledQty x) + 3" using that by (auto simp: hist_ok_def rank_def split: if_splits)
    moreover have "sint (s_FilledQty x) < 2 ^ 63" using sint_lt [of "s_FilledQty x"] by simp
    ultimately have "int (length g) < 2 ^ 64" by simp
    then show ?thesis by simp
  qed
  have "(of_nat (length h - 1) :: int64) = of_nat (length (h @ r) - 1)"
    using assms by (simp only: hist_ok_def)
  then have "length h - 1 = length (h @ r) - 1"
    using b [OF assms(1)] b [OF assms(2)] by (simp add: word_of_nat_eq_iff take_bit_nat_eq_self)
  then show ?thesis using hist_not_Nil [OF assms(1)] by (cases h) auto
qed


subsection \<open>Invariant\<close>

fun pending_of :: "thread \<Rightarrow> Event list" where
  "pending_of (Publishing es) = es"
| "pending_of _ = []"

text \<open>
  For some histories: each stored order is the replay of its history, what was published and what
  threads still have to publish is together exactly the histories, and a thread that wants to write
  has read the order at some point of its history.
\<close>

definition thread_ok :: "(string \<Rightarrow> Event list) \<Rightarrow> thread \<Rightarrow> bool" where
  "thread_ok h t =
     (case t of
        Writing ord v \<Rightarrow> \<exists>h0 s m. prefix h0 (h (o_id ord)) \<and> hist_ok h0 s \<and> s_ID s = o_id ord \<and> s_Version s = v \<and>
          order_exec (RehydrateOrder s) m = Inr ord
      | Looking built k \<Rightarrow> (case built of Inl _ \<Rightarrow> True | Inr ord \<Rightarrow> hist_ok (o_events ord) (Snapshot ord))
      | Saving ord k \<Rightarrow> hist_ok (o_events ord) (Snapshot ord)
      | _ \<Rightarrow> True)"

definition pend :: "string \<Rightarrow> thread list \<Rightarrow> Event multiset" where
  "pend i ts = (\<Sum>t \<leftarrow> ts. mset (events_of i (pending_of t)))"

definition stored_ok :: "(string \<Rightarrow> Event list) \<Rightarrow> OrderRepository \<Rightarrow> bool" where
  "stored_ok h r \<longleftrightarrow> repo_inv r \<and>
     (\<forall>i. case repo_map r i of None \<Rightarrow> h i = [] | Some s \<Rightarrow> s_ID s = i \<and> hist_ok (h i) s)"

definition conc_inv :: "(string \<Rightarrow> Event list) \<Rightarrow> Conc \<Rightarrow> bool" where
  "conc_inv h c \<longleftrightarrow>
     stored_ok h (conc_repo c) \<and>
     (\<forall>i. mset (events_of i (concat (conc_pub c))) + pend i (conc_threads c) = mset (h i)) \<and>
     (\<forall>t \<in> set (conc_threads c). thread_ok h t)"

lemma pend_append [simp]: "pend i (ts @ us) = pend i ts + pend i us"
  by (simp add: pend_def)

lemma pend_update:
  "j < length ts \<Longrightarrow> pend i (ts[j := t]) + mset (events_of i (pending_of (ts ! j))) =
     pend i ts + mset (events_of i (pending_of t))"
proof (induction ts arbitrary: j)
  case (Cons u us)
  show ?case
  proof (cases j)
    case (Suc k)
    with Cons.IH [of k] Cons.prems show ?thesis by (simp add: pend_def ac_simps)
  qed (simp add: pend_def ac_simps)
qed simp

lemma events_of_Nil [simp]: "events_of i [] = []"
  by (simp add: events_of_def)

lemma thread_ok_mono: "thread_ok h t \<Longrightarrow> prefix (h i) (g i) \<Longrightarrow> thread_ok (h(i := g i)) t"
  by (cases t) (auto simp: thread_ok_def intro: prefix_order.trans split: sum.splits)

lemma conc_invD:
  assumes "conc_inv h c" "j < length (conc_threads c)"
  shows "thread_ok h (conc_threads c ! j)" "stored_ok h (conc_repo c)"
  using assms by (auto simp: conc_inv_def)

text \<open>A step that only changes the thread.\<close>

lemma conc_inv_local:
  assumes "conc_inv h c" "j < length (conc_threads c)" "thread_ok h t"
    "pending_of (conc_threads c ! j) = []" "pending_of t = []"
  shows "conc_inv h (c\<lparr>conc_threads := (conc_threads c)[j := t]\<rparr>)"
  using assms pend_update [OF assms(2), of _ t]
  by (auto simp: conc_inv_def dest!: set_update_subset_insert [THEN subsetD])

text \<open>A step that writes an order: its history grows by events the thread now has to publish.\<close>

lemma conc_inv_write:
  assumes c: "conc_inv h c" and j: "j < length (conc_threads c)" "pending_of (conc_threads c ! j) = []"
    and r: "repo_inv r" "repo_map r = (repo_map (conc_repo c))(o_id ord \<mapsto> Snapshot ord)"
    and h: "hist_ok (h (o_id ord) @ o_events ord) (Snapshot ord)"
  shows "conc_inv (h(o_id ord := h (o_id ord) @ o_events ord))
    (c\<lparr>conc_repo := r, conc_threads := (conc_threads c)[j := Publishing (o_events ord)]\<rparr>)"
proof -
  let ?i = "o_id ord" and ?h = "h(o_id ord := h (o_id ord) @ o_events ord)"
  have "case repo_map r i of None \<Rightarrow> ?h i = [] | Some s \<Rightarrow> s_ID s = i \<and> hist_ok (?h i) s" for i
  proof (cases "i = ?i")
    case False
    show ?thesis unfolding r(2) fun_upd_other [OF False] using c by (simp add: conc_inv_def stored_ok_def)
  qed (use r(2) h in simp)
  then have s: "stored_ok ?h r" using r(1) by (simp add: stored_ok_def)
  have own: "\<forall>e \<in> set (o_events ord). AggregateID e = ?i" using h by (simp add: hist_ok_def)
  have "mset (events_of i (concat (conc_pub c))) + pend i ((conc_threads c)[j := Publishing (o_events ord)]) = mset (?h i)" for i
  proof -
    have "pend i ((conc_threads c)[j := Publishing (o_events ord)]) = pend i (conc_threads c) + mset (events_of i (o_events ord))"
      using pend_update [OF j(1), of i "Publishing (o_events ord)"] j(2) by simp
    moreover have "mset (events_of i (concat (conc_pub c))) + pend i (conc_threads c) = mset (h i)"
      using c by (simp add: conc_inv_def)
    moreover have "events_of i (o_events ord) = (if i = ?i then o_events ord else [])"
      using events_of_all [OF own] events_of_none [OF own] by simp
    ultimately show ?thesis by (auto simp: add.assoc [symmetric])
  qed
  moreover have "thread_ok ?h t" if "t \<in> set ((conc_threads c)[j := Publishing (o_events ord)])" for t
  proof -
    have "t = Publishing (o_events ord) \<or> t \<in> set (conc_threads c)"
      using that set_update_subset_insert [of "conc_threads c" j "Publishing (o_events ord)"] by auto
    then show ?thesis
      using c thread_ok_mono [of h t ?i ?h] by (auto simp: conc_inv_def thread_ok_def)
  qed
  ultimately show ?thesis using s by (simp add: conc_inv_def)
qed

lemma stored_Get:
  assumes "stored_ok h r" "Get r i = Inr ord"
  obtains s where "ord = RehydrateOrder s" "s_ID s = i" "hist_ok (h i) s" "o_id ord = i"
proof -
  have iv: "repo_inv r" using assms(1) by (simp add: stored_ok_def)
  note g = Get_stored [OF iv assms(2)]
  have "case repo_map r i of None \<Rightarrow> h i = [] | Some s \<Rightarrow> s_ID s = i \<and> hist_ok (h i) s"
    using assms(1) by (simp add: stored_ok_def)
  with g show thesis using that [of "Snapshot ord"] by simp
qed

lemma conc_inv_update:
  assumes c: "conc_inv h c" and j: "j < length (conc_threads c)" "conc_threads c ! j = Writing ord v"
    and u: "Update (conc_repo c) ord v = Inr r"
  shows "\<exists>h. conc_inv h (c\<lparr>conc_repo := r, conc_threads := (conc_threads c)[j := Publishing (o_events ord)]\<rparr>)"
proof -
  have so: "stored_ok h (conc_repo c)" and iv: "repo_inv (conc_repo c)"
    using c by (simp_all add: conc_inv_def stored_ok_def)
  obtain h0 s m where t: "prefix h0 (h (o_id ord))" "hist_ok h0 s" "s_ID s = o_id ord" "s_Version s = v"
    "order_exec (RehydrateOrder s) m = Inr ord"
    using conc_invD(1) [OF c j(1)] unfolding j(2) thread_ok_def by auto
  note up = mem.update_Inr [OF iv u]
  obtain cur where cur: "repo_map (conc_repo c) (o_id ord) = Some cur" "s_Version cur = v" using up(1) by blast
  have "case repo_map (conc_repo c) (o_id ord) of None \<Rightarrow> h (o_id ord) = []
      | Some s \<Rightarrow> s_ID s = o_id ord \<and> hist_ok (h (o_id ord)) s" using so by (simp add: stored_ok_def)
  then have hc: "hist_ok (h (o_id ord)) cur" using cur(1) by simp
  obtain r0 where "h (o_id ord) = h0 @ r0" using t(1) by (auto simp: prefix_def)
  moreover from this have "r0 = []" using hist_version [OF t(2), of r0 cur] hc t(4) cur(2) by simp
  ultimately have "h (o_id ord) = h0" by simp
  moreover obtain e where "o_events ord = [e]" "hist_ok (h0 @ [e]) (Snapshot ord)" using hist_exec [OF t(2,5)] by blast
  ultimately have "hist_ok (h (o_id ord) @ o_events ord) (Snapshot ord)" by simp
  from conc_inv_write [OF c j(1) _ up(2,3) this] j(2) show ?thesis by auto
qed

lemma conc_inv_save:
  assumes c: "conc_inv h c" and j: "j < length (conc_threads c)" "conc_threads c ! j = Saving ord k"
    and u: "Save (conc_repo c) ord k = Inr r"
  shows "\<exists>h. conc_inv h (c\<lparr>conc_repo := r, conc_threads := (conc_threads c)[j := Publishing (o_events ord)]\<rparr>)"
proof -
  have so: "stored_ok h (conc_repo c)" and iv: "repo_inv (conc_repo c)"
    using c by (simp_all add: conc_inv_def stored_ok_def)
  note sv = mem.save_Inr [OF iv u]
  have "case repo_map (conc_repo c) (o_id ord) of None \<Rightarrow> h (o_id ord) = []
      | Some s \<Rightarrow> s_ID s = o_id ord \<and> hist_ok (h (o_id ord)) s" using so by (simp add: stored_ok_def)
  then have "h (o_id ord) = []" using sv(1) by simp
  moreover have "hist_ok (o_events ord) (Snapshot ord)" using conc_invD(1) [OF c j(1)] unfolding j(2) thread_ok_def by simp
  ultimately show ?thesis using conc_inv_write [OF c j(1) _ sv(2,3)] j(2) by auto
qed

lemma Conc_fold:
  "\<lparr>conc_repo = conc_repo c, conc_pub = conc_pub c, conc_threads = ts\<rparr> = c\<lparr>conc_threads := ts\<rparr>"
  "\<lparr>conc_repo = r, conc_pub = conc_pub c, conc_threads = ts\<rparr> = c\<lparr>conc_repo := r, conc_threads := ts\<rparr>"
  by simp_all

text \<open>A thread that has read the order, or looked the key up, knows what it needs for its write.\<close>

lemma thread_ok_read:
  assumes "stored_ok h r"
  shows "thread_ok h (fst (thread_step (Reading i m) (r, pub)))"
proof (cases "Get r i")
  case (Inr ord)
  obtain s where s: "ord = RehydrateOrder s" "s_ID s = i" "hist_ok (h i) s" "o_id ord = i"
    by (rule stored_Get [OF assms Inr])
  show ?thesis
  proof (cases "order_exec ord m")
    case exec: (Inr ord')
    have "o_id ord' = i" using order_exec_step(1) [OF exec] s(4) by simp
    moreover have "o_version ord = s_Version s" using s(1) by (simp add: RehydrateOrder_def)
    ultimately have "prefix (h i) (h (o_id ord')) \<and> hist_ok (h i) s \<and> s_ID s = o_id ord' \<and>
        s_Version s = o_version ord \<and> order_exec (RehydrateOrder s) m = Inr ord'"
      using s(1-3) exec by simp
    then show ?thesis using Inr exec by (auto simp: thread_ok_def)
  qed (simp add: Inr thread_ok_def)
qed (simp add: thread_ok_def)

lemma thread_ok_look: "thread_ok h (Looking built k) \<Longrightarrow> thread_ok h (fst (thread_step (Looking built k) (r, pub)))"
  by (auto simp: thread_ok_def split: option.splits sum.splits)

lemma conc_inv_publish:
  assumes c: "conc_inv h c" and j: "j < length (conc_threads c)" "conc_threads c ! j = Publishing es"
  shows "conc_inv h \<lparr>conc_repo = conc_repo c, conc_pub = conc_pub c @ [es],
    conc_threads = (conc_threads c)[j := Returned (Inr ())]\<rparr>"
proof -
  have "pend i ((conc_threads c)[j := Returned (Inr ())]) + mset (events_of i es) = pend i (conc_threads c)" for i
    using pend_update [OF j(1), of i "Returned (Inr ())"] j(2) by simp
  then have p: "pend i (conc_threads c) = pend i ((conc_threads c)[j := Returned (Inr ())]) + mset (events_of i es)" for i
    by simp
  have "mset (events_of i (concat (conc_pub c))) + pend i (conc_threads c) = mset (h i)" for i
    using c by (simp add: conc_inv_def)
  then have "mset (events_of i (concat (conc_pub c @ [es]))) + pend i ((conc_threads c)[j := Returned (Inr ())]) =
      mset (h i)" for i unfolding p by (simp add: ac_simps)
  moreover have "\<forall>t \<in> set ((conc_threads c)[j := Returned (Inr ())]). thread_ok h t"
    using c set_update_subset_insert [of "conc_threads c" j "Returned (Inr ())"] by (auto simp: conc_inv_def thread_ok_def)
  ultimately show ?thesis using c by (simp add: conc_inv_def del: concat_append)
qed

lemma conc_inv_run:
  assumes c: "conc_inv h c"
  shows "\<exists>h. conc_inv h (conc_step c (Run j))"
proof (cases "j < length (conc_threads c)")
  case j: True
  note d = conc_invD [OF c j]
  show ?thesis
  proof (cases "conc_threads c ! j")
    case (Reading i m)
    let ?t = "fst (thread_step (Reading i m) (conc_repo c, conc_pub c))"
    have "pending_of ?t = []" by (simp split: sum.split)
    then show ?thesis
      using conc_inv_local [OF c j thread_ok_read [OF d(2)], of i m "conc_pub c"] Reading j by (auto simp: Let_def Conc_fold)
  next
    case (Looking built k)
    let ?t = "fst (thread_step (Looking built k) (conc_repo c, conc_pub c))"
    have "pending_of ?t = []" by (simp split: sum.split option.split)
    then show ?thesis
      using conc_inv_local [OF c j thread_ok_look [OF d(1) [unfolded Looking]], of "conc_repo c" "conc_pub c"] Looking j
      by (auto simp: Let_def Conc_fold)
  next
    case (Writing ord v)
    show ?thesis
    proof (cases "Update (conc_repo c) ord v")
      case (Inl e)
      then show ?thesis using conc_inv_local [OF c j, of "Returned (Inl e)"] Writing j by (auto simp: thread_ok_def Conc_fold)
    next
      case (Inr r)
      then show ?thesis using conc_inv_update [OF c j Writing Inr] Writing j by (simp add: Conc_fold)
    qed
  next
    case (Saving ord k)
    show ?thesis
    proof (cases "Save (conc_repo c) ord k")
      case (Inl e)
      then show ?thesis using conc_inv_local [OF c j, of "Returned (Inl e)"] Saving j by (auto simp: thread_ok_def Conc_fold)
    next
      case (Inr r)
      then show ?thesis using conc_inv_save [OF c j Saving Inr] Saving j by (simp add: Conc_fold)
    qed
  next
    case (Publishing es)
    then show ?thesis using conc_inv_publish [OF c j Publishing] j by auto
  next
    case (Returned res)
    then have "conc_step c (Run j) = c" using j by (simp add: list_update_same_conv [THEN iffD2])
    then show ?thesis using c by auto
  qed
qed (use c in auto)

lemma thread_ok_Reading [simp]: "thread_ok h (Reading i m)"
  by (simp add: thread_ok_def)

lemma conc_inv_spawn: "conc_inv h c \<Longrightarrow> thread_ok h t \<Longrightarrow> pending_of t = [] \<Longrightarrow> conc_inv h (spawn t c)"
  by (auto simp: conc_inv_def spawn_def pend_def)

definition conc_ok :: "Conc \<Rightarrow> bool" where
  "conc_ok c \<longleftrightarrow> (\<exists>h. conc_inv h c)"

interpretation conc: command_machine conc_exec conc_ok
proof
  fix c x c'
  assume "conc_ok c" and "conc_exec c x = Inr c'"
  then obtain h where c: "conc_inv h c" and c': "c' = conc_step c x" by (auto simp: conc_ok_def conc_exec_def)
  show "conc_ok c'"
  proof (cases x)
    case (CallPlace oid acct symb side ot tif px q t res now key)
    let ?t = "Looking (bind_result (NewOrder oid acct symb side ot tif px q t) (\<lambda>ord. Inr (fst (decide res now ord)))) key"
    have "thread_ok h ?t" "pending_of ?t = []"
      by (auto simp: thread_ok_def hist_new split: sum.split)
    then have "conc_inv h (spawn ?t c)" by (rule conc_inv_spawn [OF c])
    then show ?thesis using CallPlace c' by (auto simp: conc_ok_def)
  next
    case (Run j)
    then show ?thesis using conc_inv_run [OF c, of j] c' by (auto simp: conc_ok_def simp del: conc_step.simps)
  qed (use conc_inv_spawn [OF c thread_ok_Reading] c' in \<open>auto simp: conc_ok_def\<close>)
qed

lemma conc_start_ok: "NewOrderRepository m n = Some (Inr repo) \<Longrightarrow> conc_ok (conc_start repo)"
  using NewOrderRepository_inv [of m n repo]
  by (auto simp: conc_ok_def conc_inv_def conc_start_def stored_ok_def pend_def intro!: exI [of _ "\<lambda>_. []"])


subsection \<open>Properties\<close>

lemma traded_qty_mset: "mset es = mset fs \<Longrightarrow> traded_qty es = traded_qty fs"
proof -
  assume "mset es = mset fs"
  moreover have "traded_qty xs = sum_mset (image_mset (\<lambda>e. sum_list (map fst (fill_of e))) (mset xs))" for xs
    by (induction xs) (auto simp: traded_qty_def fills_def)
  ultimately show ?thesis by simp
qed

text \<open>
  C3. Overlapping calls lose nothing. However placements, cancellations and fills interleave between
  their reads, writes and publications, once every call has returned: the published events of a
  stored order are, up to their order, a history whose replay is exactly the stored order; the
  filled quantity is the sum of the published fills, so that no execution is lost or counted twice;
  and nothing was published about an order that is not stored.
\<close>

theorem overlapping_calls_lose_nothing:
  assumes "NewOrderRepository m n = Some (Inr repo)" "c = run_cmds conc_exec (conc_start repo) sched"
    and "list_all (\<lambda>t. pending_of t = []) (conc_threads c)"
  shows "case Get (conc_repo c) i of
      Inr ord \<Rightarrow> (\<exists>h. mset h = mset (events_of i (concat (conc_pub c))) \<and> replay h = Some (Snapshot ord)) \<and>
        order_inv ord \<and> traded_qty (events_of i (concat (conc_pub c))) = sint (o_filledQty ord)
    | Inl e \<Rightarrow> e = ErrNotFound \<and> events_of i (concat (conc_pub c)) = []"
proof -
  have "conc_ok c" unfolding assms(2) by (rule conc.run_inv [OF conc_start_ok [OF assms(1)]])
  then obtain h where h: "conc_inv h c" by (auto simp: conc_ok_def)
  have "pend i ts = {#}" if "list_all (\<lambda>t. pending_of t = []) ts" for ts
    using that by (induction ts) (auto simp: pend_def)
  from this [OF assms(3)] have m: "mset (events_of i (concat (conc_pub c))) = mset (h i)"
    using h unfolding conc_inv_def by (metis add.right_neutral)
  have so: "stored_ok h (conc_repo c)" using h by (simp add: conc_inv_def)
  then have iv: "repo_inv (conc_repo c)"
    and k: "case repo_map (conc_repo c) i of None \<Rightarrow> h i = [] | Some s \<Rightarrow> s_ID s = i \<and> hist_ok (h i) s"
    by (simp_all add: stored_ok_def)
  show ?thesis
  proof (cases "Get (conc_repo c) i")
    case (Inl e)
    then have "e = ErrNotFound" "repo_map (conc_repo c) i = None"
      using mem.get_eq [OF iv, of i] by (auto split: option.splits)
    then show ?thesis using k m Inl by simp
  next
    case (Inr ord)
    note g = Get_stored [OF iv Inr]
    have o: "hist_ok (h i) (Snapshot ord)" using k g(1) by simp
    moreover have "order_inv ord" using o g(4) by (simp add: hist_ok_def)
    moreover have "traded_qty (events_of i (concat (conc_pub c))) = sint (o_filledQty ord)"
      using traded_qty_mset [OF m] o by (simp add: hist_ok_def)
    ultimately show ?thesis using Inr m by (auto simp: hist_ok_def)
  qed
qed

text \<open>Two fills that read the same version: one of them is refused, and only the other one counts.\<close>

definition race :: "sched list" where
  "race = [CallPlace ''ord-1'' ''acct-1'' ''AAPL'' SideBuy OrderTypeLimit TIFDay 1500000 10000 5
             (Inr \<lparr>Approved = True, Reason = [], Score = 0\<rparr>) 6 ''k1'', Run 0, Run 0,
           CallFill ''ord-1'' 4000 1500000 7, CallFill ''ord-1'' 3000 1500000 8,
           Run 1, Run 2, Run 1, Run 2, Run 1, Run 0]"

theorem overlapping_calls_lose_nothing_witness:
  "let c = run_cmds conc_exec (conc_start sample_repo) race
   in conc_threads c = [Returned (Inr ()), Returned (Inr ()), Returned (Inl ErrVersionConflict)] \<and>
      map_sum id o_filledQty (Get (conc_repo c) ''ord-1'') = Inr 4000 \<and>
      traded_qty (events_of ''ord-1'' (concat (conc_pub c))) = 4000"
proof -
  let ?c = "run_cmds conc_exec (conc_start sample_repo) race"
  have t: "conc_threads ?c = [Returned (Inr ()), Returned (Inr ()), Returned (Inl ErrVersionConflict)]" by code_simp
  have g: "map_sum id o_filledQty (Get (conc_repo ?c) ''ord-1'') = Inr 4000" by code_simp
  from overlapping_calls_lose_nothing [OF sample_repo refl, of race "''ord-1''"] t g
  have "traded_qty (events_of ''ord-1'' (concat (conc_pub ?c))) = 4000" by (auto split: sum.splits)
  with t g show ?thesis by (simp only: Let_def simp_thms)
qed

text \<open>
  The lookup of the key and \<open>Save\<close> are separate steps, and \<open>Save\<close> does not look at the key again: two
  overlapping placements with one key both store an order.
\<close>

definition key_race :: "sched list" where
  "key_race = map (\<lambda>i. CallPlace i ''acct-1'' ''AAPL'' SideBuy OrderTypeLimit TIFDay 1500000 10000 5
       (Inr \<lparr>Approved = True, Reason = [], Score = 0\<rparr>) 6 ''k1'') [''ord-1'', ''ord-2''] @
     [Run 0, Run 1, Run 0, Run 1, Run 0, Run 1]"

lemma overlapping_keys_both_stored:
  "let c = run_cmds conc_exec (conc_start sample_repo) key_race
   in conc_threads c = [Returned (Inr ()), Returned (Inr ())] \<and>
      map (\<lambda>i. map_sum id o_status (Get (conc_repo c) i)) [''ord-1'', ''ord-2''] = [Inr StatusAccepted, Inr StatusAccepted]"
  by code_simp

end
