(* ===== verification/Api_Runs.thy ===== *)
theory Api_Runs
  imports GraphQL_Api Live_System
begin

section \<open>Sequences of GraphQL requests\<close>

text \<open>
  The root fields of the schema with their resolvers, as a machine over requests: a name and the
  argument map that the library built for it. The machine is a client of the service: every request
  amounts to at most one command, so runs of requests are runs of the service, and what holds for
  every reachable world holds behind the API. Of the queries only \<open>health\<close> amounts to one: reading the
  state of the breaker moves an open breaker that has cooled down to half-open. Requests do not overlap. How maps are enumerated is a
  parameter.
\<close>

record orders_of_maps =
  enum_orders :: "OrderSnapshot list \<Rightarrow> OrderSnapshot list"
  enum_positions :: "(string \<times> position) list \<Rightarrow> (string \<times> position) list"

definition resolvers :: "Env \<Rightarrow> orders_of_maps \<Rightarrow> (string \<times> (Args \<Rightarrow> Api \<Rightarrow> response result \<times> Api)) list" where
  "resolvers env en =
     [(''health'', \<lambda>_. resolveHealth env), (''order'', resolveOrder), (''orders'', resolveOrders (enum_orders en)),
      (''positions'', resolvePositions (enum_positions en)), (''placeOrder'', resolvePlaceOrder env),
      (''cancelOrder'', resolveCancelOrder env), (''applyFill'', resolveApplyFill env)]"

text \<open>A request for a field that the schema does not have is refused by the library.\<close>

definition api_request :: "Env \<Rightarrow> orders_of_maps \<Rightarrow> Api \<Rightarrow> string \<times> Args \<Rightarrow> (response result \<times> Api) option" where
  "api_request env en a req =
     (case req of (name, args) \<Rightarrow> map_option (\<lambda>f. f args a) (map_of (resolvers env en) name))"

definition api_exec :: "Env \<Rightarrow> orders_of_maps \<Rightarrow> Api \<Rightarrow> string \<times> Args \<Rightarrow> Api result" where
  "api_exec env en a req =
     (case api_request env en a req of None \<Rightarrow> Inl (ErrText ''Cannot query field'') | Some (_, a') \<Rightarrow> Inr a')"


definition api_calls :: "string \<times> Args \<Rightarrow> svc_cmd list" where
  "api_calls req =
     (case req of (name, args) \<Rightarrow>
        if name = ''health'' then [SBreaker]
        else if name = ''placeOrder'' then
          [SPlace \<lparr>pc_AccountID = argString args ''accountId'', pc_Symbol = argString args ''symbol'',
             pc_Side = argString args ''side'', pc_OrderType = argString args ''orderType'',
             pc_TIF = argString args ''tif'', pc_Quantity = argString args ''quantity'',
             pc_LimitPrice = argString args ''limitPrice'', pc_IdempotencyKey = argString args ''idempotencyKey''\<rparr>]
        else if name = ''cancelOrder'' then [SCancel \<lparr>cc_OrderID = argString args ''orderId''\<rparr>]
        else if name = ''applyFill'' then
          [SFill \<lparr>fc_OrderID = argString args ''orderId'', fc_Quantity = argString args ''quantity'',
             fc_Price = argString args ''price''\<rparr>]
        else [])"

subsection \<open>Requests as commands\<close>

lemmas resolver_defs = resolveHealth_def resolveOrder_def resolveOrders_def resolvePositions_def
  resolvePlaceOrder_def resolveCancelOrder_def resolveApplyFill_def set_core_def track_def Let_def case_prod_unfold

lemma resolver_names: "map fst (resolvers env en) = map fst (query @ mutation)"
  by (simp add: resolvers_def query_def mutation_def)

lemma resolver_cases:
  assumes "map_of (resolvers env en) name = Some f"
  shows "api_world (snd (f args a)) = run_cmds (svc_exec env) (api_world a) (api_calls (name, args)) \<and>
    api_positions (snd (f args a)) = api_positions a \<and> counted name a (f args a)"
  using assms
  by (auto simp: resolvers_def api_calls_def place_command_def resolver_defs run_cmd_def svc_exec_def counted_def
      split: if_splits sum.splits)

text \<open>An unknown field is not a field of the schema and amounts to no command.\<close>

lemma unknown_field: "map_of (resolvers env en) name = None \<Longrightarrow> api_calls (name, args) = []"
  by (auto simp: resolvers_def api_calls_def split: if_splits)

interpretation api: client_machine "api_exec env en" "svc_exec env" api_world api_calls "world_ok env" for env en
proof
  show "api_world (run_cmd (api_exec env en) a req) = run_cmds (svc_exec env) (api_world a) (api_calls req)" for a req
  proof -
    obtain name args where r: "req = (name, args)" by fastforce
    show ?thesis
    proof (cases "map_of (resolvers env en) name")
      case None
      then show ?thesis using unknown_field [OF None, of args]
        by (simp add: r run_cmd_def api_exec_def api_request_def)
    next
      case (Some f)
      then show ?thesis using resolver_cases [OF Some, of args a]
        by (simp add: r run_cmd_def api_exec_def api_request_def case_prod_unfold)
    qed
  qed
qed

subsection \<open>Counting requests\<close>

definition requests :: "string \<Rightarrow> Api \<Rightarrow> nat" where
  "requests name a = GraphQLRequests a (name, ''ok'') + GraphQLRequests a (name, ''error'')"

lemma counted_requests: "counted name a out \<Longrightarrow> requests n (snd out) = requests n a + of_bool (n = name)"
  by (auto simp: counted_def requests_def Let_def)

lemma run_request:
  "requests n (run_cmd (api_exec env en) a (name, args)) =
     requests n a + of_bool (n = name \<and> name \<in> set (map fst (query @ mutation)))"
  "api_positions (run_cmd (api_exec env en) a (name, args)) = api_positions a"
proof -
  have m: "map_of (resolvers env en) name = None \<longleftrightarrow> name \<notin> set (map fst (query @ mutation))"
    unfolding resolver_names [of env en, symmetric] by (simp add: map_of_eq_None_iff)
  have e: "run_cmd (api_exec env en) a (name, args) =
      (case map_of (resolvers env en) name of None \<Rightarrow> a | Some f \<Rightarrow> snd (f args a))"
    by (simp add: run_cmd_def api_exec_def api_request_def case_prod_unfold split: option.split)
  show "requests n (run_cmd (api_exec env en) a (name, args)) =
      requests n a + of_bool (n = name \<and> name \<in> set (map fst (query @ mutation)))"
  proof (cases "map_of (resolvers env en) name")
    case None
    then show ?thesis using m by (simp add: e del: map_append set_append)
  next
    case (Some f)
    have "counted name a (f args a)" using resolver_cases [OF Some] by blast
    from counted_requests [OF this, of n] show ?thesis using m by (simp add: e Some del: map_append set_append)
  qed
  show "api_positions (run_cmd (api_exec env en) a (name, args)) = api_positions a"
    unfolding e using resolver_cases by (simp split: option.split)
qed

lemma run_requests:
  "(n \<in> set (map fst (query @ mutation)) \<longrightarrow>
     requests n (run_cmds (api_exec env en) a reqs) = requests n a + count_list (map fst reqs) n) \<and>
   api_positions (run_cmds (api_exec env en) a reqs) = api_positions a"
proof (induction reqs arbitrary: a)
  case (Cons req reqs)
  obtain name args where "req = (name, args)" by fastforce
  then show ?case
    using Cons.IH [of "run_cmd (api_exec env en) a req"] run_request [where a = a and env = env and en = en and name = name and args = args]
    by (simp del: append.simps set_append map_append)
qed simp

subsection \<open>Properties\<close>

text \<open>
  C7. The API refines the service. The schema has exactly one resolver per root field; after any
  sequence of requests, known or unknown, the world behind the API is the one that the commands of
  the requests lead to, in their order, so it is reachable if it was before: a mutation amounts to the
  command with its arguments by their names, \<open>health\<close> to a reading of the breaker's state, which may
  move it to half-open, and the other queries to nothing. Requests do not write the read model, and the counter of a field, summed over its two
  results, has grown by the number of requests for it.
\<close>

theorem api_refines_service:
  "let a' = run_cmds (api_exec env en) a reqs
   in map fst (resolvers env en) = map fst (query @ mutation) \<and>
      api_world a' = run_cmds (svc_exec env) (api_world a) (concat (map api_calls reqs)) \<and>
      (svc_reachable env (api_world a) \<longrightarrow> svc_reachable env (api_world a')) \<and>
      api_positions a' = api_positions a \<and>
      (\<forall>n \<in> set (map fst (query @ mutation)). requests n a' = requests n a + count_list (map fst reqs) n)"
  unfolding Let_def using resolver_names api.run_refines reachable_run run_requests by (metis (no_types, lifting))

theorem api_refines_service_witness:
  "let a' = run_cmds (api_exec demo_env \<lparr>enum_orders = id, enum_positions = id\<rparr>) demo_api
        [(''order'', [(''id'', GString ''ord-xx'')]), (''nope'', []), (''cancelOrder'', [(''orderId'', GString ''ord-xx'')])]
   in svc_reachable demo_env (api_world a') \<and> requests ''order'' a' = 1"
proof -
  have "''order'' \<in> set (map fst (query @ mutation))" by (simp add: query_def)
  moreover have "svc_reachable demo_env (api_world demo_api)" using demo_placed_reachable by (simp add: demo_api_def)
  moreover have "requests ''order'' demo_api = 0" by (simp add: requests_def demo_api_def)
  moreover have "count_list (map fst [(''order'', [(''id'', GString ''ord-xx'')]), (''nope'', []),
      (''cancelOrder'', [(''orderId'', GString ''ord-xx'')])]) ''order'' = 1" by simp
  ultimately show ?thesis
    using api_refines_service [of demo_env "\<lparr>enum_orders = id, enum_positions = id\<rparr>" demo_api
        "[(''order'', [(''id'', GString ''ord-xx'')]), (''nope'', []), (''cancelOrder'', [(''orderId'', GString ''ord-xx'')])]"]
    unfolding Let_def by (metis add_0)
qed





text \<open>
  C8. Queries answer from the store. In every state of the running system in which no event is in
  flight, with the read model fed by the bus: \<open>order\<close> answers with the view of the stored order, or
  null for an unknown id; \<open>orders\<close> with the views of distinct stored orders, newest first, as many as
  the limit allows and leaving out no newer one; \<open>positions\<close> with one row per symbol, whose net
  quantity prints the 64-bit sum of the filled quantities of the account's stored orders in that symbol,
  sells counted negative, and a symbol without a row has sum zero. None of them changes the service.
\<close>

theorem queries_answer_from_store:
  assumes "live env (api_world a) b" "Wait b"
    and "api_positions a = foldl Project NewPositionReadModel (map snd (sub_handled (bus_subs b ! 0)))"
    and "\<And>xs. mset (enum_orders en xs) = mset xs" "\<And>xs. mset (enum_positions en xs) = mset xs"
  shows "let r = c_repo (w_core (api_world a)); acct = argString args ''accountId'';
      held = (\<lambda>symb. \<Sum>i \<in> dom (repo_map r). exposure acct symb (repo_map r i)) in
    (\<exists>a'. api_world a' = api_world a \<and> api_request env en a (''order'', args) =
       Some (Inr (case Get r (argString args ''id'') of Inr ord \<Rightarrow> ROrder (viewFromOrder ord) | Inl _ \<Rightarrow> RNull), a')) \<and>
    (\<exists>a' xs. api_world a' = api_world a \<and> api_request env en a (''orders'', args) =
       Some (Inr (ROrders (map (\<lambda>s. viewFromOrder (RehydrateOrder s)) xs)), a') \<and>
       length xs = (let n = card (ran (repo_map r)); limit = sint (argInt args ''limit'') in if 0 < limit then min (nat limit) n else n) \<and> distinct (map s_ID xs) \<and> newest_first xs \<and>
       set xs \<subseteq> ran (repo_map r) \<and> (\<forall>x \<in> set xs. \<forall>y \<in> ran (repo_map r) - set xs. s_CreatedAt y \<le> s_CreatedAt x)) \<and>
    (\<exists>a' rows. api_world a' = api_world a \<and> api_request env en a (''positions'', args) = Some (Inr (RPositions rows), a') \<and>
       distinct (map pv_Symbol rows) \<and>
       (\<forall>row \<in> set rows. pv_AccountID row = acct \<and> pv_NetQty row = Quantity_String (held (pv_Symbol row))) \<and>
       (\<forall>symb. symb \<notin> pv_Symbol ` set rows \<longrightarrow> held symb = 0))"
proof -
  let ?c = "w_core (api_world a)" and ?acct = "argString args ''accountId''"
  let ?rm = "foldl Project NewPositionReadModel (map snd (sub_handled (bus_subs b ! 0)))"
  have c: "core_ok ?c" using live_served [OF assms(1)] reachable_ok world_core by blast
  have "\<exists>a'. api_world a' = api_world a \<and> api_request env en a (''order'', args) =
      Some (Inr (case Get (c_repo ?c) (argString args ''id'') of Inr ord \<Rightarrow> ROrder (viewFromOrder ord) | Inl _ \<Rightarrow> RNull), a')"
    using core_ok_Get(2) [OF c, of "argString args ''id''"]
    by (cases "Get (c_repo ?c) (argString args ''id'')")
      (auto simp: api_request_def resolvers_def resolveOrder_def GetOrder_def track_def Let_def)
  moreover obtain xs where xs: "List_orders (enum_orders en) (c_repo ?c) (argInt args ''limit'') = Inr (map RehydrateOrder xs)"
    "length xs = (let n = card (ran (repo_map (c_repo ?c))) in
       if 0 < sint (argInt args ''limit'') then min (nat (sint (argInt args ''limit''))) n else n)" "distinct (map s_ID xs)" "newest_first xs"
    "set xs \<subseteq> ran (repo_map (c_repo ?c))"
    "\<forall>x \<in> set xs. \<forall>y \<in> ran (repo_map (c_repo ?c)) - set xs. s_CreatedAt y \<le> s_CreatedAt x"
    using lst.list_newest [of "(enum_orders en, c_repo ?c)" "argInt args ''limit''"] core_ok_repo [OF c] assms(4) by auto
  have "\<exists>a'. api_world a' = api_world a \<and> api_request env en a (''orders'', args) =
      Some (Inr (ROrders (map (\<lambda>s. viewFromOrder (RehydrateOrder s)) xs)), a')"
    by (simp add: api_request_def resolvers_def resolveOrders_def ListOrders_def xs(1) track_def Let_def comp_def)
  moreover have n: "(case map_option netQty (pos_of ?rm ?acct symb) of None \<Rightarrow> 0 | Some q \<Rightarrow> q) =
      (\<Sum>i \<in> dom (repo_map (c_repo ?c)). exposure ?acct symb (repo_map (c_repo ?c) i))" for symb
    using live_positions(2) [OF assms(1) rtranclp.rtrancl_refl assms(2), of ?acct symb]
    by (auto simp: net_position_def zero_position_def split: option.splits)
  have "rm_inv ?rm" by (rule project_stream_inv [OF New_rm(1)])
  then obtain rows where rows: "Positions (enum_positions en) ?rm ?acct = Inr rows" "distinct (map pv_Symbol rows)"
    "\<forall>row \<in> set rows. pv_AccountID row = ?acct \<and> pv_NetQty row =
       Quantity_String (\<Sum>i \<in> dom (repo_map (c_repo ?c)). exposure ?acct (pv_Symbol row) (repo_map (c_repo ?c) i))"
    "\<forall>symb. symb \<notin> pv_Symbol ` set rows \<longrightarrow>
       (\<Sum>i \<in> dom (repo_map (c_repo ?c)). exposure ?acct symb (repo_map (c_repo ?c) i)) = 0"
    using prm.rows_of [of "(enum_positions en, ?rm)" ?acct
        "\<lambda>symb. \<Sum>i \<in> dom (repo_map (c_repo ?c)). exposure ?acct symb (repo_map (c_repo ?c) i)"] n assms(5) by auto
  have "\<exists>a'. api_world a' = api_world a \<and> api_request env en a (''positions'', args) = Some (Inr (RPositions rows), a')"
    by (simp add: api_request_def resolvers_def resolvePositions_def Service_Positions_def assms(3) rows(1) track_def Let_def)
  ultimately show ?thesis using xs(2-) rows(2-) unfolding Let_def by blast
qed

theorem queries_answer_from_store_witness:
  "\<exists>a' rows. api_request demo_env \<lparr>enum_orders = rev, enum_positions = rev\<rparr>
       (demo_api\<lparr>api_positions := foldl Project NewPositionReadModel (concat (c_published (w_core demo_placed)))\<rparr>)
       (''positions'', [(''accountId'', GString ''acct-1'')]) = Some (Inr (RPositions rows), a') \<and> distinct (map pv_Symbol rows)"
proof -
  let ?a = "demo_api\<lparr>api_positions := foldl Project NewPositionReadModel (concat (c_published (w_core demo_placed)))\<rparr>"
  obtain b0 where "live demo_env demo_placed b0" using demo_live by blast
  then obtain b where b: "live demo_env demo_placed b" "Wait b"
    using live_drains [of demo_env demo_placed b0] live_works by blast
  have "live demo_env (api_world ?a) b" using b(1) by (simp add: demo_api_def)
  moreover have "api_positions ?a = foldl Project NewPositionReadModel (map snd (sub_handled (bus_subs b ! 0)))"
    using live_positions(1) [OF b(1) rtranclp.rtrancl_refl b(2)] by simp
  ultimately show ?thesis
    using queries_answer_from_store [of demo_env ?a b "\<lparr>enum_orders = rev, enum_positions = rev\<rparr>"
        "[(''accountId'', GString ''acct-1'')]"] b(2) unfolding Let_def by auto
qed

end
