(* ===== verification/Spec2Isabelle.thy ===== *)
theory Spec2Isabelle
  imports Process Service_Interleaving Api_Runs
begin

text \<open>
  Verification of TradeDesk, an order-management service: a GraphQL API over an application service
  that places, cancels and fills orders, with an in-memory repository, an event bus, a position read
  model and a simulated venue, guarded by a rate limiter, a circuit breaker, timeouts and retries.
  The theories follow the packages; every definition keeps the name of the Go function or type it
  translates, with the package or receiver in front where names clash. File names are under
  \<open>src/internal\<close> unless given in full.

  \<^bold>\<open>The program.\<close> A mutation of the API calls a handler of \<open>app.Service\<close>. \<open>PlaceOrder\<close> asks the
  limiter, looks the idempotency key up, builds an order, asks the risk gate behind breaker and
  timeout, accepts or rejects, saves, publishes the events, and routes an accepted order to the venue
  with retries. \<open>CancelOrder\<close> and \<open>ApplyFill\<close> read an order, call one method of the aggregate, write it
  back if the version is still the one read, and publish. The bus hands the events to a worker that
  projects them into positions. Queries read the repository and the read model.

  \<^bold>\<open>Foundations.\<close>
  \<^item> \<open>Go_Prelude\<close>: \<open>int64\<close> as 64-bit words with Go's signed comparison and truncating division, the
    error type with all sentinel errors, results as sums, time. Simp collections for word arithmetic.
  \<^item> \<open>Go_Strings\<close>, \<open>Go_Float\<close>, \<open>Go_Parse\<close>: the parts of \<open>strings\<close>, \<open>strconv\<close>, \<open>math\<close> and \<open>time\<close> that the
    program uses: trimming, case, decimal parsing and printing, IEEE 754 arithmetic with rounding,
    \<open>ParseDuration\<close>, \<open>ParseFloat\<close>.
  \<^item> \<open>Command_Machine\<close>: the locales \<open>command_machine\<close> and \<open>related_machine\<close>, the contract of a
    component driven by commands that may fail; interpreted by the order, the position of an order in
    the read model, the service (by its log, by its steps and by the venue's record), and the schedules
    of overlapping calls. \<open>machine_refinement\<close> and \<open>client_machine\<close> are the contract of a machine that
    drives another one; interpreted by the GraphQL API over the service.

  \<^bold>\<open>Domain\<close> (\<open>domain/\<close>).
  \<^item> \<open>Money\<close> (\<open>money.go\<close>): checked and rounding arithmetic, decimal literals. The lemmas give exact
    results or the overflow error, rounding half away from zero, and the parse/print round trip.
  \<^item> \<open>Domain_Types\<close> (\<open>types.go\<close>, \<open>errors.go\<close>): vocabulary, parsers, the transition table.
  \<^item> \<open>Order\<close> (\<open>order.go\<close>, \<open>events.go\<close>): the aggregate as a record with its event buffer, one function
    per method. Invariant after every run of methods, terminal states, fills on every branch, replay
    of the events, bound on the drift of the average price.

  \<^bold>\<open>Ports and adapters\<close> (\<open>ports/\<close>, \<open>adapters/\<close>).
  \<^item> \<open>Ports\<close> (\<open>ports.go\<close>): every interface with a contract as a locale, with what clients derive, each
    interpreted by its adapter: \<open>order_repository\<close> and \<open>order_listing\<close>, \<open>risk_gate\<close>, \<open>id_generator\<close>,
    \<open>event_publisher\<close> (by the bus and by the log of the service), \<open>venue_port\<close>, \<open>position_read_model\<close>. The
    clock promises nothing.
  \<^item> \<open>Repository\<close> (\<open>memory/repository.go\<close>): shards, FNV-1a, idempotency index; interprets its port by
    the map it represents. Lost updates are excluded, listing is newest first, and the doubling loop
    for the shard count returns exactly up to \<open>2 ^ 62\<close> (\<open>partial_function\<close>, \<open>None\<close> for a hang). The
    largest length that \<open>make\<close> can allocate on the host is a parameter; beyond it the start panics.
  \<^item> \<open>Risk\<close> (\<open>ai/analyzer.go\<close>): both analysers; the chat completer is a parameter.
  \<^item> \<open>Event_Bus\<close> (\<open>memory/eventbus.go\<close>): publishers, channels, workers and the in-flight counter as an
    inductive step relation; in-order delivery, no deadlock, draining.
  \<^item> \<open>Read_Model\<close> (\<open>memory/readmodel.go\<close>): projection and queries; equality with sums over the stream.
  \<^item> \<open>Venue\<close> (\<open>memory/venue.go\<close>): routing with the fill callback.
  \<^item> \<open>System_Adapters\<close> (\<open>system/system.go\<close>): the clock and the id generator over the host's answers.

  \<^bold>\<open>Resilience\<close> (\<open>resilience/\<close>).
  \<^item> \<open>Circuit_Breaker\<close> (\<open>circuitbreaker.go\<close>), \<open>Limiter\<close> (\<open>limiter.go\<close>: token bucket, bulkhead, timeout),
    \<open>Retry_Policy\<close> (\<open>retry.go\<close>). Clock, context, random source and the race of a timeout with its
    operation are arguments, so the theorems hold for all their behaviours. The retry loop terminates
    by the distance to \<open>MaxAttempts\<close>.

  \<^bold>\<open>Application, API, process.\<close>
  \<^item> \<open>Service\<close> (\<open>app/service.go\<close>, \<open>app/commands.go\<close>): the handlers on explicit state. \<open>Core\<close> holds what
    they change through the ports, \<open>World\<close> adds breaker, limiter, venue and retry policy; \<open>Env\<close> answers
    clock, ids, timeouts and the risk gate, indexed by a counter of the questions asked.
  \<^item> \<open>Service_Log\<close>: each handler keeps the published events a faithful log of the stored orders. The locale
    \<open>core_preorder\<close> carries a relation through the retries of a routed order and the venue's callback;
    the log and the steps below interpret it.
  \<^item> \<open>Service_Runs\<close>: the service as a command machine; the properties of all sequences of calls.
  \<^item> \<open>Service_Steps\<close>: every handler as a sequence of steps of one inductive relation, so that an invariant
    is proved once per rule. \<open>Service_Counts\<close> uses it: the counters agree with the stored orders, ids are
    fresh, and so a placement fails only for two reasons; an order is routed at most once per attempt.
  \<^item> \<open>Service_Interleaving\<close>: the handlers as threads that overlap between their calls of repository and
    publisher, driven by a schedule; nothing is lost or counted twice, but two overlapping placements
    with one idempotency key both store an order.
  \<^item> \<open>Read_Side\<close>: positions as a function of the log, and a bus with one publisher at a time.
  \<^item> \<open>Live_System\<close>: service, bus and read model composed as \<open>run\<close> wires them, as an inductive relation:
    calls of the service relay their publications to the bus while its worker runs. Every call goes
    through, and every state of it can be drained.
  \<^item> \<open>GraphQL_Api\<close> (\<open>graphqlapi/schema.go\<close>): the schema as data and the resolvers.
  \<^item> \<open>Api_Runs\<close>: sequences of requests as a client of the service, and what the queries answer in the
    running system.
  \<^item> \<open>Http_Server\<close> (\<open>graphqlapi/server.go\<close>): routes, health endpoints, JSON answers and the recovery from
    panics over a model of net/http responses; the third-party handlers are arbitrary.
  \<^item> \<open>Observability\<close> (\<open>observability/metrics.go\<close>): the instruments and their registration.
  \<^item> \<open>Config_Env\<close> (\<open>config/config.go\<close>, \<open>observability/logging.go\<close>, \<open>src/cmd/tradedesk/main.go\<close>): settings, the
    construction of the service from them, the health probe.
  \<^item> \<open>Process\<close> (\<open>src/cmd/tradedesk/main.go\<close>): start, stop and exit code of the process. It starts, the
    health probe finds its server, and a clean exit has delivered every event.
  \<^item> This theory: the properties that span service, bus and read model.

  \<^bold>\<open>Abstractions.\<close> A Go mutex is an atomic step. The handlers of \<open>Service\<close> are sequential runs;
  \<open>Service_Interleaving\<close> splits them at their calls of the repository and the publisher, and breaker,
  bulkhead and bus have step relations for concurrent callers. \<open>overlapping_fill_is_lost\<close> below shows
  what an interleaving inside \<open>PlaceOrder\<close> does to the read model. An operation that a timeout
  abandons is taken to finish before the next step, and not to panic. Memory does not run out, the
  shards of the repository aside. \<open>Save\<close> is one step, although it locks the shard and the index one
  after the other. Enumeration of Go maps is an arbitrary
  permutation. Strings are bytes.

  \<^bold>\<open>Not modelled.\<close> The libraries: GraphQL execution and its HTTP handler, the Prometheus registry and
  its handler, UUIDs, the log handler and the chat client are parameters with their documented
  promises as hypotheses. Of the operating system and net/http, connections, TLS, timeouts on the
  wire, redirects and signals are left out; that a signal arrived, that listening failed and what
  \<open>Shutdown\<close> returned are parameters of \<open>Process\<close>. Log lines are left out. Plain getters are record
  selectors, and an interface of \<open>ports.go\<close> is a locale and not a definition.
\<close>

section \<open>Properties across components\<close>

text \<open>
  C2. The read side converges to the write side, end to end. In every state of the running system
  (any calls of the service, their batches published one after the other, the workers of the bus at
  any point), the bus can be drained; and whenever it has drained, the read model that its wildcard
  worker has fed holds, for every account and symbol, exactly the sum, in 64-bit arithmetic, of the
  filled quantities of the account's stored orders in that symbol, sells counted negative.
\<close>

theorem positions_match_orders:
  assumes "live env w b"
  shows "(\<exists>b'. work\<^sup>*\<^sup>* b b' \<and> Wait b') \<and>
    (\<forall>b'. work\<^sup>*\<^sup>* b b' \<and> Wait b' \<longrightarrow>
       net_position (foldl Project NewPositionReadModel (map snd (sub_handled (bus_subs b' ! 0)))) acct symb =
       (\<Sum>i \<in> dom (repo_map (c_repo (w_core w))). exposure acct symb (repo_map (c_repo (w_core w)) i)))"
  using live_drains [OF assms] live_positions(2) [OF assms] by blast

theorem positions_match_orders_witness:
  "(\<Sum>i \<in> dom (repo_map (c_repo (w_core demo_placed))).
      exposure ''acct-1'' ''AAPL'' (repo_map (c_repo (w_core demo_placed)) i)) = 10000"
proof -
  obtain b where b: "live demo_env demo_placed b" using demo_live by blast
  note p = positions_match_orders [OF b, of "''acct-1''" "''AAPL''"]
  then obtain b' where b': "work\<^sup>*\<^sup>* b b'" "Wait b'" by blast
  have "net_position (foldl Project NewPositionReadModel (concat (c_published (w_core demo_placed)))) ''acct-1'' ''AAPL'' = 10000"
    by code_simp
  then show ?thesis using p b' live_positions(1) [OF b b'] by metis
qed

text \<open>
  The order of delivery is not guaranteed between overlapping calls. \<open>PlaceOrder\<close> saves the order
  before it publishes it; when an \<open>ApplyFill\<close> runs between the two, both calls succeed, but the fill
  is published before the placement, the read model drops it, and the position stays at zero
  although the stored order is filled.
\<close>

theorem overlapping_fill_is_lost:
  "let accepted = projr (Accept sample_order 6);
       c = \<lparr>c_repo = sample_repo, c_published = [], c_metrics = zero_metrics, c_tick = 0\<rparr>;
       saved = c\<lparr>c_repo := projr (Save sample_repo accepted ''k1'')\<rparr>;
       (res, filled) = ApplyFill demo_env \<lparr>fc_OrderID = ''ord-1'', fc_Quantity = ''10'', fc_Price = ''150''\<rparr> saved;
       done = Publish (o_events accepted) filled
   in res = Inr () \<and> map_sum id o_filledQty (Get (c_repo done) ''ord-1'') = Inr 10000 \<and>
      net_position (foldl Project NewPositionReadModel (concat (c_published done))) ''acct-1'' ''AAPL'' = 0"
  by code_simp

end
